(* ===== verification/Prelude.thy ===== *)
theory Prelude
  imports
    Complex_Main
    "HOL-Library.Word"
    "HOL-Library.AList"
begin

text \<open>
  Vocabulary shared by the theories of the development: names for the Go types the source uses,
  the model of Go maps as association lists, and the generic facts on lists and association lists
  that the component proofs rely on.

  \<^item> A Go \<^verbatim>\<open>uint64\<close> is a 64 bit word.  A Go \<^verbatim>\<open>int\<close> or \<^verbatim>\<open>int64\<close> counter is an \<^typ>\<open>int\<close>: the counters
    of the source count requests, sandboxes and workers and stay far below the 63 bit bound.
  \<^item> A \<^verbatim>\<open>float64\<close> denotes a rational number.  NaN, the infinities and the negative zero are not values
    of the model; code that only compares loads is translated literally.
  \<^item> A Go map that is only read and written by key is an association list with distinct keys.  Where
    the code ranges over a map, the order of the iteration is an argument of the operation.
\<close>

type_synonym u64 = "64 word"
type_synonym u32 = "32 word"
type_synonym float64 = rat

subsection \<open>Collections of simplification rules\<close>

named_theorems go_map_simps \<open>lookups in updated Go maps\<close>
named_theorems frame_simps \<open>components that an operation leaves alone\<close>

subsection \<open>Go maps\<close>

type_synonym ('k, 'v) gomap = "('k \<times> 'v) list"

definition gomap_inv :: "('k, 'v) gomap \<Rightarrow> bool" where
  "gomap_inv m \<longleftrightarrow> distinct (map fst m)"

lemma gomap_inv_Nil [simp]: "gomap_inv []"
  by (simp add: gomap_inv_def)

lemma gomap_inv_update [simp]: "gomap_inv m \<Longrightarrow> gomap_inv (AList.update k v m)"
  by (simp add: gomap_inv_def distinct_update)

lemma gomap_inv_delete [simp]: "gomap_inv m \<Longrightarrow> gomap_inv (AList.delete k m)"
  by (simp add: gomap_inv_def distinct_delete)

lemma map_of_update_iff [go_map_simps]:
  "map_of (AList.update k v m) k' = (if k' = k then Some v else map_of m k')"
  by (simp add: update_conv')

lemma map_of_delete_iff [go_map_simps]:
  "map_of (AList.delete k m) k' = (if k' = k then None else map_of m k')"
  by (simp add: delete_conv')

lemma gomap_inv_map_of:
  "gomap_inv m \<Longrightarrow> map_of m k = Some v \<longleftrightarrow> (k, v) \<in> set m"
  by (simp add: gomap_inv_def)

subsection \<open>Sums over indexed lists\<close>

lemma sum_nth_update:
  fixes f :: "'a \<Rightarrow> int"
  assumes "r < length xs"
  shows "(\<Sum>i < length xs. f (xs[r := y] ! i)) = (\<Sum>i < length xs. f (xs ! i)) - f (xs ! r) + f y"
proof -
  have "(\<Sum>i < length xs. f (xs[r := y] ! i)) = f y + (\<Sum>i \<in> {..<length xs} - {r}. f (xs ! i))"
    using assms by (subst sum.remove[of _ r]) (auto intro!: sum.cong)
  moreover have "(\<Sum>i < length xs. f (xs ! i)) = f (xs ! r) + (\<Sum>i \<in> {..<length xs} - {r}. f (xs ! i))"
    using assms by (subst sum.remove[of _ r]) auto
  ultimately show ?thesis
    by simp
qed

lemma sum_nth_snoc:
  fixes f :: "'a \<Rightarrow> int"
  shows "(\<Sum>i < length (xs @ [y]). f ((xs @ [y]) ! i)) = (\<Sum>i < length xs. f (xs ! i)) + f y"
proof -
  have "(\<Sum>i < length xs. f ((xs @ [y]) ! i)) = (\<Sum>i < length xs. f (xs ! i))"
    by (rule sum.cong) (auto simp: nth_append)
  then show ?thesis
    by simp
qed

lemma length_filter_remove1:
  "x \<in> set xs \<Longrightarrow> length (filter P xs) = length (filter P (remove1 x xs)) + (if P x then 1 else 0)"
  by (induction xs) auto

subsection \<open>Ranging over a Go map\<close>

text \<open>
  A \<^verbatim>\<open>for range\<close> over a map visits every key once, in an order that the runtime chooses.  The choice is
  an argument \<open>order\<close>: the keys it lists come first, in that order, and the other keys follow.  Every
  choice visits each key exactly once, and every order of the keys is the visit of some choice.
\<close>

definition map_range :: "'k list \<Rightarrow> ('k, 'v) gomap \<Rightarrow> 'k list" where
  "map_range order m =
     filter (\<lambda>k. k \<in> fst ` set m) (remdups order) @ filter (\<lambda>k. k \<notin> set order) (map fst m)"

lemma set_map_range [simp]: "set (map_range order m) = fst ` set m"
  by (auto simp: map_range_def)

lemma distinct_map_range [simp]: "gomap_inv m \<Longrightarrow> distinct (map_range order m)"
  by (auto simp: map_range_def gomap_inv_def)

lemma map_range_any_order:
  assumes "distinct p" "set p = fst ` set m"
  shows "map_range p m = p"
proof -
  have "filter (\<lambda>k. k \<notin> set p) (map fst m) = []"
    using assms by (auto simp: filter_empty_conv)
  then show ?thesis
    using assms by (simp add: map_range_def distinct_remdups_id)
qed

subsection \<open>Updating several elements of a list\<close>

text \<open>
  A loop over a slice of pointers that changes the pointees: the pointers are indices into a heap.
\<close>

definition update_all :: "('a \<Rightarrow> 'a) \<Rightarrow> nat list \<Rightarrow> 'a list \<Rightarrow> 'a list" where
  "update_all f is xs = foldl (\<lambda>ys i. ys[i := f (ys ! i)]) xs is"

lemma length_update_all [simp]: "length (update_all f is xs) = length xs"
  unfolding update_all_def by (induction "is" arbitrary: xs) auto

lemma nth_update_all:
  "distinct is \<Longrightarrow> i < length xs \<Longrightarrow> update_all f is xs ! i = (if i \<in> set is then f (xs ! i) else xs ! i)"
proof (induction "is" arbitrary: xs)
  case (Cons j js)
  have "update_all f (j # js) xs = update_all f js (xs[j := f (xs ! j)])"
    by (simp add: update_all_def)
  with Cons show ?case
    by (cases "i = j") auto
qed (simp add: update_all_def)

end
