(* ===== verification/Go_Lib.thy ===== *)
theory Go_Lib
  imports Prelude
begin

text \<open>
  The parts of the Go standard library that the source calls and whose results its decisions depend
  on: the binary search \<^verbatim>\<open>sort.Search\<close>, decimal printing and parsing of unsigned integers
  (\<^verbatim>\<open>fmt.Sprintf("%d")\<close> and \<^verbatim>\<open>strconv.ParseUint(s, 10, 64)\<close>), the 64 bit FNV-1a hash, and the
  scan for a best element that several policies write as a loop.
\<close>

unbundle bit_operations_syntax

subsection \<open>sort.Search\<close>

text \<open>The loop keeps the invariant that \<open>f\<close> is false below \<open>i\<close> and true from \<open>j\<close> on.\<close>

function search_loop :: "(nat \<Rightarrow> bool) \<Rightarrow> nat \<Rightarrow> nat \<Rightarrow> nat" where
  "search_loop f i j =
     (if i < j
      then (let h = (i + j) div 2 in if \<not> f h then search_loop f (h + 1) j else search_loop f i h)
      else i)"
  by pat_completeness auto

termination search_loop
  by (relation "measure (\<lambda>(f, i, j). j - i)") auto

declare search_loop.simps [simp del]

definition sort_Search :: "nat \<Rightarrow> (nat \<Rightarrow> bool) \<Rightarrow> nat" where
  "sort_Search n f = search_loop f 0 n"

subsection \<open>Decimal numbers\<close>

definition digit :: "nat \<Rightarrow> char" where
  "digit n = char_of (48 + n)"

fun dec_nat :: "nat \<Rightarrow> string" where
  "dec_nat n = (if n < 10 then [digit n] else dec_nat (n div 10) @ [digit (n mod 10)])"

declare dec_nat.simps [simp del]

definition is_digit :: "char \<Rightarrow> bool" where
  "is_digit c \<longleftrightarrow> 48 \<le> (of_char c :: nat) \<and> (of_char c :: nat) \<le> 57"

definition digit_value :: "char \<Rightarrow> nat" where
  "digit_value c = of_char c - 48"

text \<open>\<^verbatim>\<open>strconv.ParseUint(s, 10, 64)\<close>: a non-empty string of digits whose value fits 64 bits.\<close>

definition dec_value :: "string \<Rightarrow> nat" where
  "dec_value s = foldl (\<lambda>n c. 10 * n + digit_value c) 0 s"

definition ParseUint :: "string \<Rightarrow> u64 option" where
  "ParseUint s =
     (if s = [] \<or> \<not> list_all is_digit s then None
      else if dec_value s < 2 ^ 64 then Some (of_nat (dec_value s)) else None)"

subsection \<open>strings.TrimSpace\<close>

text \<open>On ASCII strings the white space of \<^verbatim>\<open>unicode.IsSpace\<close> is tab, newline, the codes 11 to 13 and the blank.\<close>

definition is_space :: "char \<Rightarrow> bool" where
  "is_space c \<longleftrightarrow> (of_char c :: nat) = 32 \<or> (9 \<le> (of_char c :: nat) \<and> (of_char c :: nat) \<le> 13)"

definition TrimSpace :: "string \<Rightarrow> string" where
  "TrimSpace s = rev (dropWhile is_space (rev (dropWhile is_space s)))"

subsection \<open>FNV-1a\<close>

definition fnv64a_offset :: u64 where "fnv64a_offset = 14695981039346656037"

definition fnv64a_prime :: u64 where "fnv64a_prime = 1099511628211"

definition fnv64a :: "nat list \<Rightarrow> u64" where
  "fnv64a bytes = foldl (\<lambda>h b. (h XOR of_nat b) * fnv64a_prime) fnv64a_offset bytes"

definition string_bytes :: "string \<Rightarrow> nat list" where
  "string_bytes s = map of_char s"

text \<open>\<^verbatim>\<open>binary.LittleEndian.PutUint64\<close>\<close>

definition le_bytes :: "u64 \<Rightarrow> nat list" where
  "le_bytes x = map (\<lambda>i. unat (drop_bit (8 * i) x AND 255)) [0..<8]"

subsection \<open>Scanning for a best element\<close>

text \<open>
  The loop \<^verbatim>\<open>best := xs[0]; for x in xs[1:] { if better(x, best) { best = x } }\<close>.
\<close>

definition scan_best :: "('a \<Rightarrow> 'a \<Rightarrow> bool) \<Rightarrow> 'a \<Rightarrow> 'a list \<Rightarrow> 'a" where
  "scan_best better x xs = foldl (\<lambda>best y. if better y best then y else best) x xs"

subsection \<open>Facts\<close>

lemma search_loop_range: "i \<le> j \<Longrightarrow> i \<le> search_loop f i j \<and> search_loop f i j \<le> j"
proof (induction f i j rule: search_loop.induct)
  case (1 f i j)
  show ?case
  proof (cases "i < j")
    case True
    let ?h = "(i + j) div 2"
    show ?thesis
    proof (cases "f ?h")
      case True
      then have "search_loop f i j = search_loop f i ?h"
        using \<open>i < j\<close> by (subst search_loop.simps) (simp add: Let_def)
      then show ?thesis
        using 1(2)[OF \<open>i < j\<close> refl] True \<open>i < j\<close> by linarith
    next
      case False
      then have "search_loop f i j = search_loop f (?h + 1) j"
        using \<open>i < j\<close> by (subst search_loop.simps) (simp add: Let_def)
      then show ?thesis
        using 1(1)[OF \<open>i < j\<close> refl] False \<open>i < j\<close> by linarith
    qed
  next
    case False
    then show ?thesis
      using "1.prems" by (simp add: search_loop.simps)
  qed
qed

lemma search_loop_least:
  assumes "i \<le> j" and "\<And>a b. f a \<Longrightarrow> a \<le> b \<Longrightarrow> b < n \<Longrightarrow> f b" and "j \<le> n"
    and "\<And>k. k < i \<Longrightarrow> \<not> f k" and "\<And>k. j \<le> k \<Longrightarrow> k < n \<Longrightarrow> f k"
  shows "(\<forall>k < search_loop f i j. \<not> f k) \<and> (\<forall>k. search_loop f i j \<le> k \<longrightarrow> k < n \<longrightarrow> f k)"
  using assms
proof (induction f i j rule: search_loop.induct)
  case (1 f i j)
  let ?h = "(i + j) div 2"
  consider "\<not> i < j" | "i < j" "f ?h" | "i < j" "\<not> f ?h" by blast
  then show ?case
  proof cases
    case 1
    then show ?thesis
      using "1.prems" by (simp add: search_loop.simps)
  next
    case 2
    have eq: "search_loop f i j = search_loop f i ?h"
      using 2 by (subst search_loop.simps) (simp add: Let_def)
    have above: "f k" if "?h \<le> k" "k < n" for k
      by (rule "1.prems"(2)[OF 2(2) that])
    have "?h \<le> n" "i \<le> ?h"
      using 2 "1.prems"(3) by linarith+
    then show ?thesis
      unfolding eq using "1.IH"(2)[OF 2(1) refl] 2(2) "1.prems"(2,4) above by blast
  next
    case 3
    have eq: "search_loop f i j = search_loop f (?h + 1) j"
      using 3 by (subst search_loop.simps) (simp add: Let_def)
    have below: "\<not> f k" if "k < ?h + 1" for k
    proof
      assume "f k"
      moreover have "k \<le> ?h" "?h < n"
        using that "1.prems"(3) 3(1) by linarith+
      ultimately show False
        using "1.prems"(2) 3(2) by blast
    qed
    have "?h + 1 \<le> j"
      using 3 by linarith
    then show ?thesis
      unfolding eq using "1.IH"(1)[OF 3(1) refl] 3(2) "1.prems"(2,3,5) below by blast
  qed
qed

text \<open>For a monotone predicate \<^verbatim>\<open>sort.Search\<close> returns the least index at which it holds, or \<open>n\<close>.\<close>

lemma sort_Search_least:
  assumes "\<forall>a b. f a \<longrightarrow> a \<le> b \<longrightarrow> b < n \<longrightarrow> f b"
  shows "sort_Search n f \<le> n"
    and "k < sort_Search n f \<Longrightarrow> \<not> f k"
    and "sort_Search n f \<le> k \<Longrightarrow> k < n \<Longrightarrow> f k"
  using search_loop_range[of 0 n f] search_loop_least[of 0 n f n] assms
  by (auto simp: sort_Search_def)

lemma digit_value_digit [simp]: "n < 10 \<Longrightarrow> digit_value (digit n) = n"
  by (simp add: digit_value_def digit_def)

lemma is_digit_digit [simp]: "n < 10 \<Longrightarrow> is_digit (digit n)"
  by (simp add: is_digit_def digit_def)

lemma dec_value_snoc: "dec_value (s @ [c]) = 10 * dec_value s + digit_value c"
  by (simp add: dec_value_def)

lemma dec_nat_value: "dec_value (dec_nat n) = n"
proof (induction n rule: dec_nat.induct)
  case (1 n)
  show ?case
  proof (cases "n < 10")
    case True
    then show ?thesis
      by (simp add: dec_nat.simps[of n] dec_value_def)
  next
    case False
    then show ?thesis
      using 1 by (simp add: dec_nat.simps[of n] dec_value_snoc)
  qed
qed

lemma dec_nat_digits: "dec_nat n \<noteq> [] \<and> list_all is_digit (dec_nat n)"
proof (induction n rule: dec_nat.induct)
  case (1 n)
  then show ?case
    by (cases "n < 10") (simp_all add: dec_nat.simps[of n])
qed

text \<open>Printing a 64 bit number and parsing it again gives the number back.\<close>

lemma ParseUint_dec_nat [simp]: "ParseUint (dec_nat (unat (x :: u64))) = Some x"
proof -
  have "unat x < 2 ^ 64"
    using unsigned_less[of x] by simp
  then show ?thesis
    using dec_nat_digits[of "unat x"] by (simp add: ParseUint_def dec_nat_value)
qed

lemma dropWhile_none: "list_all (\<lambda>c. \<not> P c) s \<Longrightarrow> dropWhile P s = s"
  by (cases s) auto

lemma TrimSpace_dec_nat [simp]: "TrimSpace (dec_nat n) = dec_nat n"
proof -
  have "list_all (\<lambda>c. \<not> is_space c) (dec_nat n)"
    using dec_nat_digits[of n] by (auto simp: list_all_iff is_digit_def is_space_def)
  then show ?thesis
    by (simp add: TrimSpace_def dropWhile_none)
qed

text \<open>
  The contract of a comparison that a scan relies on: \<open>better\<close> is a strict weak order, so a scan
  that replaces its candidate only by a better one ends in an element that nothing beats.
\<close>

locale better_order =
  fixes better :: "'a \<Rightarrow> 'a \<Rightarrow> bool"
  assumes better_asym: "better x y \<Longrightarrow> \<not> better y x"
    and better_negtrans: "\<not> better x y \<Longrightarrow> \<not> better y z \<Longrightarrow> \<not> better x z"
begin

lemma scan_in: "scan_best better x xs \<in> set (x # xs)"
  unfolding scan_best_def by (induction xs arbitrary: x) auto

lemma scan_least: "y \<in> set (x # xs) \<Longrightarrow> \<not> better y (scan_best better x xs)"
proof (induction xs arbitrary: x y)
  case Nil
  then show ?case
    using better_asym by (auto simp: scan_best_def)
next
  case (Cons a xs)
  define b where "b = (if better a x then a else x)"
  have step: "scan_best better x (a # xs) = scan_best better b xs"
    by (simp add: scan_best_def b_def)
  have base: "\<not> better b (scan_best better b xs)"
    by (rule Cons.IH) simp
  have "\<not> better a b" "\<not> better x b"
    using better_asym by (auto simp: b_def)
  from this[THEN better_negtrans, OF base] Cons.IH[of y b] Cons.prems
  show ?case
    unfolding step by auto
qed

end

end
