(* ===== verification/Chbl.thy ===== *)
theory Chbl
  imports Go_Lib
begin

text \<open>
  Consistent hashing with bounded loads, \<^verbatim>\<open>src/pkg/chbl/chbl.go\<close>: the hash ring with its virtual
  nodes, the subset of a ring for the healthy nodes, the home of a function, the clockwise successor
  of a node, and the forwarding walk that both the ingress routing policy and the leaf scheduler use.
\<close>

unbundle bit_operations_syntax

subsection \<open>Hashing\<close>

definition mixHash :: "u64 \<Rightarrow> u64" where
  "mixHash x0 =
     (let x1 = x0 XOR drop_bit 33 x0;
          x2 = x1 * 0xff51afd7ed558ccd;
          x3 = x2 XOR drop_bit 33 x2;
          x4 = x3 * 0xc4ceb9fe1a85ec53
      in x4 XOR drop_bit 33 x4)"

definition hashString :: "string \<Rightarrow> u64" where
  "hashString s = mixHash (fnv64a (string_bytes s))"

definition FunctionPosition :: "u64 \<Rightarrow> u64" where
  "FunctionPosition functionID = mixHash (fnv64a (le_bytes functionID))"

subsection \<open>The ring\<close>

definition ringReplicas :: nat where "ringReplicas = 128"

datatype ringNode = RingNode (position: u64) (nodeId: u64)

text \<open>The order in which \<^verbatim>\<open>NewRing\<close> sorts the nodes: by position, then by ID.\<close>

instantiation ringNode :: linorder
begin

definition less_eq_ringNode :: "ringNode \<Rightarrow> ringNode \<Rightarrow> bool" where
  "less_eq_ringNode a b \<longleftrightarrow>
     (if position a = position b then nodeId a \<le> nodeId b else position a < position b)"

definition less_ringNode :: "ringNode \<Rightarrow> ringNode \<Rightarrow> bool" where
  "less_ringNode a b \<longleftrightarrow>
     (if position a = position b then nodeId a < nodeId b else position a < position b)"

instance
proof
  fix x y z :: ringNode
  show "x < y \<longleftrightarrow> x \<le> y \<and> \<not> y \<le> x"
    by (auto simp: less_eq_ringNode_def less_ringNode_def)
  show "x \<le> x"
    by (simp add: less_eq_ringNode_def)
  show "x \<le> y \<Longrightarrow> y \<le> z \<Longrightarrow> x \<le> z"
    by (auto simp: less_eq_ringNode_def split: if_splits)
  show "x \<le> y \<Longrightarrow> y \<le> x \<Longrightarrow> x = y"
    by (cases x; cases y) (auto simp: less_eq_ringNode_def split: if_splits)
  show "x \<le> y \<or> y \<le> x"
    by (auto simp: less_eq_ringNode_def)
qed

end

record Ring =
  nodes :: "ringNode list"
  ids :: "u64 list"
  first :: "(u64, nat) gomap"

definition replica_nodes :: "u64 \<Rightarrow> ringNode list" where
  "replica_nodes uid =
     map (\<lambda>i. RingNode (hashString (dec_nat (unat uid) @ '':'' @ dec_nat i)) uid) [0..<ringReplicas]"

text \<open>The loop that records the index of each ID's first node.\<close>

fun first_loop :: "nat \<Rightarrow> ringNode list \<Rightarrow> (u64, nat) gomap \<Rightarrow> (u64, nat) gomap" where
  "first_loop i [] m = m"
| "first_loop i (n # ns) m =
     first_loop (i + 1) ns (if map_of m (nodeId n) = None then AList.update (nodeId n) i m else m)"

definition NewRing :: "u64 list \<Rightarrow> Ring" where
  "NewRing is =
     (let uniq = sort is;
          ns = sort (concat (map replica_nodes uniq))
      in \<lparr>nodes = ns, ids = uniq, first = first_loop 0 ns []\<rparr>)"

text \<open>
  The second loop of \<^verbatim>\<open>Subset\<close>: it appends the healthy nodes and notes the index at which each ID
  first appears in the new list.
\<close>

fun subset_loop ::
  "(u64 \<Rightarrow> bool) \<Rightarrow> ringNode list \<Rightarrow> ringNode list \<Rightarrow> (u64, nat) gomap \<Rightarrow> ringNode list \<times> (u64, nat) gomap"
where
  "subset_loop healthy [] ns m = (ns, m)"
| "subset_loop healthy (n # rest) ns m =
     (if \<not> healthy (nodeId n) then subset_loop healthy rest ns m
      else subset_loop healthy rest (ns @ [n])
             (if map_of m (nodeId n) = None then AList.update (nodeId n) (length ns) m else m))"

definition Subset :: "Ring \<Rightarrow> (u64 \<Rightarrow> bool) \<Rightarrow> Ring" where
  "Subset h healthy =
     (if length (filter healthy (ids h)) = length (ids h) then h
      else let (ns, m) = subset_loop healthy (nodes h) [] []
           in \<lparr>nodes = ns, ids = filter healthy (ids h), first = m\<rparr>)"

definition Home :: "Ring \<Rightarrow> u64 \<Rightarrow> u64" where
  "Home h functionID =
     (if nodes h = [] then 0
      else let pos = FunctionPosition functionID;
               idx = sort_Search (length (nodes h)) (\<lambda>i. position (nodes h ! i) \<ge> pos)
           in nodeId (nodes h ! (if idx = length (nodes h) then 0 else idx)))"

definition Next :: "Ring \<Rightarrow> u64 \<Rightarrow> u64" where
  "Next h uid =
     (if nodes h = [] then uid
      else case map_of (first h) uid of
        None \<Rightarrow> uid
      | Some idx \<Rightarrow>
          (case find (\<lambda>n. nodeId n \<noteq> uid)
                  (map (\<lambda>i. nodes h ! ((idx + i) mod length (nodes h))) [1..<length (nodes h) + 1]) of
             None \<Rightarrow> uid
           | Some n \<Rightarrow> nodeId n))"

subsection \<open>Forwarding\<close>

datatype Reason = ReasonHome | ReasonForwarded | ReasonLeastLoaded

definition DefaultBound :: float64 where "DefaultBound = 1"

definition DefaultMaxChainLen :: int where "DefaultMaxChainLen = 3"

definition NormalizeBound :: "float64 \<Rightarrow> float64" where
  "NormalizeBound bound = (if bound \<le> 0 then DefaultBound else bound)"

definition NormalizeMaxChainLen :: "int \<Rightarrow> int" where
  "NormalizeMaxChainLen maxChainLen = (if maxChainLen \<le> 0 then DefaultMaxChainLen else maxChainLen)"

text \<open>The comparison of \<^verbatim>\<open>LeastLoaded\<close>: lower load first, then lower ID.\<close>

definition lighter :: "(u64 \<Rightarrow> float64) \<Rightarrow> u64 \<Rightarrow> u64 \<Rightarrow> bool" where
  "lighter load x best \<longleftrightarrow> load x < load best \<or> (load x = load best \<and> x < best)"

fun LeastLoadedBy :: "u64 list \<Rightarrow> (u64 \<Rightarrow> float64) \<Rightarrow> u64" where
  "LeastLoadedBy [] load = 0"
| "LeastLoadedBy (x # xs) load = scan_best (lighter load) x xs"

text \<open>A load map yields 0 for a missing key.\<close>

definition load_of :: "(u64, float64) gomap \<Rightarrow> u64 \<Rightarrow> float64" where
  "load_of loads uid = (case map_of loads uid of None \<Rightarrow> 0 | Some l \<Rightarrow> l)"

text \<open>The loop of \<^verbatim>\<open>LeastLoaded\<close> over a map keeps the best ID and its load.\<close>

fun least_loop :: "(u64, float64) gomap \<Rightarrow> u64 \<Rightarrow> float64 \<Rightarrow> u64 list \<Rightarrow> u64" where
  "least_loop loads best bestLoad [] = best"
| "least_loop loads best bestLoad (i # is) =
     (let load = load_of loads i in
      if load < bestLoad \<or> (load = bestLoad \<and> i < best) then least_loop loads i load is
      else least_loop loads best bestLoad is)"

definition LeastLoaded :: "u64 list \<Rightarrow> (u64, float64) gomap \<Rightarrow> u64" where
  "LeastLoaded is loads = (case is of [] \<Rightarrow> 0 | i # rest \<Rightarrow> least_loop loads i (load_of loads i) rest)"

text \<open>
  The loop \<^verbatim>\<open>for step := 0; step <= maxChainLen; step++\<close>; the first argument counts the iterations
  left, and \<^const>\<open>None\<close> is a loop that ran to its end.
\<close>

fun walk :: "nat \<Rightarrow> Ring \<Rightarrow> (u64 \<Rightarrow> float64) \<Rightarrow> float64 \<Rightarrow> nat \<Rightarrow> u64 \<Rightarrow> (u64 \<times> Reason) option" where
  "walk 0 ring load bound step uid = None"
| "walk (Suc left) ring load bound step uid =
     (if load uid < bound
      then Some (uid, if step = 0 then ReasonHome else ReasonForwarded)
      else walk left ring load bound (step + 1) (Next ring uid))"

text \<open>
  \<^verbatim>\<open>LoadReader\<close> with its optional extension \<^verbatim>\<open>LeastLoadedScanner\<close>: \<open>LeastLoadedID\<close> is \<^const>\<open>None\<close>
  when the reader does not implement the scanner.  A nil ring is \<^const>\<open>None\<close>.
\<close>

record LoadReader =
  Load :: "u64 \<Rightarrow> float64"
  LeastLoadedID :: "u64 option"

definition ForwardBy :: "Ring option \<Rightarrow> LoadReader \<Rightarrow> float64 \<Rightarrow> int \<Rightarrow> u64 \<Rightarrow> u64 \<times> Reason" where
  "ForwardBy ring loads bound maxChainLen home =
     (case ring of None \<Rightarrow> (home, ReasonHome)
      | Some r \<Rightarrow>
          if ids r = [] then (home, ReasonHome)
          else case walk (nat (NormalizeMaxChainLen maxChainLen + 1)) r (Load loads) (NormalizeBound bound) 0 home of
            Some result \<Rightarrow> result
          | None \<Rightarrow>
              (case LeastLoadedID loads of
                 Some best \<Rightarrow> (best, ReasonLeastLoaded)
               | None \<Rightarrow> (LeastLoadedBy (ids r) (Load loads), ReasonLeastLoaded)))"

text \<open>\<^verbatim>\<open>Forward\<close> has a loop of its own, which reads the map.\<close>

fun forward_loop :: "nat \<Rightarrow> Ring \<Rightarrow> (u64, float64) gomap \<Rightarrow> float64 \<Rightarrow> nat \<Rightarrow> u64 \<Rightarrow> (u64 \<times> Reason) option" where
  "forward_loop 0 ring loads bound step uid = None"
| "forward_loop (Suc left) ring loads bound step uid =
     (if load_of loads uid < bound
      then if step = 0 then Some (uid, ReasonHome) else Some (uid, ReasonForwarded)
      else forward_loop left ring loads bound (step + 1) (Next ring uid))"

definition Forward ::
  "Ring option \<Rightarrow> (u64, float64) gomap \<Rightarrow> float64 \<Rightarrow> int \<Rightarrow> u64 \<Rightarrow> u64 \<times> Reason" where
  "Forward ring loads bound maxChainLen home =
     (case ring of None \<Rightarrow> (home, ReasonHome)
      | Some r \<Rightarrow>
          if ids r = [] then (home, ReasonHome)
          else case forward_loop (nat (NormalizeMaxChainLen maxChainLen + 1)) r loads (NormalizeBound bound) 0 home of
            Some result \<Rightarrow> result
          | None \<Rightarrow> (LeastLoaded (ids r) loads, ReasonLeastLoaded))"

subsection \<open>Scanning for the least loaded node\<close>

interpretation ll: better_order "lighter load" for load
  by unfold_locales (auto simp: lighter_def)

lemma LeastLoadedBy_in: "us \<noteq> [] \<Longrightarrow> LeastLoadedBy us load \<in> set us"
  by (cases "us") (use ll.scan_in in auto)

lemma LeastLoadedBy_least:
  assumes "x \<in> set us"
  shows "load (LeastLoadedBy us load) < load x \<or>
    load (LeastLoadedBy us load) = load x \<and> LeastLoadedBy us load \<le> x"
proof (cases "us")
  case (Cons y ys)
  then show ?thesis
    using ll.scan_least[of x y ys load] assms by (auto simp: lighter_def)
qed (use assms in simp)

text \<open>The two copies of each loop agree.\<close>

lemma least_loop_scan: "least_loop loads b (load_of loads b) us = scan_best (lighter (load_of loads)) b us"
proof (induction us arbitrary: b)
  case (Cons u us)
  then show ?case
    by (cases "lighter (load_of loads) u b") (auto simp: scan_best_def lighter_def Let_def)
qed (simp add: scan_best_def)

lemma LeastLoaded_By: "LeastLoaded us loads = LeastLoadedBy us (load_of loads)"
  by (cases us) (simp_all add: LeastLoaded_def least_loop_scan)

lemma forward_loop_walk: "forward_loop left r loads b step uid = walk left r (load_of loads) b step uid"
  by (induction left arbitrary: step uid) simp_all

subsection \<open>The ring invariant\<close>

text \<open>
  A well-formed ring: nodes and IDs are sorted, every ID owns a node and every node belongs to an ID,
  and the table of first indices is exact.
\<close>

definition first_exact :: "ringNode list \<Rightarrow> (u64, nat) gomap \<Rightarrow> bool" where
  "first_exact ns m \<longleftrightarrow>
     (\<forall>u i. map_of m u = Some i \<longleftrightarrow>
        i < length ns \<and> nodeId (ns ! i) = u \<and> (\<forall>j < i. nodeId (ns ! j) \<noteq> u))"

definition ring_wf :: "Ring \<Rightarrow> bool" where
  "ring_wf r \<longleftrightarrow>
     sorted (nodes r) \<and> sorted (ids r) \<and> nodeId ` set (nodes r) = set (ids r) \<and>
     first_exact (nodes r) (first r)"

lemma first_exact_fresh:
  assumes "first_exact ns m" "map_of m u = None" "j < length ns"
  shows "nodeId (ns ! j) \<noteq> u"
  using assms(3)
proof (induction j rule: less_induct)
  case (less j)
  show ?case
  proof
    assume "nodeId (ns ! j) = u"
    moreover have "\<forall>k < j. nodeId (ns ! k) \<noteq> u"
      using less by auto
    ultimately have "map_of m u = Some j"
      using assms(1) less.prems unfolding first_exact_def by blast
    with assms(2) show False
      by simp
  qed
qed

lemma first_exact_snoc:
  assumes "first_exact ns m"
  shows "first_exact (ns @ [n]) (if map_of m (nodeId n) = None then AList.update (nodeId n) (length ns) m else m)"
    (is "first_exact _ ?m'")
  unfolding first_exact_def
proof (intro allI)
  fix u i
  let ?at = "\<lambda>i. i < length (ns @ [n]) \<and> nodeId ((ns @ [n]) ! i) = u \<and> (\<forall>j < i. nodeId ((ns @ [n]) ! j) \<noteq> u)"
  have old: "map_of m u = Some i \<longleftrightarrow>
      i < length ns \<and> nodeId (ns ! i) = u \<and> (\<forall>j < i. nodeId (ns ! j) \<noteq> u)" for i
    using assms unfolding first_exact_def by blast
  have below: "i < length ns \<Longrightarrow> ?at i \<longleftrightarrow> map_of m u = Some i" for i
    unfolding old by (auto simp: nth_append)
  have last: "?at (length ns) \<longleftrightarrow> u = nodeId n \<and> map_of m u = None"
  proof (cases "map_of m u")
    case None
    then show ?thesis
      using first_exact_fresh[OF assms None] by (auto simp: nth_append)
  next
    case (Some k)
    then show ?thesis
      using old[of k] by (auto simp: nth_append)
  qed
  show "map_of ?m' u = Some i \<longleftrightarrow> ?at i"
  proof (cases "i < length ns")
    case True
    then show ?thesis
      using below[OF True] old[of i] first_exact_fresh[OF assms, of u i]
      by (auto simp: go_map_simps)
  next
    case False
    then show ?thesis
      using last old[of i] by (cases "i = length ns") (auto simp: go_map_simps)
  qed
qed

lemma first_loop_exact:
  "first_exact pre m \<Longrightarrow> first_exact (pre @ ns) (first_loop (length pre) ns m)"
proof (induction ns arbitrary: pre m)
  case (Cons n ns)
  show ?case
    using Cons.IH[OF first_exact_snoc[OF Cons.prems, of n]] by simp
qed simp

lemma replica_nodes_ids [simp]: "n \<in> set (replica_nodes uid) \<Longrightarrow> nodeId n = uid"
  by (auto simp: replica_nodes_def)

lemma replica_nodes_nonempty [simp]: "replica_nodes uid \<noteq> []"
  by (simp add: replica_nodes_def ringReplicas_def)

lemma replica_ids_image: "(\<lambda>n. uid) ` set (replica_nodes uid) = {uid}"
  by (simp add: image_constant_conv)

lemma ring_wf_NewRing: "ring_wf (NewRing is)"
proof -
  have "first_exact [] []"
    by (simp add: first_exact_def)
  from first_loop_exact[OF this] show ?thesis
    by (simp add: ring_wf_def NewRing_def Let_def image_UN replica_ids_image)
qed

subsection \<open>Subset\<close>

lemma subset_loop_filter:
  "subset_loop healthy ns acc m =
     (acc @ filter (healthy \<circ> nodeId) ns, first_loop (length acc) (filter (healthy \<circ> nodeId) ns) m)"
  by (induction ns arbitrary: acc m) auto

lemma filter_replica_nodes:
  "filter (healthy \<circ> nodeId) (concat (map replica_nodes xs)) = concat (map replica_nodes (filter healthy xs))"
proof (induction xs)
  case (Cons x xs)
  have "filter (healthy \<circ> nodeId) (replica_nodes x) = (if healthy x then replica_nodes x else [])"
    by (auto simp: filter_id_conv filter_empty_conv dest: replica_nodes_ids)
  with Cons show ?case
    by simp
qed simp

lemma filter_all_if_length: "length (filter P xs) = length xs \<Longrightarrow> filter P xs = xs"
  by (induction xs) (auto, metis Suc_n_not_le_n length_filter_le)

lemma Subset_NewRing_aux: "Subset (NewRing is) healthy = NewRing (filter healthy is)"
proof (cases "length (filter healthy (sort is)) = length (sort is)")
  case True
  then have "\<forall>x \<in> set is. healthy x"
    using filter_all_if_length[OF True] by (metis filter_id_conv set_sort)
  then have "filter healthy is = is"
    by (simp add: filter_id_conv)
  with True show ?thesis
    by (simp add: Subset_def NewRing_def Let_def)
next
  case False
  then show ?thesis
    by (simp add: Subset_def NewRing_def Let_def subset_loop_filter filter_sort filter_replica_nodes)
qed

subsection \<open>Home and successor\<close>

lemma ring_wf_ids: "ring_wf r \<Longrightarrow> n \<in> set (nodes r) \<Longrightarrow> nodeId n \<in> set (ids r)"
  unfolding ring_wf_def by blast

lemma ring_wf_position_mono:
  "ring_wf r \<Longrightarrow> i \<le> j \<Longrightarrow> j < length (nodes r) \<Longrightarrow> nodes r ! i \<le> nodes r ! j"
  by (simp add: ring_wf_def sorted_nth_mono)

lemma node_le_position: "(a :: ringNode) \<le> b \<Longrightarrow> position a \<le> position b"
  by (auto simp: less_eq_ringNode_def split: if_splits)

lemma Home_cases:
  assumes "ring_wf r" "nodes r \<noteq> []"
  obtains i where "i < length (nodes r)" "Home r f = nodeId (nodes r ! i)"
    "FunctionPosition f \<le> position (nodes r ! i)"
    "\<And>k. k < i \<Longrightarrow> position (nodes r ! k) < FunctionPosition f"
  | "Home r f = nodeId (nodes r ! 0)"
    "\<And>k. k < length (nodes r) \<Longrightarrow> position (nodes r ! k) < FunctionPosition f"
proof -
  let ?n = "length (nodes r)" and ?P = "\<lambda>i. FunctionPosition f \<le> position (nodes r ! i)"
  have mono: "\<forall>a b. ?P a \<longrightarrow> a \<le> b \<longrightarrow> b < ?n \<longrightarrow> ?P b"
    using ring_wf_position_mono[OF assms(1)] node_le_position order.trans by blast
  note srch = sort_Search_least[OF mono]
  show thesis
  proof (cases "sort_Search ?n ?P = ?n")
    case True
    then show thesis
      using that(2) srch(2) assms(2) by (simp add: Home_def Let_def not_le)
  next
    case False
    with srch(1) have "sort_Search ?n ?P < ?n"
      by (simp add: order.not_eq_order_implies_strict)
    with srch(2,3) False show thesis
      using assms(2) by (intro that(1)[of "sort_Search ?n ?P"]) (simp_all add: Home_def Let_def not_le)
  qed
qed

lemma Next_cases:
  assumes "ring_wf r" "uid \<in> set (ids r)" "v \<in> set (ids r)" "v \<noteq> uid"
  obtains i k where "map_of (first r) uid = Some i" "0 < k" "k \<le> length (nodes r)"
    "Next r uid = nodeId (nodes r ! ((i + k) mod length (nodes r)))" "Next r uid \<noteq> uid"
    "\<And>j. j < k \<Longrightarrow> nodeId (nodes r ! ((i + j) mod length (nodes r))) = uid"
proof -
  let ?n = "length (nodes r)"
  have ne: "nodes r \<noteq> []" and vn: "v \<in> nodeId ` set (nodes r)" and un: "uid \<in> nodeId ` set (nodes r)"
    using assms by (auto simp: ring_wf_def)
  have exact: "first_exact (nodes r) (first r)"
    using assms(1) by (simp add: ring_wf_def)
  obtain i where i: "map_of (first r) uid = Some i"
    using first_exact_fresh[OF exact] un by (metis (no_types, lifting) imageE in_set_conv_nth option.exhaust)
  then have ilt: "i < ?n" "nodeId (nodes r ! i) = uid"
    using exact unfolding first_exact_def by blast+
  obtain p where p: "p < ?n" "nodeId (nodes r ! p) = v"
    using vn by (auto simp: in_set_conv_nth)
  have "i \<noteq> p"
    using p(2) ilt(2) assms(4) by auto
  define d where "d = (if i \<le> p then p - i else p + ?n - i)"
  have d: "(i + d) mod ?n = p" "0 < d" "d < ?n + 1"
    using p(1) ilt(1) \<open>i \<noteq> p\<close> by (auto simp: d_def)
  define xs where "xs = map (\<lambda>k. nodes r ! ((i + k) mod ?n)) [1..<?n + 1]"
  have len: "length xs = ?n"
    by (simp add: xs_def del: upt_Suc)
  have at: "xs ! j = nodes r ! ((i + Suc j) mod ?n)" if "j < ?n" for j
    using that by (simp add: xs_def nth_upt del: upt_Suc)
  have "nodes r ! p = xs ! (d - 1)"
    using d at[of "d - 1"] by simp
  then have "nodes r ! p \<in> set xs"
    using d len by (simp add: nth_mem)
  then have "find (\<lambda>n. nodeId n \<noteq> uid) xs \<noteq> None"
    using p(2) assms(4) by (auto simp: find_None_iff)
  then obtain n where n: "find (\<lambda>n. nodeId n \<noteq> uid) xs = Some n"
    by blast
  then obtain k where k: "k < ?n" "nodeId (xs ! k) \<noteq> uid" "n = xs ! k" "\<forall>j < k. nodeId (xs ! j) = uid"
    using len by (auto simp: find_Some_iff)
  have nx: "Next r uid = nodeId n"
    using ne i n by (simp add: Next_def xs_def del: upt_Suc)
  show thesis
  proof (rule that[OF i, of "Suc k"])
    fix j
    assume "j < Suc k"
    show "nodeId (nodes r ! ((i + j) mod ?n)) = uid"
    proof (cases j)
      case (Suc j')
      then show ?thesis
        using k \<open>j < Suc k\<close> at[of j'] by auto
    qed (use ilt in simp)
  qed (use k at[of k] nx in auto)
qed

lemma Next_in: "ring_wf r \<Longrightarrow> uid \<in> set (ids r) \<Longrightarrow> Next r uid \<in> set (ids r)"
proof (cases "\<exists>v \<in> set (ids r). v \<noteq> uid")
  case True
  assume a: "ring_wf r" "uid \<in> set (ids r)"
  from True obtain v where "v \<in> set (ids r)" "v \<noteq> uid"
    by blast
  with a show ?thesis
  proof (cases rule: Next_cases)
    case (1 i k)
    have "nodes r \<noteq> []"
      using a by (auto simp: ring_wf_def)
    then have "nodes r ! ((i + k) mod length (nodes r)) \<in> set (nodes r)"
      by simp
    then show ?thesis
      using 1(4) ring_wf_ids[OF a(1)] by simp
  qed
next
  case False
  assume a: "ring_wf r" "uid \<in> set (ids r)"
  then have all: "n \<in> set (nodes r) \<Longrightarrow> nodeId n = uid" for n
    using False ring_wf_ids[OF a(1)] by blast
  have "find (\<lambda>n. nodeId n \<noteq> uid) (map (\<lambda>k. nodes r ! ((i + k) mod length (nodes r))) ks) = None"
    if "nodes r \<noteq> []" for i ks
    using that by (simp add: find_None_iff all)
  then have "Next r uid = uid"
    by (simp add: Next_def split: option.split)
  with a show ?thesis
    by simp
qed

lemma Next_iter_in: "ring_wf r \<Longrightarrow> uid \<in> set (ids r) \<Longrightarrow> (Next r ^^ k) uid \<in> set (ids r)"
  by (induction k) (auto intro: Next_in)

lemma ids_NewRing [simp]: "set (ids (NewRing is)) = set is"
  by (simp add: NewRing_def Let_def)

lemma ids_NewRing_Nil [simp]: "ids (NewRing is) = [] \<longleftrightarrow> is = []"
  using ids_NewRing[of "is"] by (metis set_empty)

subsection \<open>The forwarding walk\<close>

lemma walk_None_iff:
  "walk left r load b step uid = None \<longleftrightarrow> (\<forall>k < left. b \<le> load ((Next r ^^ k) uid))"
proof (induction left arbitrary: step uid)
  case (Suc left)
  show ?case
    using Suc[of "step + 1" "Next r uid"]
    by (auto simp: less_Suc_eq_0_disj funpow_swap1)
qed simp

lemma walk_Some:
  "walk left r load b step uid = Some (target, reason) \<Longrightarrow>
     \<exists>k < left. target = (Next r ^^ k) uid \<and> load target < b \<and>
       (\<forall>j < k. b \<le> load ((Next r ^^ j) uid)) \<and>
       reason = (if step + k = 0 then ReasonHome else ReasonForwarded)"
proof (induction left arbitrary: step uid)
  case (Suc left)
  show ?case
  proof (cases "load uid < b")
    case True
    then show ?thesis
      using Suc.prems by (intro exI[of _ 0]) auto
  next
    case False
    with Suc.prems have "walk left r load b (step + 1) (Next r uid) = Some (target, reason)"
      by simp
    from Suc.IH[OF this] obtain k where k: "k < left" "target = (Next r ^^ k) (Next r uid)" "load target < b"
      "\<forall>j < k. b \<le> load ((Next r ^^ j) (Next r uid))" "reason = ReasonForwarded"
      by auto
    then show ?thesis
      using False by (intro exI[of _ "Suc k"]) (auto simp: less_Suc_eq_0_disj funpow_swap1)
  qed
qed simp

subsection \<open>Specification of the home node\<close>

text \<open>
  Walking clockwise from position \<open>p\<close>, node \<open>n\<close> comes no later than node \<open>m\<close>: nodes at or after \<open>p\<close>
  come first, the others follow after the wrap.
\<close>

definition clockwise_le :: "u64 \<Rightarrow> ringNode \<Rightarrow> ringNode \<Rightarrow> bool" where
  "clockwise_le p n m \<longleftrightarrow>
     (p \<le> position n \<and> \<not> p \<le> position m) \<or> ((p \<le> position n \<longleftrightarrow> p \<le> position m) \<and> n \<le> m)"

definition clockwise_first :: "u64 \<Rightarrow> ringNode set \<Rightarrow> ringNode \<Rightarrow> bool" where
  "clockwise_first p N n \<longleftrightarrow> n \<in> N \<and> (\<forall>m \<in> N. clockwise_le p n m)"

lemma clockwise_first_unique: "clockwise_first p N n \<Longrightarrow> clockwise_first p N m \<Longrightarrow> n = m"
  unfolding clockwise_first_def clockwise_le_def by (metis order_antisym)

lemma clockwise_first_subset: "clockwise_first p N n \<Longrightarrow> n \<in> M \<Longrightarrow> M \<subseteq> N \<Longrightarrow> clockwise_first p M n"
  unfolding clockwise_first_def by blast

lemma Home_first:
  assumes "ring_wf r" "nodes r \<noteq> []"
  shows "\<exists>n. clockwise_first (FunctionPosition f) (set (nodes r)) n \<and> Home r f = nodeId n"
  using assms
proof (cases rule: Home_cases[where f = f])
  case (1 i)
  have "clockwise_le (FunctionPosition f) (nodes r ! i) (nodes r ! k)" if "k < length (nodes r)" for k
    using 1(3) 1(4)[of k] ring_wf_position_mono[OF assms(1), of i k] that
    by (cases "k < i") (auto simp: clockwise_le_def not_le)
  then show ?thesis
    using 1(1,2) by (intro exI[of _ "nodes r ! i"]) (auto simp: clockwise_first_def in_set_conv_nth)
next
  case 2
  have "clockwise_le (FunctionPosition f) (nodes r ! 0) (nodes r ! k)" if "k < length (nodes r)" for k
    using 2(2)[of 0] 2(2)[of k] ring_wf_position_mono[OF assms(1), of 0 k] that assms(2)
    by (auto simp: clockwise_le_def not_le)
  then show ?thesis
    using 2(1) assms(2) by (intro exI[of _ "nodes r ! 0"]) (auto simp: clockwise_first_def in_set_conv_nth)
qed

lemma nodes_NewRing_Nil [simp]: "nodes (NewRing is) = [] \<longleftrightarrow> is = []"
proof -
  have "nodeId ` set (nodes (NewRing is)) = set is"
    using ring_wf_NewRing[of "is"] by (simp add: ring_wf_def)
  then show ?thesis
    by (metis image_is_empty set_empty)
qed

lemma set_nodes_NewRing: "set (nodes (NewRing is)) = (\<Union>i \<in> set is. set (replica_nodes i))"
  by (simp add: NewRing_def Let_def)

lemma Home_in: "is \<noteq> [] \<Longrightarrow> Home (NewRing is) f \<in> set is"
  using Home_first[of "NewRing is" f] ring_wf_ids[of "NewRing is"]
  by (auto simp: ring_wf_NewRing clockwise_first_def)

subsection \<open>Properties\<close>

text \<open>
  Property C10.  Filtering the precomputed ring for the healthy IDs gives exactly the ring that
  \<^verbatim>\<open>NewRing\<close> builds from the healthy IDs alone: the same sorted nodes, the same IDs and the same table
  of first indices, whichever IDs are healthy.
\<close>

theorem Subset_rebuilds: "Subset (NewRing is) healthy = NewRing (filter healthy is)"
  by (rule Subset_NewRing_aux)

text \<open>
  Property C11.  The binary search of \<^verbatim>\<open>Home\<close> finds the owner of the first virtual node clockwise from the
  function's ring position, the wrap past the largest position included.
\<close>

theorem Home_clockwise:
  assumes "is \<noteq> []"
  shows "\<exists>n. clockwise_first (FunctionPosition f) (set (nodes (NewRing is))) n \<and>
    Home (NewRing is) f = nodeId n \<and> Home (NewRing is) f \<in> set is"
  using Home_first[of "NewRing is" f] Home_in[OF assms] assms by (simp add: ring_wf_NewRing)

theorem Home_clockwise_witness:
  "\<exists>n. clockwise_first (FunctionPosition 7) (set (nodes (NewRing [3, 1, 2]))) n \<and>
    Home (NewRing [3, 1, 2]) 7 = nodeId n \<and> Home (NewRing [3, 1, 2]) 7 \<in> set [3, 1, 2]"
  using Home_clockwise[of "[3, 1, 2]" 7] by simp

text \<open>
  Property C12.  Consistent hashing moves as little as it can: when IDs leave the ring, every function
  whose home stays keeps its home.
\<close>

theorem Home_minimal_disruption:
  assumes "is \<noteq> []" "healthy (Home (NewRing is) f)"
  shows "Home (Subset (NewRing is) healthy) f = Home (NewRing is) f"
proof -
  let ?p = "FunctionPosition f" and ?all = "NewRing is" and ?sub = "NewRing (filter healthy is)"
  obtain n where n: "clockwise_first ?p (set (nodes ?all)) n" "Home ?all f = nodeId n"
    using Home_first[of ?all f] assms(1) by (auto simp: ring_wf_NewRing)
  have "Home ?all f \<in> set (filter healthy is)"
    using Home_in[OF assms(1)] assms(2) by simp
  then have "filter healthy is \<noteq> []"
    by (metis empty_iff empty_set)
  then obtain m where m: "clockwise_first ?p (set (nodes ?sub)) m" "Home ?sub f = nodeId m"
    using Home_first[of ?sub f] by (auto simp: ring_wf_NewRing)
  have "n \<in> set (nodes ?sub)"
    using n assms(2) by (auto simp: clockwise_first_def set_nodes_NewRing)
  moreover have "set (nodes ?sub) \<subseteq> set (nodes ?all)"
    by (auto simp: set_nodes_NewRing)
  ultimately have "n = m"
    using clockwise_first_unique[OF clockwise_first_subset[OF n(1)] m(1)] by blast
  then show ?thesis
    using n(2) m(2) by (simp add: Subset_NewRing_aux)
qed

theorem Home_minimal_disruption_witness:
  "Home (Subset (NewRing [1, 2, 3]) (\<lambda>u. u = Home (NewRing [1, 2, 3]) 9)) 9 = Home (NewRing [1, 2, 3]) 9"
  using Home_minimal_disruption[of "[1, 2, 3]" "\<lambda>u. u = Home (NewRing [1, 2, 3]) 9" 9] by simp

text \<open>
  Property C13.  What the forwarding walk decides, for each reason it reports.  \<open>ReasonHome\<close>: the home
  is below the bound.  \<open>ReasonForwarded\<close>: the target is the first of the home's successors, among at most
  \<open>maxChainLen\<close>, that is below the bound, and it was reached because all before it were not.
  \<open>ReasonLeastLoaded\<close>: home and all those successors are at or above the bound, and the target has the
  least load of the ring, the lowest ID breaking ties.
\<close>

theorem Forward_decision:
  assumes "is \<noteq> []" "Forward (Some (NewRing is)) loads bound maxChainLen home = (target, reason)"
  shows "case reason of
      ReasonHome \<Rightarrow> target = home \<and> load_of loads home < NormalizeBound bound
    | ReasonForwarded \<Rightarrow>
        \<exists>k. 1 \<le> k \<and> int k \<le> NormalizeMaxChainLen maxChainLen \<and> target = (Next (NewRing is) ^^ k) home \<and>
          load_of loads target < NormalizeBound bound \<and>
          (\<forall>j < k. NormalizeBound bound \<le> load_of loads ((Next (NewRing is) ^^ j) home))
    | ReasonLeastLoaded \<Rightarrow>
        (\<forall>j. int j \<le> NormalizeMaxChainLen maxChainLen \<longrightarrow>
           NormalizeBound bound \<le> load_of loads ((Next (NewRing is) ^^ j) home)) \<and>
        target \<in> set is \<and>
        (\<forall>x \<in> set is. load_of loads target < load_of loads x \<or>
           load_of loads target = load_of loads x \<and> target \<le> x)"
proof (cases "walk (nat (NormalizeMaxChainLen maxChainLen + 1)) (NewRing is) (load_of loads) (NormalizeBound bound) 0 home")
  case None
  then have res: "target = LeastLoadedBy (ids (NewRing is)) (load_of loads)" "reason = ReasonLeastLoaded"
    using assms by (auto simp: Forward_def LeastLoaded_By forward_loop_walk)
  have "ids (NewRing is) \<noteq> []"
    using assms(1) by simp
  from LeastLoadedBy_in[OF this] LeastLoadedBy_least[where us = "ids (NewRing is)" and load = "load_of loads"] None
  show ?thesis
    unfolding res walk_None_iff by (auto simp: zless_nat_eq_int_zless)
next
  case (Some result)
  then have "walk (nat (NormalizeMaxChainLen maxChainLen + 1)) (NewRing is) (load_of loads) (NormalizeBound bound) 0 home
      = Some (target, reason)"
    using assms by (simp add: Forward_def forward_loop_walk)
  from walk_Some[OF this] obtain k where
    k: "k < nat (NormalizeMaxChainLen maxChainLen + 1)" "target = (Next (NewRing is) ^^ k) home"
    "load_of loads target < NormalizeBound bound"
    "\<forall>j < k. NormalizeBound bound \<le> load_of loads ((Next (NewRing is) ^^ j) home)"
    "reason = (if 0 + k = 0 then ReasonHome else ReasonForwarded)"
    by blast
  have "int k \<le> NormalizeMaxChainLen maxChainLen"
    using k(1) by linarith
  with k(2-) show ?thesis
    by (cases "k = 0") (auto simp: Suc_le_eq)
qed

theorem Forward_decision_witness:
  "Forward (Some (NewRing [1, 2])) [(1, 2), (2, 1 / 2)] 0 0 2 = (2, ReasonHome) \<and>
   load_of [(1, 2), (2, 1 / 2)] 2 < NormalizeBound 0"
proof -
  have run: "Forward (Some (NewRing [1, 2])) [(1, 2), (2, 1 / 2)] 0 0 2 = (2, ReasonHome)"
    by (simp add: Forward_def NormalizeBound_def NormalizeMaxChainLen_def DefaultBound_def
        DefaultMaxChainLen_def load_of_def numeral_eq_Suc)
  then show ?thesis
    using Forward_decision[OF _ run] by simp
qed

text \<open>
  Property C14.  The two copies of the decision agree: \<^verbatim>\<open>Forward\<close> on a load map returns what
  \<^verbatim>\<open>ForwardBy\<close> returns on a reader of the same loads, provided that the reader's own scanner, if it has
  one, keeps its contract to return the same ID as \<^verbatim>\<open>LeastLoadedBy(ring.IDs(), r)\<close>.
\<close>

theorem Forward_ForwardBy:
  assumes "Load reader = load_of loads"
    and "case LeastLoadedID reader of None \<Rightarrow> True | Some best \<Rightarrow> best = LeastLoadedBy (ids r) (Load reader)"
  shows "ForwardBy (Some r) reader bound maxChainLen home = Forward (Some r) loads bound maxChainLen home"
  using assms by (simp add: ForwardBy_def Forward_def LeastLoaded_By forward_loop_walk split: option.splits)

theorem Forward_ForwardBy_witness:
  "ForwardBy (Some (NewRing [4, 5])) \<lparr>Load = load_of [(4, 3), (5, 2)], LeastLoadedID = Some 5\<rparr> 1 2 4 =
   Forward (Some (NewRing [4, 5])) [(4, 3), (5, 2)] 1 2 4"
proof -
  have "ids (NewRing [4, 5]) = [4, 5]"
    by (simp add: NewRing_def Let_def)
  then show ?thesis
    using Forward_ForwardBy[of "\<lparr>Load = load_of [(4, 3), (5, 2)], LeastLoadedID = Some 5\<rparr>" "[(4, 3), (5, 2)]"
        "NewRing [4, 5]" 1 2 4]
    by (simp add: scan_best_def lighter_def load_of_def)
qed

end
