(* ===== verification/Sandbox_Pool.thy ===== *)
theory Sandbox_Pool
  imports Go_Lib
begin

text \<open>
  The sandbox pool of a function on a leaf, \<^verbatim>\<open>src/pkg/leaf/dataplane/pool.go\<close>: which sandboxes accept
  requests, how many requests each one runs, and the queue of requests that wait for a slot.

  The pool lives behind pointers: a \<^verbatim>\<open>*pooledSandbox\<close> is an index into the list \<open>heap\<close>, a
  \<^verbatim>\<open>*waiter\<close> an index into the list \<open>waiters\<close>.  Allocation appends, so a pointer that a lease still
  holds stays valid after the pool has forgotten the sandbox.  \<^verbatim>\<open>sandbox.ready\<close> and
  \<^verbatim>\<open>w.elem\<close> are the flags \<open>ready_elem\<close> and \<open>elem\<close> (the pointer is not nil); the channel \<^verbatim>\<open>drained\<close> is
  \<^const>\<open>None\<close> when nil and otherwise tells whether it is closed; the channel \<^verbatim>\<open>w.result\<close>, of capacity
  one, is its content.

  Every operation is what the code does while it holds the mutex, so an operation is one step.  Its
  arguments \<open>now\<close> and \<open>err\<close> are the clock and the state of the request contexts at that moment.
  \<^verbatim>\<open>Acquire\<close> and \<^verbatim>\<open>Drain\<close> block without the mutex; each is split where it blocks.
\<close>

subsection \<open>State\<close>

record Sandbox =
  InstanceID :: u64
  WorkerID :: u64
  Address :: string
  Protocol :: string

record pooledSandbox =
  target :: Sandbox
  inFlight :: int
  ready_elem :: bool
  draining :: bool
  drained :: "bool option"

datatype pool_error = ErrQueueFull | ErrPoolClosed | ErrNoSandbox | ErrContext

datatype acquireResult = Granted nat | Refused pool_error

record waiter =
  wctx :: nat
  result :: "acquireResult option"
  elem :: bool

record SandboxPool =
  limit :: int
  queueDepth :: int
  sandboxes :: "(u64, nat) gomap"
  ready :: "nat list"
  pending :: "nat list"
  active :: int
  executing :: int
  closed :: bool
  queueHead :: "int option"
  demandWake :: "bool option"
  accepted :: int
  completed :: int
  highWater :: int
  lastActivity :: int
  heap :: "pooledSandbox list"
  waiters :: "waiter list"

datatype pool_panic = ReleaseWithoutLease | CloseOfClosedChannel

definition DefaultSandboxConcurrency :: int where "DefaultSandboxConcurrency = 200"

definition DefaultQueueDepth :: int where "DefaultQueueDepth = 10000"

definition normalizeLimit :: "int \<Rightarrow> int" where
  "normalizeLimit l = (if l \<le> 0 then DefaultSandboxConcurrency else l)"

abbreviation set_sandbox :: "nat \<Rightarrow> (pooledSandbox \<Rightarrow> pooledSandbox) \<Rightarrow> SandboxPool \<Rightarrow> SandboxPool" where
  "set_sandbox r f p \<equiv> p\<lparr>heap := (heap p)[r := f (heap p ! r)]\<rparr>"

abbreviation set_waiter :: "nat \<Rightarrow> (waiter \<Rightarrow> waiter) \<Rightarrow> SandboxPool \<Rightarrow> SandboxPool" where
  "set_waiter w f p \<equiv> p\<lparr>waiters := (waiters p)[w := f (waiters p ! w)]\<rparr>"

text \<open>\<^verbatim>\<open>notify\<close>: a send that never blocks, on a channel of capacity one.\<close>

definition notify :: "bool option \<Rightarrow> bool option" where
  "notify ch = (case ch of None \<Rightarrow> None | Some _ \<Rightarrow> Some True)"

subsection \<open>Operations under the mutex\<close>

definition removeReadyLocked :: "nat \<Rightarrow> SandboxPool \<Rightarrow> SandboxPool" where
  "removeReadyLocked r p =
     (if \<not> ready_elem (heap p ! r) then p
      else set_sandbox r (\<lambda>s. s\<lparr>ready_elem := False\<rparr>) (p\<lparr>ready := remove1 r (ready p)\<rparr>))"

definition refreshReadyLocked :: "nat \<Rightarrow> SandboxPool \<Rightarrow> SandboxPool" where
  "refreshReadyLocked r p =
     (let available = \<not> draining (heap p ! r) \<and> inFlight (heap p ! r) < limit p
      in if available \<and> \<not> ready_elem (heap p ! r)
         then set_sandbox r (\<lambda>s. s\<lparr>ready_elem := True\<rparr>) (p\<lparr>ready := ready p @ [r]\<rparr>)
         else if \<not> available then removeReadyLocked r p
         else p)"

definition updateQueueHeadLocked :: "SandboxPool \<Rightarrow> SandboxPool" where
  "updateQueueHeadLocked p = (if pending p = [] then p\<lparr>queueHead := None\<rparr> else p)"

definition noteDemandLocked :: "SandboxPool \<Rightarrow> SandboxPool" where
  "noteDemandLocked p =
     (let demand = executing p + int (length (pending p))
      in if highWater p \<ge> demand then p else p\<lparr>highWater := demand\<rparr>)"

definition acquireLocked :: "int \<Rightarrow> SandboxPool \<Rightarrow> nat option \<times> SandboxPool" where
  "acquireLocked now p =
     (case ready p of
        [] \<Rightarrow> (None, p)
      | r # rest \<Rightarrow>
          let p1 = set_sandbox r (\<lambda>s. s\<lparr>inFlight := inFlight s + 1\<rparr>) p;
              p2 = p1\<lparr>executing := executing p1 + 1, accepted := accepted p1 + 1\<rparr>;
              p3 = (if executing p2 = 1 \<and> pending p2 = [] then p2\<lparr>lastActivity := now\<rparr> else p2);
              p4 = (if inFlight (heap p3 ! r) \<ge> limit p3 then removeReadyLocked r p3
                    else p3\<lparr>ready := rest @ [r]\<rparr>)
          in (Some r, noteDemandLocked p4))"

function dispatchLocked :: "(nat \<Rightarrow> bool) \<Rightarrow> int \<Rightarrow> SandboxPool \<Rightarrow> SandboxPool" where
  "dispatchLocked err now p =
     (case pending p of
        [] \<Rightarrow> p
      | w # rest \<Rightarrow>
          if err (wctx (waiters p ! w))
          then dispatchLocked err now
                 (set_waiter w (\<lambda>x. x\<lparr>elem := False, result := Some (Refused ErrContext)\<rparr>) (p\<lparr>pending := rest\<rparr>))
          else (case acquireLocked now p of
                  (None, _) \<Rightarrow> p
                | (Some r, p1) \<Rightarrow>
                    dispatchLocked err now
                      (set_waiter w (\<lambda>x. x\<lparr>elem := False, result := Some (Granted r)\<rparr>)
                        (updateQueueHeadLocked (p1\<lparr>pending := rest\<rparr>)))))"
  by pat_completeness auto

termination dispatchLocked
  by (relation "measure (\<lambda>(err, now, p). length (pending p))") (auto simp: updateQueueHeadLocked_def)

declare dispatchLocked.simps [simp del]

definition release :: "(nat \<Rightarrow> bool) \<Rightarrow> int \<Rightarrow> nat \<Rightarrow> SandboxPool \<Rightarrow> pool_panic + SandboxPool" where
  "release err now r p =
     (if inFlight (heap p ! r) \<le> 0 then Inl ReleaseWithoutLease
      else
        let p1 = set_sandbox r (\<lambda>s. s\<lparr>inFlight := inFlight s - 1\<rparr>) p;
            p2 = p1\<lparr>executing := executing p1 - 1, completed := completed p1 + 1\<rparr>;
            p3 = (if executing p2 = 0 \<and> pending p2 = [] then p2\<lparr>lastActivity := now\<rparr> else p2);
            s = heap p3 ! r
        in if closed p3 then Inr p3
           else if draining s
           then (if inFlight s = 0
                 then (case drained s of
                         None \<Rightarrow> Inr p3
                       | Some True \<Rightarrow> Inl CloseOfClosedChannel
                       | Some False \<Rightarrow> Inr (set_sandbox r (\<lambda>s. s\<lparr>drained := Some True\<rparr>) p3))
                 else Inr p3)
           else if map_of (sandboxes p3) (InstanceID (target s)) = Some r
           then Inr (dispatchLocked err now (refreshReadyLocked r p3))
           else Inr p3)"

subsection \<open>Exported operations\<close>

text \<open>\<open>order\<close> is the order in which the loop ranges over the map.\<close>

definition refreshOne :: "SandboxPool \<Rightarrow> u64 \<Rightarrow> SandboxPool" where
  "refreshOne p i = (case map_of (sandboxes p) i of None \<Rightarrow> p | Some r \<Rightarrow> refreshReadyLocked r p)"

definition Configure :: "(nat \<Rightarrow> bool) \<Rightarrow> int \<Rightarrow> u64 list \<Rightarrow> int \<Rightarrow> int \<Rightarrow> SandboxPool \<Rightarrow> SandboxPool" where
  "Configure err now order newLimit newDepth p =
     (let p1 = p\<lparr>limit := normalizeLimit newLimit, queueDepth := (if newDepth \<le> 0 then DefaultQueueDepth else newDepth)\<rparr>;
          p2 = foldl refreshOne p1 order
      in dispatchLocked err now p2)"

definition emptyPool :: SandboxPool where
  "emptyPool =
     \<lparr>limit = 0, queueDepth = 0, sandboxes = [], ready = [], pending = [], active = 0, executing = 0,
      closed = False, queueHead = None, demandWake = None, accepted = 0, completed = 0, highWater = 0,
      lastActivity = 0, heap = [], waiters = []\<rparr>"

definition NewSandboxPool :: "int \<Rightarrow> int \<Rightarrow> SandboxPool" where
  "NewSandboxPool newLimit newDepth = Configure (\<lambda>_. False) 0 [] newLimit newDepth emptyPool"

definition SetDemandWake :: "bool option \<Rightarrow> SandboxPool \<Rightarrow> SandboxPool" where
  "SetDemandWake wake p =
     (let hasDemand = executing p + int (length (pending p)) > 0
      in p\<lparr>demandWake := (if hasDemand then notify wake else wake)\<rparr>)"

definition newSandbox :: "Sandbox \<Rightarrow> pooledSandbox" where
  "newSandbox t = \<lparr>target = t, inFlight = 0, ready_elem = False, draining = False, drained = None\<rparr>"

text \<open>The block that \<^verbatim>\<open>Add\<close> and \<^verbatim>\<open>Sync\<close> share: register a sandbox that the pool does not know.\<close>

definition insertSandbox :: "Sandbox \<Rightarrow> SandboxPool \<Rightarrow> SandboxPool" where
  "insertSandbox t p =
     refreshReadyLocked (length (heap p))
       (p\<lparr>heap := heap p @ [newSandbox t],
          sandboxes := AList.update (InstanceID t) (length (heap p)) (sandboxes p),
          active := active p + 1\<rparr>)"

definition Add :: "(nat \<Rightarrow> bool) \<Rightarrow> int \<Rightarrow> Sandbox \<Rightarrow> SandboxPool \<Rightarrow> SandboxPool" where
  "Add err now t p =
     (if InstanceID t = 0 \<or> Address t = [] then p
      else if closed p then p
      else case map_of (sandboxes p) (InstanceID t) of
        Some r \<Rightarrow> refreshReadyLocked r (set_sandbox r (\<lambda>s. s\<lparr>target := t\<rparr>) p)
      | None \<Rightarrow> dispatchLocked err now (insertSandbox t p))"

definition wanted_targets :: "Sandbox list \<Rightarrow> (u64, Sandbox) gomap" where
  "wanted_targets ts =
     foldl (\<lambda>m t. if InstanceID t \<noteq> 0 \<and> Address t \<noteq> [] then AList.update (InstanceID t) t m else m) [] ts"

definition sync_drop :: "(u64, Sandbox) gomap \<Rightarrow> SandboxPool \<Rightarrow> u64 \<Rightarrow> SandboxPool" where
  "sync_drop wanted p i =
     (case map_of (sandboxes p) i of
        None \<Rightarrow> p
      | Some r \<Rightarrow>
          if map_of wanted i \<noteq> None \<or> draining (heap p ! r) then p
          else let p1 = removeReadyLocked r p
               in p1\<lparr>sandboxes := AList.delete i (sandboxes p1), active := active p1 - 1\<rparr>)"

definition sync_put :: "(u64, Sandbox) gomap \<Rightarrow> SandboxPool \<Rightarrow> u64 \<Rightarrow> SandboxPool" where
  "sync_put wanted p i =
     (case map_of wanted i of
        None \<Rightarrow> p
      | Some t \<Rightarrow>
          (case map_of (sandboxes p) i of
             Some r \<Rightarrow> refreshReadyLocked r (set_sandbox r (\<lambda>s. s\<lparr>target := t\<rparr>) p)
           | None \<Rightarrow> insertSandbox t p))"

definition Sync :: "(nat \<Rightarrow> bool) \<Rightarrow> int \<Rightarrow> u64 list \<Rightarrow> u64 list \<Rightarrow> Sandbox list \<Rightarrow> SandboxPool \<Rightarrow> SandboxPool" where
  "Sync err now order1 order2 ts p =
     (let wanted = wanted_targets ts
      in if closed p then p
         else dispatchLocked err now
                (foldl (sync_put wanted) (foldl (sync_drop wanted) p order1) order2))"

definition Remove :: "u64 \<Rightarrow> SandboxPool \<Rightarrow> SandboxPool" where
  "Remove instanceID p =
     (case map_of (sandboxes p) instanceID of
        None \<Rightarrow> p
      | Some r \<Rightarrow>
          let p1 = removeReadyLocked r p;
              p2 = (if \<not> draining (heap p1 ! r) then p1\<lparr>active := active p1 - 1\<rparr> else p1)
          in p2\<lparr>sandboxes := AList.delete instanceID (sandboxes p2)\<rparr>)"

text \<open>\<^verbatim>\<open>Drain\<close> up to the select: the sandbox to wait for, or an error.\<close>

definition Drain :: "u64 \<Rightarrow> SandboxPool \<Rightarrow> (pool_error + nat) \<times> SandboxPool" where
  "Drain instanceID p =
     (if closed p then (Inl ErrPoolClosed, p)
      else case map_of (sandboxes p) instanceID of
        None \<Rightarrow> (Inl ErrNoSandbox, p)
      | Some r \<Rightarrow>
          if draining (heap p ! r) then (Inl ErrNoSandbox, p)
          else let p1 = set_sandbox r (\<lambda>s. s\<lparr>draining := True\<rparr>) (p\<lparr>active := active p - 1\<rparr>);
                   p2 = removeReadyLocked r p1
               in (Inr r, set_sandbox r (\<lambda>s. s\<lparr>drained := Some (inFlight s = 0)\<rparr>) p2))"

text \<open>The block that \<^verbatim>\<open>restore\<close> and the cancelled removal share: the sandbox accepts requests again.\<close>

definition undrain :: "(nat \<Rightarrow> bool) \<Rightarrow> int \<Rightarrow> nat \<Rightarrow> SandboxPool \<Rightarrow> SandboxPool" where
  "undrain err now r p =
     (let p1 = set_sandbox r (\<lambda>s. s\<lparr>draining := False, drained := None\<rparr>) p;
          p2 = p1\<lparr>active := active p1 + 1\<rparr>
      in dispatchLocked err now (refreshReadyLocked r p2))"

definition restore :: "(nat \<Rightarrow> bool) \<Rightarrow> int \<Rightarrow> nat \<Rightarrow> SandboxPool \<Rightarrow> SandboxPool" where
  "restore err now r p =
     (if map_of (sandboxes p) (InstanceID (target (heap p ! r))) \<noteq> Some r \<or> \<not> draining (heap p ! r) then p
      else undrain err now r p)"

text \<open>The function that a successful \<^verbatim>\<open>Drain\<close> returns.\<close>

definition finishDrain :: "(nat \<Rightarrow> bool) \<Rightarrow> int \<Rightarrow> u64 \<Rightarrow> nat \<Rightarrow> bool \<Rightarrow> SandboxPool \<Rightarrow> SandboxPool" where
  "finishDrain err now instanceID r stopped p =
     (if map_of (sandboxes p) instanceID \<noteq> Some r \<or> \<not> draining (heap p ! r) then p
      else if stopped then p\<lparr>sandboxes := AList.delete instanceID (sandboxes p)\<rparr>
      else undrain err now r p)"

datatype acquire_outcome = AcqError pool_error | AcqLease nat | AcqWaits nat

text \<open>\<^verbatim>\<open>Acquire\<close> up to the select: an immediate answer or a queued waiter.\<close>

definition enqueueWaiter :: "int \<Rightarrow> nat \<Rightarrow> SandboxPool \<Rightarrow> acquire_outcome \<times> SandboxPool" where
  "enqueueWaiter now c p =
     (if int (length (pending p)) \<ge> queueDepth p then (AcqError ErrQueueFull, p)
      else
        let wasIdle = (executing p = 0 \<and> pending p = []);
            w = length (waiters p);
            p1 = p\<lparr>waiters := waiters p @ [\<lparr>wctx = c, result = None, elem = True\<rparr>], pending := pending p @ [w]\<rparr>;
            firstQueued = (length (pending p1) = 1);
            p2 = (if queueHead p1 = None then p1\<lparr>queueHead := Some now\<rparr> else p1);
            p3 = noteDemandLocked p2;
            p4 = (if wasIdle \<or> firstQueued then p3\<lparr>demandWake := notify (demandWake p3)\<rparr> else p3)
        in (AcqWaits w, p4))"

definition Acquire :: "(nat \<Rightarrow> bool) \<Rightarrow> int \<Rightarrow> nat \<Rightarrow> SandboxPool \<Rightarrow> acquire_outcome \<times> SandboxPool" where
  "Acquire err now c p =
     (if err c then (AcqError ErrContext, p)
      else if closed p then (AcqError ErrPoolClosed, p)
      else if pending p = []
      then (case acquireLocked now p of
              (Some r, p1) \<Rightarrow> (AcqLease r, p1)
            | (None, p1) \<Rightarrow> enqueueWaiter now c p1)
      else enqueueWaiter now c p)"

text \<open>The two branches of the select in \<^verbatim>\<open>Acquire\<close>; a panic of \<^verbatim>\<open>release\<close> is \<^const>\<open>Inl\<close>.\<close>

definition acquireReceive ::
  "(nat \<Rightarrow> bool) \<Rightarrow> int \<Rightarrow> nat \<Rightarrow> acquireResult \<Rightarrow> SandboxPool \<Rightarrow> pool_panic + (pool_error + nat) \<times> SandboxPool" where
  "acquireReceive err now w res p =
     (case res of
        Refused e \<Rightarrow> Inr (Inl e, p)
      | Granted r \<Rightarrow>
          if err (wctx (waiters p ! w))
          then (case release err now r p of Inl e \<Rightarrow> Inl e | Inr p1 \<Rightarrow> Inr (Inl ErrContext, p1))
          else Inr (Inr r, p))"

definition acquireCancel ::
  "(nat \<Rightarrow> bool) \<Rightarrow> int \<Rightarrow> nat \<Rightarrow> SandboxPool \<Rightarrow> pool_panic + SandboxPool" where
  "acquireCancel err now w p =
     (if elem (waiters p ! w)
      then Inr (updateQueueHeadLocked (set_waiter w (\<lambda>s. s\<lparr>elem := False\<rparr>) (p\<lparr>pending := remove1 w (pending p)\<rparr>)))
      else case result (waiters p ! w) of
        Some (Granted r) \<Rightarrow> release err now r p
      | _ \<Rightarrow> Inr p)"

record PoolSnapshot =
  ReadyInstances :: int
  AvailableConcurrency :: u64
  Executing :: int
  Queued :: int
  Accepted :: int
  Completed :: int
  HighWater :: int
  LastActivity :: "int option"
  OldestQueued :: "int option"

definition timeFromUnixNano :: "int \<Rightarrow> int option" where
  "timeFromUnixNano v = (if v = 0 then None else Some v)"

definition available_slots :: "SandboxPool \<Rightarrow> int" where
  "available_slots p =
     foldl (\<lambda>n (i, r). if \<not> draining (heap p ! r) \<and> inFlight (heap p ! r) < limit p
                        then n + (limit p - inFlight (heap p ! r)) else n) 0 (sandboxes p)"

definition Snapshot :: "SandboxPool \<Rightarrow> PoolSnapshot" where
  "Snapshot p =
     \<lparr>ReadyInstances = active p, AvailableConcurrency = word_of_int (available_slots p),
      Executing = executing p, Queued = int (length (pending p)), Accepted = accepted p,
      Completed = completed p, HighWater = highWater p,
      LastActivity = timeFromUnixNano (lastActivity p), OldestQueued = queueHead p\<rparr>"

definition TakeHighWater :: "SandboxPool \<Rightarrow> int \<times> SandboxPool" where
  "TakeHighWater p =
     (let current = executing p + int (length (pending p))
      in (if highWater p > current then highWater p else current, p\<lparr>highWater := current\<rparr>))"

definition Close :: "SandboxPool \<Rightarrow> SandboxPool" where
  "Close p =
     (if closed p then p
      else
        let p1 = p\<lparr>closed := True, ready := []\<rparr>;
            p2 = foldl (\<lambda>q w. set_waiter w (\<lambda>x. x\<lparr>elem := False, result := Some (Refused ErrPoolClosed)\<rparr>) q)
                   p1 (pending p1)
        in p2\<lparr>pending := []\<rparr>)"

subsection \<open>The invariant\<close>

text \<open>The pool knows the sandbox at \<open>r\<close>, under its own instance ID.\<close>

definition mapped :: "SandboxPool \<Rightarrow> nat \<Rightarrow> bool" where
  "mapped p r \<longleftrightarrow>
     r < length (heap p) \<and> map_of (sandboxes p) (InstanceID (target (heap p ! r))) = Some r"

definition live :: "SandboxPool \<Rightarrow> nat set" where
  "live p = {r. mapped p r \<and> \<not> draining (heap p ! r)}"

definition inv_map :: "SandboxPool \<Rightarrow> bool" where
  "inv_map p \<longleftrightarrow>
     gomap_inv (sandboxes p) \<and>
     (\<forall>i r. map_of (sandboxes p) i = Some r \<longrightarrow> r < length (heap p) \<and> InstanceID (target (heap p ! r)) = i)"

text \<open>
  The ready list has no duplicates and holds exactly the sandboxes whose list element is set (after
  \<^verbatim>\<open>Close\<close>, which empties the list, only the inclusion is left); those are known and not draining.
\<close>

definition inv_ready :: "SandboxPool \<Rightarrow> bool" where
  "inv_ready p \<longleftrightarrow>
     distinct (ready p) \<and>
     (\<forall>r \<in> set (ready p). r < length (heap p) \<and> ready_elem (heap p ! r)) \<and>
     (\<forall>r < length (heap p). ready_elem (heap p ! r) \<longrightarrow>
        mapped p r \<and> \<not> draining (heap p ! r) \<and> (\<not> closed p \<longrightarrow> r \<in> set (ready p)))"

definition avail_ok :: "SandboxPool \<Rightarrow> nat \<Rightarrow> bool" where
  "avail_ok p r \<longleftrightarrow>
     (ready_elem (heap p ! r) \<longrightarrow> inFlight (heap p ! r) < limit p) \<and>
     (\<not> closed p \<and> mapped p r \<and> \<not> draining (heap p ! r) \<and> inFlight (heap p ! r) < limit p \<longrightarrow>
        ready_elem (heap p ! r))"

definition inv_avail :: "SandboxPool \<Rightarrow> bool" where
  "inv_avail p \<longleftrightarrow> (\<forall>r < length (heap p). avail_ok p r)"

definition inv_count :: "SandboxPool \<Rightarrow> bool" where
  "inv_count p \<longleftrightarrow>
     executing p = (\<Sum>r < length (heap p). inFlight (heap p ! r)) \<and>
     (\<forall>r < length (heap p). 0 \<le> inFlight (heap p ! r)) \<and>
     accepted p - completed p = executing p \<and>
     active p = int (card (live p))"

definition inv_chan :: "SandboxPool \<Rightarrow> bool" where
  "inv_chan p \<longleftrightarrow>
     (\<forall>r < length (heap p).
        (draining (heap p ! r) \<longleftrightarrow> drained (heap p ! r) \<noteq> None) \<and>
        (drained (heap p ! r) = Some True \<longrightarrow> inFlight (heap p ! r) = 0) \<and>
        (\<not> closed p \<and> drained (heap p ! r) = Some False \<longrightarrow> inFlight (heap p ! r) > 0))"

definition inv_queue :: "SandboxPool \<Rightarrow> bool" where
  "inv_queue p \<longleftrightarrow>
     distinct (pending p) \<and>
     (\<forall>w. w \<in> set (pending p) \<longleftrightarrow> w < length (waiters p) \<and> elem (waiters p ! w)) \<and>
     (\<forall>w < length (waiters p). elem (waiters p ! w) \<longrightarrow> result (waiters p ! w) = None) \<and>
     (\<forall>w < length (waiters p). \<forall>r. result (waiters p ! w) = Some (Granted r) \<longrightarrow> r < length (heap p)) \<and>
     (closed p \<longrightarrow> pending p = []) \<and>
     (pending p \<noteq> [] \<longrightarrow> queueHead p \<noteq> None)"

text \<open>Work conservation: nobody waits while a sandbox has a free slot.\<close>

definition no_idle_wait :: "SandboxPool \<Rightarrow> bool" where
  "no_idle_wait p \<longleftrightarrow> pending p \<noteq> [] \<longrightarrow> ready p = []"

definition pool_parts :: "SandboxPool \<Rightarrow> bool" where
  "pool_parts p \<longleftrightarrow> inv_map p \<and> inv_ready p \<and> inv_avail p \<and> inv_count p \<and> inv_chan p \<and> inv_queue p"

definition pool_inv :: "SandboxPool \<Rightarrow> bool" where
  "pool_inv p \<longleftrightarrow> pool_parts p \<and> no_idle_wait p"

lemmas inv_defs = inv_map_def inv_ready_def inv_avail_def inv_count_def inv_chan_def inv_queue_def

subsection \<open>What the locked helpers leave alone\<close>

lemma nth_update_same: "xs[r := y] ! x = (if x = r \<and> r < length xs then y else xs ! x)"
  by (cases "r < length xs") (auto simp: nth_list_update list_update_beyond)

lemma removeReadyLocked_frame [simp, frame_simps]:
  "limit (removeReadyLocked r p) = limit p"
  "queueDepth (removeReadyLocked r p) = queueDepth p"
  "sandboxes (removeReadyLocked r p) = sandboxes p"
  "pending (removeReadyLocked r p) = pending p"
  "active (removeReadyLocked r p) = active p"
  "executing (removeReadyLocked r p) = executing p"
  "closed (removeReadyLocked r p) = closed p"
  "queueHead (removeReadyLocked r p) = queueHead p"
  "accepted (removeReadyLocked r p) = accepted p"
  "completed (removeReadyLocked r p) = completed p"
  "highWater (removeReadyLocked r p) = highWater p"
  "waiters (removeReadyLocked r p) = waiters p"
  "length (heap (removeReadyLocked r p)) = length (heap p)"
  "target (heap (removeReadyLocked r p) ! x) = target (heap p ! x)"
  "inFlight (heap (removeReadyLocked r p) ! x) = inFlight (heap p ! x)"
  "draining (heap (removeReadyLocked r p) ! x) = draining (heap p ! x)"
  "drained (heap (removeReadyLocked r p) ! x) = drained (heap p ! x)"
  by (simp_all add: removeReadyLocked_def nth_update_same)

lemma refreshReadyLocked_frame [simp, frame_simps]:
  "limit (refreshReadyLocked r p) = limit p"
  "queueDepth (refreshReadyLocked r p) = queueDepth p"
  "sandboxes (refreshReadyLocked r p) = sandboxes p"
  "pending (refreshReadyLocked r p) = pending p"
  "active (refreshReadyLocked r p) = active p"
  "executing (refreshReadyLocked r p) = executing p"
  "closed (refreshReadyLocked r p) = closed p"
  "queueHead (refreshReadyLocked r p) = queueHead p"
  "accepted (refreshReadyLocked r p) = accepted p"
  "completed (refreshReadyLocked r p) = completed p"
  "highWater (refreshReadyLocked r p) = highWater p"
  "waiters (refreshReadyLocked r p) = waiters p"
  "length (heap (refreshReadyLocked r p)) = length (heap p)"
  "target (heap (refreshReadyLocked r p) ! x) = target (heap p ! x)"
  "inFlight (heap (refreshReadyLocked r p) ! x) = inFlight (heap p ! x)"
  "draining (heap (refreshReadyLocked r p) ! x) = draining (heap p ! x)"
  "drained (heap (refreshReadyLocked r p) ! x) = drained (heap p ! x)"
  by (simp_all add: refreshReadyLocked_def Let_def nth_update_same)

lemma noteDemandLocked_frame [simp, frame_simps]:
  "limit (noteDemandLocked p) = limit p"
  "queueDepth (noteDemandLocked p) = queueDepth p"
  "sandboxes (noteDemandLocked p) = sandboxes p"
  "ready (noteDemandLocked p) = ready p"
  "pending (noteDemandLocked p) = pending p"
  "active (noteDemandLocked p) = active p"
  "executing (noteDemandLocked p) = executing p"
  "closed (noteDemandLocked p) = closed p"
  "queueHead (noteDemandLocked p) = queueHead p"
  "accepted (noteDemandLocked p) = accepted p"
  "completed (noteDemandLocked p) = completed p"
  "waiters (noteDemandLocked p) = waiters p"
  "heap (noteDemandLocked p) = heap p"
  by (simp_all add: noteDemandLocked_def Let_def)

lemma ready_elem_removeReadyLocked:
  "ready_elem (heap (removeReadyLocked r p) ! x) \<longleftrightarrow>
     ready_elem (heap p ! x) \<and> (x = r \<longrightarrow> length (heap p) \<le> r)"
  by (auto simp: removeReadyLocked_def nth_update_same)

lemma ready_removeReadyLocked:
  "inv_ready p \<Longrightarrow> r < length (heap p) \<Longrightarrow> set (ready (removeReadyLocked r p)) = set (ready p) - {r}"
  by (auto simp: removeReadyLocked_def inv_ready_def)

lemma mapped_removeReadyLocked [simp]: "mapped (removeReadyLocked r p) x \<longleftrightarrow> mapped p x"
  by (simp add: mapped_def)

lemma mapped_refreshReadyLocked [simp]: "mapped (refreshReadyLocked r p) x \<longleftrightarrow> mapped p x"
  by (simp add: mapped_def)

lemma live_removeReadyLocked [simp]: "live (removeReadyLocked r p) = live p"
  by (simp add: live_def)

lemma live_refreshReadyLocked [simp]: "live (refreshReadyLocked r p) = live p"
  by (simp add: live_def)

lemma finite_live [simp]: "finite (live p)"
  by (rule finite_subset[of _ "{..<length (heap p)}"]) (auto simp: live_def mapped_def)

lemma ready_elem_refreshReadyLocked:
  "r < length (heap p) \<Longrightarrow> ready_elem (heap (refreshReadyLocked r p) ! x) \<longleftrightarrow>
     (if x = r then \<not> draining (heap p ! r) \<and> inFlight (heap p ! r) < limit p else ready_elem (heap p ! x))"
  by (auto simp: refreshReadyLocked_def Let_def nth_update_same ready_elem_removeReadyLocked)

lemma inv_readyD:
  "inv_ready p \<Longrightarrow> distinct (ready p)"
  "inv_ready p \<Longrightarrow> r \<in> set (ready p) \<Longrightarrow> r < length (heap p)"
  "inv_ready p \<Longrightarrow> r \<in> set (ready p) \<Longrightarrow> ready_elem (heap p ! r)"
  "inv_ready p \<Longrightarrow> r < length (heap p) \<Longrightarrow> ready_elem (heap p ! r) \<Longrightarrow> mapped p r"
  "inv_ready p \<Longrightarrow> r < length (heap p) \<Longrightarrow> ready_elem (heap p ! r) \<Longrightarrow> \<not> draining (heap p ! r)"
  "inv_ready p \<Longrightarrow> r < length (heap p) \<Longrightarrow> ready_elem (heap p ! r) \<Longrightarrow> \<not> closed p \<Longrightarrow> r \<in> set (ready p)"
  unfolding inv_ready_def by blast+

lemma inv_readyI:
  assumes "distinct (ready p)"
    and "\<And>r. r \<in> set (ready p) \<Longrightarrow> r < length (heap p) \<and> ready_elem (heap p ! r)"
    and "\<And>r. r < length (heap p) \<Longrightarrow> ready_elem (heap p ! r) \<Longrightarrow>
      mapped p r \<and> \<not> draining (heap p ! r) \<and> (\<not> closed p \<longrightarrow> r \<in> set (ready p))"
  shows "inv_ready p"
  using assms unfolding inv_ready_def by blast

lemma inv_queueD:
  assumes "inv_queue p" "w \<in> set (pending p)"
  shows "w < length (waiters p)" "elem (waiters p ! w)" "result (waiters p ! w) = None"
proof -
  show w: "w < length (waiters p)" "elem (waiters p ! w)"
    using assms unfolding inv_queue_def by simp_all
  show "result (waiters p ! w) = None"
    using assms(1) w unfolding inv_queue_def by simp
qed

lemma inv_map_mapped: "inv_map p \<Longrightarrow> map_of (sandboxes p) i = Some r \<Longrightarrow> mapped p r"
  by (auto simp: inv_map_def mapped_def)

lemmas heap_simps = nth_update_same ready_elem_removeReadyLocked ready_elem_refreshReadyLocked

subsection \<open>The locked helpers keep the invariant\<close>

lemma distinct_ready_removeReadyLocked: "distinct (ready p) \<Longrightarrow> distinct (ready (removeReadyLocked r p))"
  by (simp add: removeReadyLocked_def)

lemma inv_ready_removeReadyLocked:
  assumes "inv_ready p" "r < length (heap p)"
  shows "inv_ready (removeReadyLocked r p)"
  unfolding inv_ready_def ready_removeReadyLocked[OF assms] removeReadyLocked_frame mapped_removeReadyLocked
    ready_elem_removeReadyLocked
  using assms by (simp add: inv_ready_def distinct_ready_removeReadyLocked)

lemma ready_refreshReadyLocked:
  assumes "inv_ready p" "r < length (heap p)"
  shows "set (ready (refreshReadyLocked r p)) =
    (if draining (heap p ! r) \<or> limit p \<le> inFlight (heap p ! r) then set (ready p) - {r}
     else if ready_elem (heap p ! r) then set (ready p) else insert r (set (ready p)))"
    and "distinct (ready (refreshReadyLocked r p))"
proof -
  have d: "distinct (ready p)" and new: "\<not> ready_elem (heap p ! r) \<Longrightarrow> r \<notin> set (ready p)"
    using assms(1) unfolding inv_ready_def by blast+
  show "set (ready (refreshReadyLocked r p)) =
    (if draining (heap p ! r) \<or> limit p \<le> inFlight (heap p ! r) then set (ready p) - {r}
     else if ready_elem (heap p ! r) then set (ready p) else insert r (set (ready p)))"
    using ready_removeReadyLocked[OF assms] by (simp add: refreshReadyLocked_def Let_def)
  show "distinct (ready (refreshReadyLocked r p))"
    using d new distinct_ready_removeReadyLocked[OF d] by (simp add: refreshReadyLocked_def Let_def)
qed

lemma inv_ready_refreshReadyLocked:
  assumes "inv_ready p" "mapped p r"
  shows "inv_ready (refreshReadyLocked r p)"
proof -
  have r: "r < length (heap p)"
    using assms(2) by (simp add: mapped_def)
  have old: "distinct (ready p)" "x \<in> set (ready p) \<Longrightarrow> x < length (heap p) \<and> ready_elem (heap p ! x)"
    "x < length (heap p) \<Longrightarrow> ready_elem (heap p ! x) \<Longrightarrow>
       mapped p x \<and> \<not> draining (heap p ! x) \<and> (\<not> closed p \<longrightarrow> x \<in> set (ready p))" for x
    using assms(1) unfolding inv_ready_def by blast+
  show ?thesis
    unfolding inv_ready_def ready_refreshReadyLocked(1)[OF assms(1) r] refreshReadyLocked_frame
      mapped_refreshReadyLocked ready_elem_refreshReadyLocked[OF r]
    using ready_refreshReadyLocked(2)[OF assms(1) r] old assms(2) r by auto
qed

lemma avail_ok_refreshReadyLocked:
  "r < length (heap p) \<Longrightarrow> avail_ok (refreshReadyLocked r p) x \<longleftrightarrow> x = r \<or> avail_ok p x"
  by (auto simp: avail_ok_def heap_simps)

lemma avail_ok_removeReadyLocked: "x \<noteq> r \<Longrightarrow> avail_ok (removeReadyLocked r p) x \<longleftrightarrow> avail_ok p x"
  by (auto simp: avail_ok_def heap_simps)

lemma inv_frame_removeReadyLocked [simp]:
  "inv_map (removeReadyLocked r p) \<longleftrightarrow> inv_map p"
  "inv_count (removeReadyLocked r p) \<longleftrightarrow> inv_count p"
  "inv_chan (removeReadyLocked r p) \<longleftrightarrow> inv_chan p"
  "inv_queue (removeReadyLocked r p) \<longleftrightarrow> inv_queue p"
  by (simp_all add: inv_map_def inv_count_def inv_chan_def inv_queue_def)

lemma inv_frame_refreshReadyLocked [simp]:
  "inv_map (refreshReadyLocked r p) \<longleftrightarrow> inv_map p"
  "inv_count (refreshReadyLocked r p) \<longleftrightarrow> inv_count p"
  "inv_chan (refreshReadyLocked r p) \<longleftrightarrow> inv_chan p"
  "inv_queue (refreshReadyLocked r p) \<longleftrightarrow> inv_queue p"
  by (simp_all add: inv_map_def inv_count_def inv_chan_def inv_queue_def)

text \<open>Everything but the availability of one sandbox, which \<^verbatim>\<open>refreshReadyLocked\<close> then restores.\<close>

definition parts_except :: "nat set \<Rightarrow> SandboxPool \<Rightarrow> bool" where
  "parts_except R p \<longleftrightarrow>
     inv_map p \<and> inv_ready p \<and> inv_count p \<and> inv_chan p \<and> inv_queue p \<and>
     (\<forall>r < length (heap p). r \<notin> R \<longrightarrow> avail_ok p r)"

lemma parts_except_empty: "parts_except {} p \<longleftrightarrow> pool_parts p"
  by (auto simp: parts_except_def pool_parts_def inv_avail_def)

lemma parts_except_weaken: "parts_except R p \<Longrightarrow> R \<subseteq> R' \<Longrightarrow> parts_except R' p"
  by (auto simp: parts_except_def)

lemma parts_except_refresh:
  assumes "parts_except R p" "mapped p r"
  shows "parts_except (R - {r}) (refreshReadyLocked r p)"
proof -
  have "r < length (heap p)"
    using assms(2) by (simp add: mapped_def)
  then show ?thesis
    using assms by (auto simp: parts_except_def avail_ok_refreshReadyLocked inv_ready_refreshReadyLocked)
qed

lemma pool_parts_refresh: "parts_except {r} p \<Longrightarrow> mapped p r \<Longrightarrow> pool_parts (refreshReadyLocked r p)"
  using parts_except_refresh[of "{r}" p r] by (simp add: parts_except_empty)

text \<open>A refresh in a state that already satisfies the invariant does nothing.\<close>

lemma refreshReadyLocked_noop:
  assumes "inv_ready p" "inv_avail p" "mapped p r" "\<not> closed p"
  shows "refreshReadyLocked r p = p"
proof -
  have r: "r < length (heap p)"
    using assms(3) by (simp add: mapped_def)
  then have "avail_ok p r" "ready_elem (heap p ! r) \<longrightarrow> \<not> draining (heap p ! r)"
    using assms(1,2) inv_readyD(5) by (auto simp: inv_avail_def)
  then have "ready_elem (heap p ! r) \<longleftrightarrow> \<not> draining (heap p ! r) \<and> inFlight (heap p ! r) < limit p"
    using assms(3,4) unfolding avail_ok_def by blast
  then show ?thesis
    by (simp add: refreshReadyLocked_def removeReadyLocked_def Let_def)
qed

subsection \<open>Acquiring a slot\<close>

lemma acquireLocked_None_iff: "fst (acquireLocked now p) = None \<longleftrightarrow> ready p = []"
  by (simp add: acquireLocked_def Let_def split: list.split)

lemma acquireLocked_None: "ready p = [] \<Longrightarrow> acquireLocked now p = (None, p)"
  by (simp add: acquireLocked_def)

lemma acquireLocked_Some:
  assumes "inv_ready p" "ready p = r # rest"
  obtains p' where "acquireLocked now p = (Some r, p')"
    "heap p' = (heap p)[r := (if inFlight (heap p ! r) + 1 < limit p
        then (heap p ! r)\<lparr>inFlight := inFlight (heap p ! r) + 1\<rparr>
        else (heap p ! r)\<lparr>inFlight := inFlight (heap p ! r) + 1, ready_elem := False\<rparr>)]"
    "ready p' = (if inFlight (heap p ! r) + 1 < limit p then rest @ [r] else rest)"
    "limit p' = limit p" "queueDepth p' = queueDepth p" "sandboxes p' = sandboxes p" "pending p' = pending p"
    "active p' = active p" "executing p' = executing p + 1" "closed p' = closed p" "queueHead p' = queueHead p"
    "accepted p' = accepted p + 1" "completed p' = completed p" "waiters p' = waiters p"
    "highWater p' = max (highWater p) (executing p + 1 + int (length (pending p)))"
proof -
  have r: "r < length (heap p)" "ready_elem (heap p ! r)"
    using assms by (auto simp: inv_ready_def)
  show thesis
    by (rule that[of "snd (acquireLocked now p)"])
      (use assms(2) r in \<open>auto simp: acquireLocked_def removeReadyLocked_def noteDemandLocked_def
        Let_def nth_update_same max_def\<close>)
qed

lemma pool_partsD:
  "pool_parts p \<Longrightarrow> inv_map p" "pool_parts p \<Longrightarrow> inv_ready p" "pool_parts p \<Longrightarrow> inv_avail p"
  "pool_parts p \<Longrightarrow> inv_count p" "pool_parts p \<Longrightarrow> inv_chan p" "pool_parts p \<Longrightarrow> inv_queue p"
  by (simp_all add: pool_parts_def)

text \<open>What the invariant says about a sandbox at the head of the ready list.\<close>

lemma ready_sandbox:
  assumes "pool_parts p" "r \<in> set (ready p)"
  shows "r < length (heap p)" "ready_elem (heap p ! r)" "mapped p r" "\<not> draining (heap p ! r)"
    "drained (heap p ! r) = None" "inFlight (heap p ! r) < limit p" "0 \<le> inFlight (heap p ! r)"
proof -
  note parts = pool_partsD[OF assms(1)]
  show r: "r < length (heap p)" and e: "ready_elem (heap p ! r)"
    using inv_readyD(2,3)[OF parts(2) assms(2)] by auto
  show "mapped p r" and d: "\<not> draining (heap p ! r)"
    using inv_readyD(4,5)[OF parts(2) r e] by auto
  show "drained (heap p ! r) = None"
    using parts(5) r d unfolding inv_chan_def by blast
  show "inFlight (heap p ! r) < limit p"
    using parts(3) r e unfolding inv_avail_def avail_ok_def by blast
  show "0 \<le> inFlight (heap p ! r)"
    using parts(4) r unfolding inv_count_def by blast
qed

lemma acquireLocked_parts:
  assumes parts: "pool_parts p" and ready: "ready p = r # rest" and acq: "acquireLocked now p = (Some r, p')"
  shows "pool_parts p'"
proof -
  note P = pool_partsD[OF parts]
  have rin: "r \<in> set (ready p)"
    using ready by simp
  note R = ready_sandbox[OF parts rin]
  obtain q where q: "acquireLocked now p = (Some r, q)"
    "heap q = (heap p)[r := (if inFlight (heap p ! r) + 1 < limit p
        then (heap p ! r)\<lparr>inFlight := inFlight (heap p ! r) + 1\<rparr>
        else (heap p ! r)\<lparr>inFlight := inFlight (heap p ! r) + 1, ready_elem := False\<rparr>)]"
    "ready q = (if inFlight (heap p ! r) + 1 < limit p then rest @ [r] else rest)"
    "limit q = limit p" "queueDepth q = queueDepth p" "sandboxes q = sandboxes p" "pending q = pending p"
    "active q = active p" "executing q = executing p + 1" "closed q = closed p" "queueHead q = queueHead p"
    "accepted q = accepted p + 1" "completed q = completed p" "waiters q = waiters p"
    using acquireLocked_Some[OF P(2) ready, of now] by metis
  have pq: "p' = q"
    using acq q(1) by simp
  have fields: "length (heap q) = length (heap p)"
    "target (heap q ! x) = target (heap p ! x)" "draining (heap q ! x) = draining (heap p ! x)"
    "drained (heap q ! x) = drained (heap p ! x)"
    "inFlight (heap q ! x) = inFlight (heap p ! x) + (if x = r then 1 else 0)"
    "ready_elem (heap q ! x) \<longleftrightarrow> (if x = r then inFlight (heap p ! r) + 1 < limit p else ready_elem (heap p ! x))" for x
    using R(1,2) by (simp_all add: q(2) nth_update_same)
  note Q = q(3-)
  have mapped: "mapped q x \<longleftrightarrow> mapped p x" for x
    by (simp add: mapped_def fields Q)
  have "inv_map q"
    using P(1) by (simp add: inv_map_def fields Q)
  moreover have "inv_ready q"
  proof (rule inv_readyI)
    show "distinct (ready q)"
      using inv_readyD(1)[OF P(2)] ready by (simp add: q(3))
  next
    fix x
    assume "x \<in> set (ready q)"
    then have "x \<in> set (ready p) \<and> (x = r \<longrightarrow> inFlight (heap p ! r) + 1 < limit p)"
      using inv_readyD(1)[OF P(2)] ready by (auto simp: q(3) split: if_splits)
    then show "x < length (heap q) \<and> ready_elem (heap q ! x)"
      using inv_readyD(2,3)[OF P(2)] by (simp add: fields)
  next
    fix x
    assume x: "x < length (heap q)" "ready_elem (heap q ! x)"
    then have x': "x < length (heap p)" "ready_elem (heap p ! x)"
      using R(2) by (simp_all add: fields split: if_splits)
    show "mapped q x \<and> \<not> draining (heap q ! x) \<and> (\<not> closed q \<longrightarrow> x \<in> set (ready q))"
      using inv_readyD(4,5,6)[OF P(2) x'] x(2) ready by (auto simp: mapped fields q(3,10) split: if_splits)
  qed
  moreover have "inv_avail q"
    unfolding inv_avail_def
  proof (intro allI impI)
    fix x
    assume "x < length (heap q)"
    then have "avail_ok p x"
      using P(3) by (simp add: inv_avail_def fields)
    then show "avail_ok q x"
      using R(2) by (cases "x = r") (simp_all add: avail_ok_def mapped fields Q)
  qed
  moreover have "inv_count q"
  proof -
    have "(\<Sum>i < length (heap q). inFlight (heap q ! i)) = (\<Sum>i < length (heap p). inFlight (heap p ! i)) + 1"
      using R(1) sum_nth_update[OF R(1), of inFlight] by (simp add: q(2))
    then show ?thesis
      using P(4) by (simp add: inv_count_def fields Q mapped live_def)
  qed
  moreover have "inv_chan q"
    using P(5) R(4,5) by (auto simp: inv_chan_def fields Q)
  moreover have "inv_queue q"
    using P(6) by (simp add: inv_queue_def fields Q)
  ultimately show ?thesis
    by (simp add: pool_parts_def pq)
qed

subsection \<open>Dispatching to the queue\<close>

lemma parts_cong:
  assumes "pool_parts p" "inv_queue q"
    and "heap q = heap p" "sandboxes q = sandboxes p" "ready q = ready p" "closed q = closed p" "limit q = limit p"
    and "executing q = executing p" "accepted q = accepted p" "completed q = completed p" "active q = active p"
  shows "pool_parts q"
proof -
  have "mapped q = mapped p" "live q = live p"
    using assms by (auto simp: mapped_def live_def fun_eq_iff)
  moreover from this have "avail_ok q = avail_ok p"
    using assms by (simp add: avail_ok_def fun_eq_iff)
  ultimately show ?thesis
    using assms unfolding pool_parts_def inv_map_def inv_ready_def inv_avail_def inv_count_def inv_chan_def
    by simp
qed

text \<open>Answering the waiter at the head of the queue.\<close>

definition answer :: "nat \<Rightarrow> acquireResult \<Rightarrow> waiter list \<Rightarrow> waiter list" where
  "answer w res ws = ws[w := (ws ! w)\<lparr>elem := False, result := Some res\<rparr>]"

lemma inv_queue_answer:
  assumes "inv_queue p" "pending p = w # rest" "\<And>r. res = Granted r \<Longrightarrow> r < length (heap p)"
    and "waiters q = answer w res (waiters p)" "pending q = rest" "heap q = heap p" "closed q = closed p"
    and "rest \<noteq> [] \<Longrightarrow> queueHead q \<noteq> None"
  shows "inv_queue q"
proof -
  have w: "w < length (waiters p)" "w \<notin> set rest"
    using assms(1,2) unfolding inv_queue_def by auto
  have ws: "length (waiters q) = length (waiters p)"
    "elem (waiters q ! x) \<longleftrightarrow> elem (waiters p ! x) \<and> x \<noteq> w"
    "result (waiters q ! x) = (if x = w then Some res else result (waiters p ! x))" for x
    using w(1) by (auto simp: assms(4) answer_def nth_update_same)
  have "x \<in> set rest \<longleftrightarrow> x < length (waiters p) \<and> elem (waiters p ! x) \<and> x \<noteq> w" for x
    using assms(1,2) w(2) unfolding inv_queue_def by auto
  then show ?thesis
    using assms(1-3,5-8) unfolding inv_queue_def by (auto simp: ws)
qed

lemma parts_answer:
  assumes "pool_parts p" "pending p = w # rest" "\<And>r. res = Granted r \<Longrightarrow> r < length (heap p)"
    and "rest \<noteq> [] \<Longrightarrow> h \<noteq> None"
  shows "pool_parts (p\<lparr>pending := rest, queueHead := h, waiters := answer w res (waiters p)\<rparr>)"
  by (rule parts_cong[OF assms(1) inv_queue_answer[OF pool_partsD(6)[OF assms(1)] assms(2,3)]])
    (use assms(4) in auto)

text \<open>One iteration of the loop, in the three ways it can go.\<close>

lemma dispatch_Nil: "pending p = [] \<Longrightarrow> dispatchLocked err now p = p"
  by (simp add: dispatchLocked.simps)

lemma dispatch_refuse:
  assumes "pending p = w # rest" "err (wctx (waiters p ! w))"
  shows "dispatchLocked err now p =
    dispatchLocked err now (p\<lparr>pending := rest, queueHead := queueHead p, waiters := answer w (Refused ErrContext) (waiters p)\<rparr>)"
proof -
  have "p\<lparr>pending := rest, queueHead := queueHead p, waiters := ws\<rparr> = p\<lparr>pending := rest, waiters := ws\<rparr>" for ws
    by (cases p) simp
  then show ?thesis
    using assms by (simp add: dispatchLocked.simps[of err now p] answer_def)
qed

lemma dispatch_grant:
  assumes "pending p = w # rest" "\<not> err (wctx (waiters p ! w))" "acquireLocked now p = (Some r, p1)"
    "waiters p1 = waiters p"
  shows "dispatchLocked err now p =
    dispatchLocked err now (p1\<lparr>pending := rest, queueHead := (if rest = [] then None else queueHead p1),
      waiters := answer w (Granted r) (waiters p1)\<rparr>)"
proof -
  have "p1\<lparr>pending := rest, queueHead := queueHead p1, waiters := ws\<rparr> = p1\<lparr>pending := rest, waiters := ws\<rparr>" for ws
    by (cases p1) simp
  then show ?thesis
    using assms by (simp add: dispatchLocked.simps[of err now p] answer_def updateQueueHeadLocked_def)
qed

lemma dispatch_stuck:
  assumes "pending p = w # rest" "\<not> err (wctx (waiters p ! w))" "ready p = []"
  shows "dispatchLocked err now p = p"
  using assms by (simp add: dispatchLocked.simps[of err now p] acquireLocked_None)

text \<open>
  An induction rule for the loop on states that satisfy the invariant: each iteration refuses or
  serves the first waiter, and the loop stops when nobody waits or no slot is free.
\<close>

lemma dispatch_induct [consumes 1, case_names Nil Stuck Refuse Grant]:
  assumes "pool_parts p"
    and Nil: "\<And>p. pool_parts p \<Longrightarrow> pending p = [] \<Longrightarrow> Q p p"
    and Stuck: "\<And>p w rest. pool_parts p \<Longrightarrow> pending p = w # rest \<Longrightarrow> \<not> err (wctx (waiters p ! w)) \<Longrightarrow> ready p = [] \<Longrightarrow> Q p p"
    and Refuse: "\<And>p w rest p'. pool_parts p \<Longrightarrow> pending p = w # rest \<Longrightarrow> err (wctx (waiters p ! w)) \<Longrightarrow>
      Q (p\<lparr>pending := rest, queueHead := queueHead p, waiters := answer w (Refused ErrContext) (waiters p)\<rparr>) p' \<Longrightarrow> Q p p'"
    and Grant: "\<And>p w rest r more p1 p'. pool_parts p \<Longrightarrow> pending p = w # rest \<Longrightarrow> \<not> err (wctx (waiters p ! w)) \<Longrightarrow>
      ready p = r # more \<Longrightarrow> acquireLocked now p = (Some r, p1) \<Longrightarrow> pool_parts p1 \<Longrightarrow>
      Q (p1\<lparr>pending := rest, queueHead := (if rest = [] then None else queueHead p1),
            waiters := answer w (Granted r) (waiters p1)\<rparr>) p' \<Longrightarrow> Q p p'"
  shows "Q p (dispatchLocked err now p)"
  using assms(1)
proof (induction "length (pending p)" arbitrary: p rule: less_induct)
  case less
  show ?case
  proof (cases "pending p")
    case Nil
    then show ?thesis
      using assms(2) less.prems by (simp add: dispatch_Nil)
  next
    case (Cons w rest)
    note P = pool_partsD[OF less.prems]
    have head: "queueHead p \<noteq> None"
      using P(6) Cons by (simp add: inv_queue_def)
    show ?thesis
    proof (cases "err (wctx (waiters p ! w))")
      case True
      let ?q = "p\<lparr>pending := rest, queueHead := queueHead p, waiters := answer w (Refused ErrContext) (waiters p)\<rparr>"
      have "pool_parts ?q"
        by (rule parts_answer[OF less.prems Cons]) (use head in auto)
      then have "Q ?q (dispatchLocked err now ?q)"
        using less.hyps[of ?q] Cons by simp
      then show ?thesis
        using Refuse[OF less.prems Cons True] dispatch_refuse[where err = err, OF Cons True] by simp
    next
      case False
      show ?thesis
      proof (cases "ready p")
        case Nil
        then show ?thesis
          using Stuck[OF less.prems \<open>pending p = w # rest\<close> False] dispatch_stuck[where err = err, OF \<open>pending p = w # rest\<close> False] by simp
      next
        case (Cons r more)
        obtain p1 where p1: "acquireLocked now p = (Some r, p1)" "length (heap p1) = length (heap p)"
          "waiters p1 = waiters p" "pending p1 = pending p" "queueHead p1 = queueHead p"
          using acquireLocked_Some[OF P(2) Cons, of now] by (metis length_list_update)
        have parts1: "pool_parts p1"
          by (rule acquireLocked_parts[OF less.prems Cons p1(1)])
        let ?q = "p1\<lparr>pending := rest, queueHead := (if rest = [] then None else queueHead p1),
            waiters := answer w (Granted r) (waiters p1)\<rparr>"
        have "pool_parts ?q"
          by (rule parts_answer[OF parts1])
            (use \<open>pending p = w # rest\<close> p1 head ready_sandbox(1)[OF less.prems, of r] Cons in auto)
        then have "Q ?q (dispatchLocked err now ?q)"
          using less.hyps[of ?q] \<open>pending p = w # rest\<close> by simp
        then show ?thesis
          using Grant[OF less.prems \<open>pending p = w # rest\<close> False Cons p1(1) parts1]
            dispatch_grant[where err = err, OF \<open>pending p = w # rest\<close> False p1(1,3)] by simp
      qed
    qed
  qed
qed

lemma dispatch_inv: "pool_parts p \<Longrightarrow> pool_inv (dispatchLocked err now p)"
  by (induction rule: dispatch_induct[where Q = "\<lambda>_. pool_inv"])
    (auto simp: pool_inv_def no_idle_wait_def)

text \<open>\<open>owed p ws r\<close>: requests running on \<open>r\<close> beyond the grants that the waiters \<open>ws\<close> have not picked up.\<close>

definition grants :: "waiter list \<Rightarrow> nat list \<Rightarrow> nat \<Rightarrow> int" where
  "grants wl ws r = int (length (filter (\<lambda>w. result (wl ! w) = Some (Granted r)) ws))"

definition owed :: "SandboxPool \<Rightarrow> nat list \<Rightarrow> nat \<Rightarrow> int" where
  "owed p ws r = inFlight (heap p ! r) - grants (waiters p) ws r"

lemma grants_answer:
  assumes "distinct ws" "w < length wl" "result (wl ! w) = None"
  shows "grants (answer w res wl) ws r = grants wl ws r + (if w \<in> set ws \<and> res = Granted r then 1 else 0)"
  using assms(1)
proof (induction ws)
  case (Cons x ws)
  have "result (answer w res wl ! x) = (if x = w then Some res else result (wl ! x))"
    using assms(2) by (simp add: answer_def nth_update_same)
  with Cons assms(3) show ?case
    by (auto simp: grants_def)
qed (simp add: grants_def)

text \<open>What a dispatch changes, seen from outside.\<close>

definition dispatched :: "(nat \<Rightarrow> bool) \<Rightarrow> SandboxPool \<Rightarrow> SandboxPool \<Rightarrow> bool" where
  "dispatched err p p' \<longleftrightarrow>
     sandboxes p' = sandboxes p \<and> limit p' = limit p \<and> queueDepth p' = queueDepth p \<and> closed p' = closed p \<and>
     active p' = active p \<and> completed p' = completed p \<and> length (heap p') = length (heap p) \<and>
     length (waiters p') = length (waiters p) \<and>
     (\<forall>r. target (heap p' ! r) = target (heap p ! r) \<and> draining (heap p' ! r) = draining (heap p ! r) \<and>
        drained (heap p' ! r) = drained (heap p ! r) \<and> inFlight (heap p ! r) \<le> inFlight (heap p' ! r) \<and>
        (draining (heap p ! r) \<longrightarrow> inFlight (heap p' ! r) = inFlight (heap p ! r)) \<and>
        (inFlight (heap p ! r) < inFlight (heap p' ! r) \<longrightarrow> inFlight (heap p' ! r) \<le> limit p)) \<and>
     (\<forall>w. wctx (waiters p' ! w) = wctx (waiters p ! w))"

lemma dispatched_refl [simp]: "dispatched err p p"
  by (simp add: dispatched_def)

lemma wctx_answer [simp]: "wctx (answer w res wl ! x) = wctx (wl ! x)"
  by (simp add: answer_def nth_update_same)

lemma length_answer [simp]: "length (answer w res wl) = length wl"
  by (simp add: answer_def)

lemma acquire_dispatched:
  assumes "pool_parts p" "ready p = r # rest" "acquireLocked now p = (Some r, p1)"
  shows "dispatched err p p1" "waiters p1 = waiters p" "pending p1 = pending p"
    "inFlight (heap p1 ! x) = inFlight (heap p ! x) + (if x = r then 1 else 0)"
proof -
  have rin: "r \<in> set (ready p)"
    using assms(2) by simp
  note R = ready_sandbox[OF assms(1) rin]
  obtain q where q: "acquireLocked now p = (Some r, q)"
    "heap q = (heap p)[r := (if inFlight (heap p ! r) + 1 < limit p
        then (heap p ! r)\<lparr>inFlight := inFlight (heap p ! r) + 1\<rparr>
        else (heap p ! r)\<lparr>inFlight := inFlight (heap p ! r) + 1, ready_elem := False\<rparr>)]"
    "limit q = limit p" "queueDepth q = queueDepth p" "sandboxes q = sandboxes p" "pending q = pending p"
    "active q = active p" "closed q = closed p" "completed q = completed p" "waiters q = waiters p"
    using acquireLocked_Some[OF pool_partsD(2)[OF assms(1)] assms(2), of now] by metis
  have "p1 = q"
    using assms(3) q(1) by simp
  then show "dispatched err p p1" "waiters p1 = waiters p" "pending p1 = pending p"
    "inFlight (heap p1 ! x) = inFlight (heap p ! x) + (if x = r then 1 else 0)"
    using R by (simp_all add: dispatched_def q nth_update_same)
qed

lemma dispatch_dispatched: "pool_parts p \<Longrightarrow> dispatched err p (dispatchLocked err now p)"
proof (induct rule: dispatch_induct[where Q = "dispatched err"])
  case (Refuse p w rest p')
  then show ?case
    by (simp add: dispatched_def)
next
  case (Grant p w rest r more p1 p')
  have step: "dispatched err p p1"
    by (rule acquire_dispatched(1)[OF Grant(1,4,5)])
  have rest: "dispatched err p1 p'"
    using Grant(7) by (simp add: dispatched_def)
  show ?case
    using step rest unfolding dispatched_def by (smt (verit))
qed simp_all

lemma dispatch_owed:
  assumes "pool_parts p" "distinct ws" "set (pending p) \<subseteq> set ws"
  shows "owed (dispatchLocked err now p) ws r = owed p ws r"
proof -
  have "set (pending p) \<subseteq> set ws \<longrightarrow> owed (dispatchLocked err now p) ws r = owed p ws r"
    using assms(1)
  proof (induct rule: dispatch_induct[where Q = "\<lambda>p p'. set (pending p) \<subseteq> set ws \<longrightarrow> owed p' ws r = owed p ws r"])
    case (Refuse p w rest p')
    have w: "w < length (waiters p)" "result (waiters p ! w) = None"
      using pool_partsD(6)[OF Refuse(1)] Refuse(2) unfolding inv_queue_def by auto
    show ?case
      using Refuse(2,4) grants_answer[OF assms(2) w] by (auto simp: owed_def)
  next
    case (Grant p w rest r' more p1 p')
    have w: "w < length (waiters p)" "result (waiters p ! w) = None"
      using pool_partsD(6)[OF Grant(1)] Grant(2) unfolding inv_queue_def by auto
    show ?case
      using Grant(2,7) grants_answer[OF assms(2) w] acquire_dispatched(2,4)[OF Grant(1,4,5)]
      by (auto simp: owed_def)
  qed simp_all
  then show ?thesis
    using assms(3) by blast
qed

text \<open>
  First in, first out: the waiters a dispatch answers are a prefix of the queue; each gets a slot
  unless its context is done, and those behind keep their place.
\<close>

definition fifo_served :: "(nat \<Rightarrow> bool) \<Rightarrow> SandboxPool \<Rightarrow> SandboxPool \<Rightarrow> bool" where
  "fifo_served err p p' \<longleftrightarrow>
     (\<exists>served. pending p = served @ pending p' \<and>
        (\<forall>w \<in> set served.
           if err (wctx (waiters p ! w)) then result (waiters p' ! w) = Some (Refused ErrContext)
           else \<exists>r < length (heap p). result (waiters p' ! w) = Some (Granted r)) \<and>
        (\<forall>w. w \<notin> set served \<longrightarrow> waiters p' ! w = waiters p ! w))"

lemma fifo_served_step:
  assumes "inv_queue p" "pending p = w # rest" "waiters q = answer w res (waiters p)" "pending q = rest"
    and "length (heap q) = length (heap p)"
    and "if err (wctx (waiters p ! w)) then res = Refused ErrContext else \<exists>r < length (heap p). res = Granted r"
    and "fifo_served err q p'"
  shows "fifo_served err p p'"
proof -
  have w: "w < length (waiters p)" "w \<notin> set rest"
    using assms(1,2) unfolding inv_queue_def by auto
  have ans: "waiters q ! x = (if x = w then (waiters p ! w)\<lparr>elem := False, result := Some res\<rparr> else waiters p ! x)" for x
    using w(1) by (simp add: assms(3) answer_def nth_update_same)
  from assms(7) obtain served where served: "rest = served @ pending p'"
    "\<And>v. v \<in> set served \<Longrightarrow>
       if err (wctx (waiters q ! v)) then result (waiters p' ! v) = Some (Refused ErrContext)
       else \<exists>r < length (heap p). result (waiters p' ! v) = Some (Granted r)"
    "\<And>v. v \<notin> set served \<Longrightarrow> waiters p' ! v = waiters q ! v"
    unfolding fifo_served_def assms(4,5) by blast
  have ctx: "wctx (waiters q ! v) = wctx (waiters p ! v)" for v
    by (simp add: ans)
  have "w \<notin> set served"
    using w(2) served(1) by simp
  then have first: "waiters p' ! w = (waiters p ! w)\<lparr>elem := False, result := Some res\<rparr>"
    using served(3) by (simp add: ans)
  have others: "v \<notin> set served \<Longrightarrow> v \<noteq> w \<Longrightarrow> waiters p' ! v = waiters p ! v" for v
    using served(3) by (simp add: ans)
  show ?thesis
    unfolding fifo_served_def
    using assms(2,6) served(1) served(2)[unfolded ctx] first others by (intro exI[of _ "w # served"]) auto
qed

lemma dispatch_fifo: "pool_parts p \<Longrightarrow> fifo_served err p (dispatchLocked err now p)"
proof (induct rule: dispatch_induct[where Q = "fifo_served err"])
  case (Nil p)
  then show ?case
    by (simp add: fifo_served_def)
next
  case (Stuck p w rest)
  then show ?case
    by (auto simp: fifo_served_def)
next
  case (Refuse p w rest p')
  show ?case
    by (rule fifo_served_step[OF pool_partsD(6)[OF Refuse(1)] Refuse(2) _ _ _ _ Refuse(4)]) (use Refuse(3) in auto)
next
  case (Grant p w rest r more p1 p')
  show ?case
    by (rule fifo_served_step[OF pool_partsD(6)[OF Grant(1)] Grant(2) _ _ _ _ Grant(7)])
      (use Grant(3,4) acquire_dispatched(1)[where err = err, OF Grant(1,4,5)] acquire_dispatched(2,3)[OF Grant(1,4,5)]
        ready_sandbox(1)[OF Grant(1)]
        in \<open>auto simp: dispatched_def\<close>)
qed

subsection \<open>Changing one sandbox\<close>

text \<open>
  The operations change one sandbox at a time.  The lemmas of this group give the parts of the
  invariant for a pool \<open>q\<close> whose heap differs from that of \<open>p\<close> at \<open>r\<close> only, where the sandbox keeps its
  instance ID and its place in the ready list.
\<close>

definition tweaked :: "nat \<Rightarrow> pooledSandbox \<Rightarrow> SandboxPool \<Rightarrow> SandboxPool \<Rightarrow> bool" where
  "tweaked r s p q \<longleftrightarrow>
     r < length (heap p) \<and> heap q = (heap p)[r := s] \<and>
     InstanceID (target s) = InstanceID (target (heap p ! r)) \<and> ready_elem s = ready_elem (heap p ! r) \<and>
     sandboxes q = sandboxes p \<and> ready q = ready p \<and> closed q = closed p \<and> limit q = limit p \<and>
     pending q = pending p \<and> waiters q = waiters p \<and> queueHead q = queueHead p"

lemma tweakedD:
  assumes "tweaked r s p q"
  shows "r < length (heap p)" "length (heap q) = length (heap p)"
    "heap q ! x = (if x = r then s else heap p ! x)"
    "InstanceID (target (heap q ! x)) = InstanceID (target (heap p ! x))"
    "ready_elem (heap q ! x) = ready_elem (heap p ! x)"
    "mapped q x \<longleftrightarrow> mapped p x" "sandboxes q = sandboxes p" "ready q = ready p" "closed q = closed p"
    "limit q = limit p" "pending q = pending p" "waiters q = waiters p" "queueHead q = queueHead p"
  using assms by (auto simp: tweaked_def mapped_def nth_update_same)

lemma tweaked_inv_map: "tweaked r s p q \<Longrightarrow> inv_map p \<Longrightarrow> inv_map q"
  using tweakedD[of r s p q] by (simp add: inv_map_def)

lemma tweaked_inv_queue: "tweaked r s p q \<Longrightarrow> inv_queue p \<Longrightarrow> inv_queue q"
  using tweakedD[of r s p q] by (simp add: inv_queue_def)

lemma tweaked_inv_ready:
  assumes "tweaked r s p q" "inv_ready p" "ready_elem (heap p ! r) \<longrightarrow> \<not> draining s"
  shows "inv_ready q"
proof (rule inv_readyI)
  note T = tweakedD[OF assms(1)]
  show "distinct (ready q)"
    using assms(2) T by (simp add: inv_readyD(1))
  show "x < length (heap q) \<and> ready_elem (heap q ! x)" if "x \<in> set (ready q)" for x
    using that inv_readyD(2,3)[OF assms(2), of x] T by simp
  show "mapped q x \<and> \<not> draining (heap q ! x) \<and> (\<not> closed q \<longrightarrow> x \<in> set (ready q))"
    if "x < length (heap q)" "ready_elem (heap q ! x)" for x
  proof -
    have x: "x < length (heap p)" "ready_elem (heap p ! x)"
      using that T(2,5) by auto
    show ?thesis
      using inv_readyD(4-6)[OF assms(2) x] x(2) assms(3) T(3)[of x] T(6,8,9) by auto
  qed
qed

lemma tweaked_avail_ok: "tweaked r s p q \<Longrightarrow> x \<noteq> r \<Longrightarrow> avail_ok q x \<longleftrightarrow> avail_ok p x"
  using tweakedD[of r s p q] by (simp add: avail_ok_def)

lemma tweaked_avail_off:
  assumes "tweaked r s p q" "\<not> ready_elem (heap p ! r)" "draining s"
  shows "avail_ok q r"
  unfolding avail_ok_def tweakedD(3,5)[OF assms(1)] using assms(2,3) tweakedD(5)[OF assms(1), of r]
  by (simp add: tweakedD(3)[OF assms(1)])

lemma tweaked_inv_avail_off:
  assumes "tweaked r s p q" "inv_avail p" "\<not> ready_elem (heap p ! r)" "draining s"
  shows "inv_avail q"
  unfolding inv_avail_def
proof (intro allI impI)
  fix x
  assume "x < length (heap q)"
  then have "avail_ok p x"
    using assms(2) tweakedD(2)[OF assms(1)] unfolding inv_avail_def by simp
  then show "avail_ok q x"
    using tweaked_avail_off[OF assms(1,3,4)] tweaked_avail_ok[OF assms(1), of x] by (cases "x = r") blast+
qed

lemma tweaked_inv_chan:
  assumes "tweaked r s p q" "inv_chan p" "draining s \<longleftrightarrow> drained s \<noteq> None"
    "drained s = Some True \<Longrightarrow> inFlight s = 0"
    "\<not> closed p \<Longrightarrow> drained s = Some False \<Longrightarrow> inFlight s > 0"
  shows "inv_chan q"
proof -
  note T = tweakedD[OF assms(1)]
  show ?thesis
    using assms(2-5) unfolding inv_chan_def T(2,3,9) by simp
qed

lemma tweaked_sum:
  assumes "tweaked r s p q"
  shows "(\<Sum>x < length (heap q). inFlight (heap q ! x)) =
    (\<Sum>x < length (heap p). inFlight (heap p ! x)) - inFlight (heap p ! r) + inFlight s"
  using assms sum_nth_update[of r "heap p" inFlight s] by (simp add: tweaked_def)

lemma tweaked_live:
  assumes "tweaked r s p q"
  shows "live q = (if mapped p r \<and> \<not> draining s then insert r (live p) else live p - {r})"
  using tweakedD(3,6)[OF assms] by (auto simp: live_def)

lemma tweaked_inv_count:
  assumes "tweaked r s p q" "inv_count p" "0 \<le> inFlight s"
    and "executing q = executing p - inFlight (heap p ! r) + inFlight s"
    and "accepted q - completed q = accepted p - completed p - inFlight (heap p ! r) + inFlight s"
    and "active q = active p + int (card (live q)) - int (card (live p))"
  shows "inv_count q"
  using assms(2-6) tweaked_sum[OF assms(1)] tweakedD(2,3)[OF assms(1)] by (simp add: inv_count_def)

lemma card_live_insert: "r \<notin> live p \<Longrightarrow> int (card (insert r (live p))) = int (card (live p)) + 1"
  by simp

lemma card_live_remove: "r \<in> live p \<Longrightarrow> int (card (live p - {r})) = int (card (live p)) - 1"
proof -
  assume "r \<in> live p"
  then have "Suc (card (live p - {r})) = card (live p)"
    by (intro card_Suc_Diff1) simp_all
  then show ?thesis
    by simp
qed

subsection \<open>What an operation may change\<close>

text \<open>
  \<open>frame D W d p q\<close>: the pool went from \<open>p\<close> to \<open>q\<close> in a step that queues nobody, keeps pointers valid, leaves the
  draining flags outside \<open>D\<close> alone, never reopens a closed channel, never takes back an answer, takes
  waiters outside \<open>W\<close> off the queue only from its head and by answering them, gives more requests only to
  sandboxes that stay within their limit, and changes the number of requests owed by the sandbox at \<open>x\<close>
  by \<open>d x\<close>.
\<close>

definition frame :: "nat set \<Rightarrow> nat set \<Rightarrow> (nat \<Rightarrow> int) \<Rightarrow> SandboxPool \<Rightarrow> SandboxPool \<Rightarrow> bool" where
  "frame D W d p q \<longleftrightarrow>
     length (heap p) \<le> length (heap q) \<and> length (waiters q) = length (waiters p) \<and>
     (\<exists>n. pending q = filter (\<lambda>w. w \<notin> W) (drop n (pending p))) \<and>
     (\<forall>x < length (heap q). (if x < length (heap p) then inFlight (heap p ! x) else 0) < inFlight (heap q ! x) \<longrightarrow>
        inFlight (heap q ! x) \<le> limit q \<and> \<not> draining (heap q ! x)) \<and>
     (\<forall>x < length (heap p). x \<notin> D \<longrightarrow> draining (heap q ! x) = draining (heap p ! x) \<and>
        (drained (heap p ! x) = Some True \<longrightarrow> drained (heap q ! x) = Some True)) \<and>
     (\<forall>w < length (waiters p).
        (result (waiters p ! w) \<noteq> None \<longrightarrow> result (waiters q ! w) = result (waiters p ! w)) \<and>
        (w \<notin> W \<longrightarrow> elem (waiters p ! w) \<longrightarrow> elem (waiters q ! w) \<or> result (waiters q ! w) \<noteq> None)) \<and>
     (\<forall>ws x. distinct ws \<longrightarrow> set (pending p) \<subseteq> set ws \<longrightarrow> set ws \<subseteq> {..<length (waiters p)} \<longrightarrow>
        x < length (heap q) \<longrightarrow> owed q ws x = (if x < length (heap p) then owed p ws x else 0) + d x)"

lemma frame_refresh [simp]: "frame D W d p (refreshReadyLocked r q) \<longleftrightarrow> frame D W d p q"
  by (simp add: frame_def owed_def)

lemma frame_removeReady [simp]: "frame D W d p (removeReadyLocked r q) \<longleftrightarrow> frame D W d p q"
  by (simp add: frame_def owed_def)

text \<open>A step in which only one sandbox changed.\<close>

lemma frame_tweaked:
  assumes "tweaked r s p q" "inFlight s \<le> inFlight (heap p ! r)"
    and "r \<notin> D \<Longrightarrow> draining s = draining (heap p ! r) \<and> (drained (heap p ! r) = Some True \<longrightarrow> drained s = Some True)"
    and "d = (\<lambda>x. if x = r then inFlight s - inFlight (heap p ! r) else 0)"
    and "W = {}"
  shows "frame D W d p q"
proof -
  have "\<exists>n. pending q = filter (\<lambda>w. w \<notin> W) (drop n (pending p))"
    using assms(5) tweakedD(11)[OF assms(1)] by (intro exI[of _ 0]) simp
  moreover have "set (pending q) = set (pending p)"
    by (simp add: tweakedD(11)[OF assms(1)])
  ultimately show ?thesis
    unfolding frame_def owed_def tweakedD(2,3,12)[OF assms(1)] assms(4) using assms(2,3) assms(5) by auto
qed

lemma fifo_frame:
  assumes "fifo_served err p p'" "inv_queue p"
  shows "\<exists>n. pending p' = drop n (pending p)"
    and "result (waiters p ! w) \<noteq> None \<Longrightarrow> result (waiters p' ! w) = result (waiters p ! w)"
    and "elem (waiters p ! w) \<Longrightarrow> elem (waiters p' ! w) \<or> result (waiters p' ! w) \<noteq> None"
proof -
  obtain served where served: "pending p = served @ pending p'"
    "\<And>w. w \<in> set served \<Longrightarrow> result (waiters p' ! w) \<noteq> None"
    "\<And>w. w \<notin> set served \<Longrightarrow> waiters p' ! w = waiters p ! w"
    using assms(1) unfolding fifo_served_def by (metis option.distinct(1))
  show "\<exists>n. pending p' = drop n (pending p)"
    by (rule exI[of _ "length served"]) (simp add: served(1))
  show "elem (waiters p' ! w) \<or> result (waiters p' ! w) \<noteq> None" if "elem (waiters p ! w)"
    using served(2)[of w] served(3)[of w] that by (cases "w \<in> set served") simp_all
  show "result (waiters p' ! w) = result (waiters p ! w)" if "result (waiters p ! w) \<noteq> None"
  proof -
    have "w \<notin> set served"
      using inv_queueD(3)[OF assms(2), of w] that served(1) by auto
    then show ?thesis
      using served(3) by simp
  qed
qed

lemma frame_dispatch:
  assumes "frame D {} d p q" "pool_parts q" "waiters q = waiters p" "pending q = pending p"
  shows "frame D {} d p (dispatchLocked err now q)"
proof -
  let ?q' = "dispatchLocked err now q"
  note F = fifo_frame[OF dispatch_fifo[OF assms(2), of err now] pool_partsD(6)[OF assms(2)]]
  have D: "length (heap ?q') = length (heap q)" "length (waiters ?q') = length (waiters q)" "limit ?q' = limit q"
    "draining (heap ?q' ! x) = draining (heap q ! x)" "drained (heap ?q' ! x) = drained (heap q ! x)"
    "draining (heap q ! x) \<Longrightarrow> inFlight (heap ?q' ! x) = inFlight (heap q ! x)"
    "inFlight (heap q ! x) \<le> inFlight (heap ?q' ! x)"
    "inFlight (heap q ! x) < inFlight (heap ?q' ! x) \<Longrightarrow> inFlight (heap ?q' ! x) \<le> limit q" for x
    using dispatch_dispatched[OF assms(2), of err now] by (simp_all add: dispatched_def)
  have owed: "owed ?q' ws x = owed q ws x" if "distinct ws" "set (pending p) \<subseteq> set ws" for ws x
    using dispatch_owed[OF assms(2) that(1)] that(2) assms(4) by simp
  obtain n where n: "pending ?q' = drop n (pending p)"
    using F(1) unfolding assms(4) by blast
  have more: "inFlight (heap ?q' ! x) \<le> limit q \<and> \<not> draining (heap q ! x)"
    if "x < length (heap q)" "(if x < length (heap p) then inFlight (heap p ! x) else 0) < inFlight (heap ?q' ! x)" for x
  proof (cases "inFlight (heap q ! x) < inFlight (heap ?q' ! x)")
    case True
    then show ?thesis
      using D(6,8)[of x] by auto
  next
    case False
    then have "inFlight (heap ?q' ! x) = inFlight (heap q ! x)"
      using D(7)[of x] by simp
    then show ?thesis
      using assms(1) that unfolding frame_def by simp
  qed
  have "\<exists>n. pending ?q' = filter (\<lambda>w. w \<notin> {}) (drop n (pending p))"
    using n by auto
  moreover have "length (heap p) \<le> length (heap q)" "length (waiters q) = length (waiters p)"
    using assms(1) by (simp_all add: frame_def)
  moreover have "draining (heap q ! x) = draining (heap p ! x) \<and>
      (drained (heap p ! x) = Some True \<longrightarrow> drained (heap q ! x) = Some True)" if "x < length (heap p)" "x \<notin> D" for x
    using assms(1) that by (simp add: frame_def)
  moreover have "owed q ws x = (if x < length (heap p) then owed p ws x else 0) + d x"
    if "distinct ws" "set (pending p) \<subseteq> set ws" "set ws \<subseteq> {..<length (waiters p)}" "x < length (heap q)" for ws x
    using assms(1) that by (simp add: frame_def)
  ultimately show ?thesis
    unfolding frame_def D(1-5) using F(2,3) more by (auto simp: assms(3) owed)
qed

subsection \<open>Releasing a slot\<close>

lemma owed_refresh [simp]: "owed (refreshReadyLocked r p) ws x = owed p ws x"
  by (simp add: owed_def)

lemma owed_removeReady [simp]: "owed (removeReadyLocked r p) ws x = owed p ws x"
  by (simp add: owed_def)

text \<open>The state after the counters of \<^verbatim>\<open>release\<close> have changed.\<close>

definition releasedTo :: "int \<Rightarrow> nat \<Rightarrow> SandboxPool \<Rightarrow> SandboxPool" where
  "releasedTo now r p =
     (let q = p\<lparr>heap := (heap p)[r := (heap p ! r)\<lparr>inFlight := inFlight (heap p ! r) - 1\<rparr>],
              executing := executing p - 1, completed := completed p + 1\<rparr>
      in if executing p = 1 \<and> pending p = [] then q\<lparr>lastActivity := now\<rparr> else q)"

lemma releasedTo_tweaked:
  "r < length (heap p) \<Longrightarrow> tweaked r ((heap p ! r)\<lparr>inFlight := inFlight (heap p ! r) - 1\<rparr>) p (releasedTo now r p)"
  by (simp add: tweaked_def releasedTo_def Let_def)

lemma releasedTo_fields [simp]:
  "executing (releasedTo now r p) = executing p - 1" "completed (releasedTo now r p) = completed p + 1"
  "accepted (releasedTo now r p) = accepted p" "active (releasedTo now r p) = active p"
  "queueDepth (releasedTo now r p) = queueDepth p"
  by (simp_all add: releasedTo_def Let_def)

lemma release_eq:
  assumes "inFlight (heap p ! r) > 0" "r < length (heap p)"
  shows "release err now r p =
    (let q = releasedTo now r p
     in if closed p then Inr q
        else if draining (heap p ! r)
        then (if inFlight (heap p ! r) = 1
              then (case drained (heap p ! r) of
                      None \<Rightarrow> Inr q
                    | Some True \<Rightarrow> Inl CloseOfClosedChannel
                    | Some False \<Rightarrow> Inr (set_sandbox r (\<lambda>s. s\<lparr>drained := Some True\<rparr>) q))
              else Inr q)
        else if mapped p r then Inr (dispatchLocked err now (refreshReadyLocked r q))
        else Inr q)"
  using assms by (auto simp: release_def releasedTo_def Let_def mapped_def nth_update_same split: option.split bool.split)

lemma releasedTo_parts:
  assumes "pool_parts p" "r < length (heap p)" "inFlight (heap p ! r) > 0"
  shows "inv_map (releasedTo now r p)" "inv_ready (releasedTo now r p)" "inv_count (releasedTo now r p)"
    "inv_queue (releasedTo now r p)" "x \<noteq> r \<Longrightarrow> avail_ok (releasedTo now r p) x \<longleftrightarrow> avail_ok p x"
    "\<not> draining (heap p ! r) \<or> closed p \<or> 1 < inFlight (heap p ! r) \<Longrightarrow> inv_chan (releasedTo now r p)"
    "live (releasedTo now r p) = live p"
proof -
  let ?s = "(heap p ! r)\<lparr>inFlight := inFlight (heap p ! r) - 1\<rparr>" and ?q = "releasedTo now r p"
  note P = pool_partsD[OF assms(1)]
  note t = releasedTo_tweaked[OF assms(2), of now]
  show "inv_map ?q" "inv_queue ?q" "x \<noteq> r \<Longrightarrow> avail_ok ?q x \<longleftrightarrow> avail_ok p x"
    using tweaked_inv_map[OF t P(1)] tweaked_inv_queue[OF t P(6)] tweaked_avail_ok[OF t] by auto
  show "inv_ready ?q"
    by (rule tweaked_inv_ready[OF t P(2)]) (use inv_readyD(5)[OF P(2) assms(2)] in simp)
  show live: "live ?q = live p"
    using tweaked_live[OF t] by (auto simp: live_def)
  show "inv_count ?q"
    by (rule tweaked_inv_count[OF t P(4)]) (use assms(3) live in auto)
  show "inv_chan ?q" if "\<not> draining (heap p ! r) \<or> closed p \<or> 1 < inFlight (heap p ! r)"
    by (rule tweaked_inv_chan[OF t P(5)]) (use that P(5) assms(2,3) in \<open>auto simp: inv_chan_def\<close>)
qed

lemma avail_ok_releasedTo:
  assumes "pool_parts p" "r < length (heap p)" "closed p \<or> draining (heap p ! r) \<or> \<not> mapped p r"
  shows "avail_ok (releasedTo now r p) r"
proof -
  note T = tweakedD[OF releasedTo_tweaked[OF assms(2), of now]]
  have old: "ready_elem (heap p ! r) \<longrightarrow> inFlight (heap p ! r) < limit p"
    using assms(1,2) unfolding pool_parts_def inv_avail_def avail_ok_def by blast
  have new: "inFlight (heap (releasedTo now r p) ! r) = inFlight (heap p ! r) - 1"
    "draining (heap (releasedTo now r p) ! r) = draining (heap p ! r)"
    using T(3)[of r] by simp_all
  show ?thesis
    unfolding avail_ok_def T(5,6,9,10) new using assms(3) old by linarith
qed

lemma frame_releasedTo:
  "r < length (heap p) \<Longrightarrow> frame {} {} (\<lambda>x. if x = r then - 1 else 0) p (releasedTo now r p)"
  by (rule frame_tweaked[OF releasedTo_tweaked]) auto

definition released_ok :: "nat \<Rightarrow> SandboxPool \<Rightarrow> SandboxPool \<Rightarrow> bool" where
  "released_ok r p p' \<longleftrightarrow> pool_inv p' \<and> frame {} {} (\<lambda>x. if x = r then - 1 else 0) p p'"

text \<open>The case in which only the counters change.\<close>

lemma released_ok_counters:
  assumes "pool_inv p" "r < length (heap p)" "inFlight (heap p ! r) > 0"
    and "closed p \<or> draining (heap p ! r) \<or> \<not> mapped p r"
    and "\<not> draining (heap p ! r) \<or> closed p \<or> 1 < inFlight (heap p ! r)"
  shows "released_ok r p (releasedTo now r p)"
proof -
  let ?q = "releasedTo now r p"
  have parts: "pool_parts p" and busy: "no_idle_wait p"
    using assms(1) by (simp_all add: pool_inv_def)
  note R = releasedTo_parts[OF parts assms(2,3), where now = now]
  note T = tweakedD[OF releasedTo_tweaked[OF assms(2), of now]]
  have "avail_ok ?q x" if "x < length (heap p)" for x
    using avail_ok_releasedTo[OF parts assms(2,4), of now] R(5)[of x] that parts
    by (cases "x = r") (auto simp: pool_parts_def inv_avail_def)
  then have "pool_parts ?q"
    using R(1-4) R(6)[OF assms(5)] T(2) by (simp add: pool_parts_def inv_avail_def)
  moreover have "no_idle_wait ?q"
    using busy T(8,11) by (simp add: no_idle_wait_def)
  ultimately show ?thesis
    using frame_releasedTo[OF assms(2), of now] by (simp add: released_ok_def pool_inv_def)
qed

text \<open>The last request on a draining sandbox: its channel closes.\<close>

lemma released_ok_drained:
  assumes "pool_inv p" "r < length (heap p)" "inFlight (heap p ! r) = 1" "\<not> closed p" "draining (heap p ! r)"
  shows "released_ok r p (set_sandbox r (\<lambda>s. s\<lparr>drained := Some True\<rparr>) (releasedTo now r p))"
proof -
  let ?q = "releasedTo now r p"
  let ?s = "(heap p ! r)\<lparr>inFlight := 0, drained := Some True\<rparr>" and ?p' = "set_sandbox r (\<lambda>s. s\<lparr>drained := Some True\<rparr>) ?q"
  have parts: "pool_parts p" and busy: "no_idle_wait p"
    using assms(1) by (simp_all add: pool_inv_def)
  note P = pool_partsD[OF parts]
  have t: "tweaked r ?s p ?p'"
    using assms(2,3) by (simp add: tweaked_def releasedTo_def Let_def)
  note T = tweakedD[OF t]
  have e: "\<not> ready_elem (heap p ! r)"
    using inv_readyD(5)[OF P(2) assms(2)] assms(5) by blast
  have live: "live ?p' = live p"
    using tweaked_live[OF t] assms(5) by (auto simp: live_def)
  have "inv_map ?p'" "inv_ready ?p'" "inv_queue ?p'"
    using tweaked_inv_map[OF t P(1)] tweaked_inv_queue[OF t P(6)] tweaked_inv_ready[OF t P(2)] e by auto
  moreover have "inv_count ?p'"
    by (rule tweaked_inv_count[OF t P(4)]) (use assms(3) live in simp_all)
  moreover have "inv_chan ?p'"
    by (rule tweaked_inv_chan[OF t P(5)]) (use assms(5) in simp_all)
  moreover have "inv_avail ?p'"
    by (rule tweaked_inv_avail_off[OF t P(3) e]) (use assms(5) in simp)
  ultimately have "pool_parts ?p'"
    by (simp add: pool_parts_def)
  moreover have "no_idle_wait ?p'"
    using busy T(8,11) by (simp add: no_idle_wait_def)
  moreover have "frame {} {} (\<lambda>x. if x = r then - 1 else 0) p ?p'"
    by (rule frame_tweaked[OF t]) (use assms(3) in auto)
  ultimately show ?thesis
    by (simp add: released_ok_def pool_inv_def)
qed

text \<open>A slot of a known sandbox: it is ready again and the queue is served.\<close>

lemma released_ok_dispatch:
  assumes "pool_inv p" "r < length (heap p)" "inFlight (heap p ! r) > 0"
    and "\<not> closed p" "\<not> draining (heap p ! r)" "mapped p r"
  shows "released_ok r p (dispatchLocked err now (refreshReadyLocked r (releasedTo now r p)))"
proof -
  let ?q = "releasedTo now r p" and ?p2 = "refreshReadyLocked r (releasedTo now r p)"
  have parts: "pool_parts p"
    using assms(1) by (simp add: pool_inv_def)
  note R = releasedTo_parts[OF parts assms(2,3), where now = now]
  note T = tweakedD[OF releasedTo_tweaked[OF assms(2), of now]]
  have "parts_except {r} ?q"
    using R(1-6) T(2) assms(5) pool_partsD(3)[OF parts] by (simp add: parts_except_def inv_avail_def)
  then have p2: "pool_parts ?p2"
    using assms(6) T(6) by (intro pool_parts_refresh) simp_all
  have "frame {} {} (\<lambda>x. if x = r then - 1 else 0) p ?p2"
    using frame_releasedTo[OF assms(2), of now] by simp
  then show ?thesis
    using dispatch_inv[OF p2] frame_dispatch[OF _ p2] T(11,12) by (simp add: released_ok_def)
qed

text \<open>
  Releasing a slot that is in use never panics, keeps the invariant, and takes one request off the
  sandbox; slots handed to waiters on the way are accounted for.
\<close>

lemma release_ok:
  assumes inv: "pool_inv p" and r: "r < length (heap p)" and used: "inFlight (heap p ! r) > 0"
  shows "\<exists>p'. release err now r p = Inr p' \<and> released_ok r p p'"
proof -
  have chan: "drained (heap p ! r) = Some False" if "\<not> closed p" "draining (heap p ! r)"
  proof -
    have "drained (heap p ! r) \<noteq> None" "drained (heap p ! r) \<noteq> Some True"
      using inv that r used unfolding pool_inv_def pool_parts_def inv_chan_def by auto
    then show ?thesis
      by auto
  qed
  consider (counters) "closed p \<or> draining (heap p ! r) \<or> \<not> mapped p r"
      "\<not> draining (heap p ! r) \<or> closed p \<or> 1 < inFlight (heap p ! r)"
    | (drained) "\<not> closed p" "draining (heap p ! r)" "inFlight (heap p ! r) = 1"
    | (ready) "\<not> closed p" "\<not> draining (heap p ! r)" "mapped p r"
    using used by fastforce
  then show ?thesis
  proof cases
    case counters
    then have "release err now r p = Inr (releasedTo now r p)"
      by (auto simp: release_eq[OF used r] Let_def)
    then show ?thesis
      using released_ok_counters[OF inv r used counters, of now] by blast
  next
    case drained
    then show ?thesis
      using released_ok_drained[OF inv r drained(3,1,2), of now] chan
      by (simp add: release_eq[OF used r] Let_def)
  next
    case ready
    then show ?thesis
      using released_ok_dispatch[OF inv r used ready, of err now]
      by (simp add: release_eq[OF used r] Let_def)
  qed
qed

end
