(* ===== verification/Sandbox_Pool_Ops.thy ===== *)
theory Sandbox_Pool_Ops
  imports Sandbox_Pool
begin

text \<open>
  Every exported operation of the sandbox pool keeps the pool invariant, and what each one may change
  besides.  The lemmas are stated for one step under the mutex; the theory of the pool's clients puts
  the steps together.
\<close>

definition op_ok :: "nat set \<Rightarrow> nat set \<Rightarrow> (nat \<Rightarrow> int) \<Rightarrow> SandboxPool \<Rightarrow> SandboxPool \<Rightarrow> bool" where
  "op_ok D W d p q \<longleftrightarrow> pool_inv q \<and> frame D W d p q"

lemma frame_same:
  assumes "heap q = heap p" "waiters q = waiters p" "pending q = pending p"
  shows "frame D {} (\<lambda>_. 0) p q"
proof -
  have "\<exists>n. pending p = drop n (pending p)"
    by (rule exI[of _ 0]) simp
  then show ?thesis
    by (simp add: frame_def owed_def assms)
qed

lemma frame_refl [simp]: "frame D {} (\<lambda>_. 0) p p"
  by (rule frame_same) simp_all

lemma op_ok_refl: "pool_inv p \<Longrightarrow> op_ok D {} (\<lambda>_. 0) p p"
  by (simp add: op_ok_def)

lemma op_ok_dispatch:
  "pool_parts q \<Longrightarrow> frame D {} d p q \<Longrightarrow> waiters q = waiters p \<Longrightarrow> pending q = pending p \<Longrightarrow>
     op_ok D {} d p (dispatchLocked err now q)"
  by (simp add: op_ok_def dispatch_inv frame_dispatch)

lemma mapped_unique: "inv_map p \<Longrightarrow> map_of (sandboxes p) i = Some r \<Longrightarrow> i = InstanceID (target (heap p ! r))"
  by (auto simp: inv_map_def)

text \<open>A change of fields that neither the parts of the invariant nor the frame look at.\<close>

lemma frame_fields_cong:
  assumes "length (heap q') = length (heap q)" "waiters q' = waiters q" "pending q' = pending q" "limit q' = limit q"
    and "\<And>x. inFlight (heap q' ! x) = inFlight (heap q ! x)" "\<And>x. draining (heap q' ! x) = draining (heap q ! x)"
    and "\<And>x. drained (heap q' ! x) = drained (heap q ! x)"
  shows "frame D W d p q' \<longleftrightarrow> frame D W d p q"
  by (simp add: frame_def owed_def assms)

lemma inv_cong:
  assumes "heap q = heap p" "sandboxes q = sandboxes p" "closed q = closed p"
  shows "mapped q = mapped p" "live q = live p" "inv_map q = inv_map p" "inv_chan q = inv_chan p"
    "ready q = ready p \<Longrightarrow> inv_ready q = inv_ready p" "limit q = limit p \<Longrightarrow> avail_ok q = avail_ok p"
    "executing q = executing p \<Longrightarrow> accepted q = accepted p \<Longrightarrow> completed q = completed p \<Longrightarrow>
       active q = active p \<Longrightarrow> inv_count q = inv_count p"
    "pending q = pending p \<Longrightarrow> waiters q = waiters p \<Longrightarrow> queueHead q = queueHead p \<Longrightarrow> inv_queue q = inv_queue p"
proof -
  show m: "mapped q = mapped p"
    using assms by (simp add: mapped_def fun_eq_iff)
  show l: "live q = live p"
    by (simp add: live_def m assms)
  show "inv_map q = inv_map p" "inv_chan q = inv_chan p"
    "ready q = ready p \<Longrightarrow> inv_ready q = inv_ready p" "limit q = limit p \<Longrightarrow> avail_ok q = avail_ok p"
    "executing q = executing p \<Longrightarrow> accepted q = accepted p \<Longrightarrow> completed q = completed p \<Longrightarrow>
       active q = active p \<Longrightarrow> inv_count q = inv_count p"
    "pending q = pending p \<Longrightarrow> waiters q = waiters p \<Longrightarrow> queueHead q = queueHead p \<Longrightarrow> inv_queue q = inv_queue p"
    by (simp_all add: inv_defs avail_ok_def fun_eq_iff m l assms)
qed

subsection \<open>Configure\<close>

lemma refreshOne_frame [simp]:
  "sandboxes (refreshOne p i) = sandboxes p" "waiters (refreshOne p i) = waiters p"
  "pending (refreshOne p i) = pending p" "frame D W d p0 (refreshOne p i) \<longleftrightarrow> frame D W d p0 p"
  by (simp_all add: refreshOne_def split: option.split)

lemma refreshOne_parts:
  assumes "parts_except R p"
  shows "parts_except (R - {r. map_of (sandboxes p) i = Some r}) (refreshOne p i)"
proof (cases "map_of (sandboxes p) i")
  case None
  then show ?thesis
    using assms by (simp add: refreshOne_def)
next
  case (Some r)
  have "mapped p r"
    using assms Some inv_map_mapped by (auto simp: parts_except_def)
  moreover have "R - {r'. map_of (sandboxes p) i = Some r'} = R - {r}"
    using Some by auto
  ultimately show ?thesis
    using parts_except_refresh[OF assms] Some by (simp add: refreshOne_def)
qed

lemma refresh_fold_frame [simp]:
  "sandboxes (foldl refreshOne p order) = sandboxes p" "waiters (foldl refreshOne p order) = waiters p"
  "pending (foldl refreshOne p order) = pending p" "frame D W d p0 (foldl refreshOne p order) \<longleftrightarrow> frame D W d p0 p"
  by (induction order arbitrary: p) simp_all

lemma refresh_fold_parts:
  "parts_except R p \<Longrightarrow>
     parts_except (R - {r. \<exists>i \<in> set order. map_of (sandboxes p) i = Some r}) (foldl refreshOne p order)"
proof (induction order arbitrary: p R)
  case (Cons i order)
  have "parts_except (R - {r. map_of (sandboxes p) i = Some r} - {r. \<exists>j \<in> set order. map_of (sandboxes p) j = Some r})
      (foldl refreshOne (refreshOne p i) order)"
    using Cons.IH[OF refreshOne_parts[OF Cons.prems]] by simp
  moreover have "R - {r. map_of (sandboxes p) i = Some r} - {r. \<exists>j \<in> set order. map_of (sandboxes p) j = Some r} =
      R - {r. \<exists>j \<in> set (i # order). map_of (sandboxes p) j = Some r}"
    by auto
  ultimately show ?case
    by simp
qed simp

lemma Configure_ok:
  assumes "pool_inv p" "fst ` set (sandboxes p) \<subseteq> set order"
  shows "op_ok {} {} (\<lambda>_. 0) p (Configure err now order newLimit newDepth p)"
proof -
  let ?p1 = "p\<lparr>limit := normalizeLimit newLimit, queueDepth := (if newDepth \<le> 0 then DefaultQueueDepth else newDepth)\<rparr>"
  let ?p2 = "foldl refreshOne ?p1 order"
  have parts: "pool_parts p"
    using assms(1) by (simp add: pool_inv_def)
  note C = inv_cong[of ?p1 p]
  have mapped: "mapped ?p1 = mapped p"
    by (rule C) simp_all
  have "inv_map ?p1" "inv_ready ?p1" "inv_count ?p1" "inv_chan ?p1" "inv_queue ?p1"
    using pool_partsD[OF parts] C by simp_all
  moreover have "avail_ok ?p1 r" if "r < length (heap p)" "\<not> mapped p r" for r
    using inv_readyD(4)[OF pool_partsD(2)[OF parts] that(1)] that(2) by (auto simp: avail_ok_def mapped)
  ultimately have "parts_except {r. mapped p r} ?p1"
    by (simp add: parts_except_def)
  from refresh_fold_parts[OF this, of order]
  have "parts_except ({r. mapped p r} - {r. \<exists>i \<in> set order. map_of (sandboxes p) i = Some r}) ?p2"
    by simp
  moreover have "{r. mapped p r} - {r. \<exists>i \<in> set order. map_of (sandboxes p) i = Some r} = {}"
    using assms(2) by (force simp: mapped_def dest: map_of_SomeD)
  ultimately have "pool_parts ?p2"
    by (simp add: parts_except_empty)
  moreover have "frame {} {} (\<lambda>_. 0) p ?p2"
    using frame_same[of ?p1 p] by simp
  ultimately show ?thesis
    by (simp add: Configure_def Let_def op_ok_dispatch)
qed

subsection \<open>Add and Sync\<close>

text \<open>A sandbox the pool knows gets a new target with the same instance ID; the refresh finds nothing to do.\<close>

lemma retarget_parts:
  assumes "pool_parts p" "\<not> closed p" "map_of (sandboxes p) (InstanceID t) = Some r"
  shows "refreshReadyLocked r (set_sandbox r (\<lambda>s. s\<lparr>target := t\<rparr>) p) = set_sandbox r (\<lambda>s. s\<lparr>target := t\<rparr>) p"
    and "pool_parts (set_sandbox r (\<lambda>s. s\<lparr>target := t\<rparr>) p)"
    and "frame D {} (\<lambda>_. 0) p (set_sandbox r (\<lambda>s. s\<lparr>target := t\<rparr>) p)"
proof -
  let ?s = "(heap p ! r)\<lparr>target := t\<rparr>" and ?q = "set_sandbox r (\<lambda>s. s\<lparr>target := t\<rparr>) p"
  note P = pool_partsD[OF assms(1)]
  have m: "mapped p r"
    by (rule inv_map_mapped[OF P(1) assms(3)])
  have tw: "tweaked r ?s p ?q"
    using m mapped_unique[OF P(1) assms(3)] by (simp add: tweaked_def mapped_def)
  note T = tweakedD[OF tw]
  have live: "live ?q = live p"
    using tweaked_live[OF tw] by (auto simp: live_def)
  have avail: "avail_ok ?q x" if "x < length (heap p)" for x
  proof (cases "x = r")
    case True
    have "avail_ok p r"
      using P(3) that True by (simp add: inv_avail_def)
    then show ?thesis
      unfolding True avail_ok_def T(3,5,6,9,10) by simp
  next
    case False
    then show ?thesis
      using P(3) that tweaked_avail_ok[OF tw] by (simp add: inv_avail_def)
  qed
  have "inv_map ?q" "inv_queue ?q" "inv_ready ?q"
    using tweaked_inv_map[OF tw P(1)] tweaked_inv_queue[OF tw P(6)] tweaked_inv_ready[OF tw P(2)]
      inv_readyD(5)[OF P(2) T(1)] by simp_all
  moreover have "inv_count ?q"
    by (rule tweaked_inv_count[OF tw P(4)]) (use P(4) T(1) live in \<open>simp_all add: inv_count_def\<close>)
  moreover have "inv_chan ?q"
    by (rule tweaked_inv_chan[OF tw P(5)]) (use P(5) T(1) in \<open>auto simp: inv_chan_def\<close>)
  moreover have "inv_avail ?q"
    using avail T(2) by (simp add: inv_avail_def)
  ultimately show parts: "pool_parts ?q"
    by (simp add: pool_parts_def)
  show "refreshReadyLocked r ?q = ?q"
    by (rule refreshReadyLocked_noop[OF pool_partsD(2,3)[OF parts]]) (use T(6) m assms(2) in simp_all)
  show "frame D {} (\<lambda>_. 0) p ?q"
    by (rule frame_tweaked[OF tw]) auto
qed

definition allocated :: "Sandbox \<Rightarrow> SandboxPool \<Rightarrow> SandboxPool" where
  "allocated t p =
     p\<lparr>heap := heap p @ [newSandbox t],
       sandboxes := AList.update (InstanceID t) (length (heap p)) (sandboxes p), active := active p + 1\<rparr>"

lemma allocated_mapped:
  assumes "inv_map p" "map_of (sandboxes p) (InstanceID t) = None"
  shows "mapped (allocated t p) x \<longleftrightarrow> mapped p x \<or> x = length (heap p)"
proof (cases "x < length (heap p)")
  case True
  then have "InstanceID (target (heap p ! x)) = InstanceID t \<Longrightarrow> \<not> mapped p x"
    using assms(2) by (simp add: mapped_def)
  with True show ?thesis
    by (auto simp: mapped_def allocated_def nth_append go_map_simps)
next
  case False
  then show ?thesis
    by (auto simp: mapped_def allocated_def nth_append go_map_simps newSandbox_def)
qed

lemma allocated_parts:
  assumes "pool_parts p" "map_of (sandboxes p) (InstanceID t) = None"
  shows "parts_except {length (heap p)} (allocated t p)"
proof -
  let ?q = "allocated t p" and ?n = "length (heap p)"
  note P = pool_partsD[OF assms(1)] and M = allocated_mapped[OF pool_partsD(1)[OF assms(1)] assms(2)]
  have len: "length (heap ?q) = Suc ?n"
    by (simp add: allocated_def)
  have old: "x < ?n \<Longrightarrow> heap ?q ! x = heap p ! x" and new: "heap ?q ! ?n = newSandbox t" for x
    by (simp_all add: allocated_def nth_append)
  have F: "ready ?q = ready p" "closed ?q = closed p" "limit ?q = limit p" "pending ?q = pending p"
    "waiters ?q = waiters p" "queueHead ?q = queueHead p" "executing ?q = executing p" "accepted ?q = accepted p"
    "completed ?q = completed p" "active ?q = active p + 1"
    by (simp_all add: allocated_def)
  have "inv_map ?q"
    unfolding inv_map_def
  proof (intro conjI allI impI)
    show "gomap_inv (sandboxes ?q)"
      using P(1) by (simp add: allocated_def inv_map_def)
  next
    fix i r
    assume "map_of (sandboxes ?q) i = Some r"
    then have "i = InstanceID t \<and> r = ?n \<or> map_of (sandboxes p) i = Some r"
      by (auto simp: allocated_def go_map_simps split: if_splits)
    moreover have "map_of (sandboxes p) i = Some r \<Longrightarrow> r < ?n \<and> InstanceID (target (heap p ! r)) = i"
      using P(1) unfolding inv_map_def by blast
    ultimately show "r < length (heap ?q)" "InstanceID (target (heap ?q ! r)) = i"
      using old[of r] new by (auto simp: len newSandbox_def)
  qed
  moreover have "inv_ready ?q"
  proof (rule inv_readyI)
    show "distinct (ready ?q)"
      using inv_readyD(1)[OF P(2)] F by simp
    show "x < length (heap ?q) \<and> ready_elem (heap ?q ! x)" if "x \<in> set (ready ?q)" for x
      using that inv_readyD(2,3)[OF P(2), of x] old[of x] F len by simp
    show "mapped ?q x \<and> \<not> draining (heap ?q ! x) \<and> (\<not> closed ?q \<longrightarrow> x \<in> set (ready ?q))"
      if x: "x < length (heap ?q)" "ready_elem (heap ?q ! x)" for x
    proof -
      have lt: "x < ?n"
        using x new by (cases "x = ?n") (auto simp: newSandbox_def len)
      then show ?thesis
        using inv_readyD(4-6)[OF P(2) lt] x(2) old[OF lt] F M by auto
    qed
  qed
  moreover have "inv_count ?q"
  proof -
    have "live ?q = insert ?n (live p)"
      using M old new by (auto simp: live_def newSandbox_def mapped_def)
    moreover have "?n \<notin> live p"
      by (simp add: live_def mapped_def)
    moreover have "(\<Sum>x < length (heap ?q). inFlight (heap ?q ! x)) = (\<Sum>x < ?n. inFlight (heap p ! x))"
      using sum_nth_snoc[of inFlight "heap p" "newSandbox t"] by (simp add: allocated_def newSandbox_def)
    moreover have "0 \<le> inFlight (heap ?q ! x)" if "x < Suc ?n" for x
      using that P(4) old[of x] new by (cases "x = ?n") (auto simp: inv_count_def newSandbox_def)
    ultimately show ?thesis
      using P(4) by (simp add: inv_count_def F len)
  qed
  moreover have "inv_chan ?q"
    unfolding inv_chan_def F(2) len
  proof (intro allI impI)
    fix x
    assume "x < Suc ?n"
    then show "(draining (heap ?q ! x) \<longleftrightarrow> drained (heap ?q ! x) \<noteq> None) \<and>
        (drained (heap ?q ! x) = Some True \<longrightarrow> inFlight (heap ?q ! x) = 0) \<and>
        (\<not> closed p \<and> drained (heap ?q ! x) = Some False \<longrightarrow> inFlight (heap ?q ! x) > 0)"
      using P(5) old[of x] new by (cases "x = ?n") (simp_all add: inv_chan_def newSandbox_def)
  qed
  moreover have "inv_queue ?q"
    using P(6) F len by (auto simp: inv_queue_def)
  moreover have "avail_ok ?q x" if "x < ?n" for x
    using P(3) that old[OF that] M[of x] by (simp add: inv_avail_def avail_ok_def F)
  ultimately show ?thesis
    by (auto simp: parts_except_def len less_Suc_eq)
qed

lemma grants_fresh:
  assumes "inv_queue p" "length (heap p) \<le> r" "set ws \<subseteq> {..<length (waiters p)}"
  shows "grants (waiters p) ws r = 0"
proof -
  have "result (waiters p ! w) \<noteq> Some (Granted r)" if "w \<in> set ws" for w
  proof
    assume "result (waiters p ! w) = Some (Granted r)"
    moreover have "w < length (waiters p)"
      using that assms(3) by auto
    ultimately have "r < length (heap p)"
      using assms(1) unfolding inv_queue_def by blast
    with assms(2) show False
      by simp
  qed
  then show ?thesis
    by (simp add: grants_def filter_empty_conv)
qed

lemma frame_allocated:
  assumes "frame D W (\<lambda>_. 0) p q" "inv_queue q" "waiters q = waiters p"
  shows "frame D W (\<lambda>_. 0) p (allocated t q)"
proof -
  let ?n = "length (heap q)"
  have old: "x < ?n \<Longrightarrow> heap (allocated t q) ! x = heap q ! x" and new: "heap (allocated t q) ! ?n = newSandbox t" for x
    by (simp_all add: allocated_def nth_append)
  have F: "length (heap (allocated t q)) = Suc ?n" "waiters (allocated t q) = waiters q" "pending (allocated t q) = pending q"
    by (simp_all add: allocated_def)
  have le: "length (heap p) \<le> ?n"
    using assms(1) by (simp add: frame_def)
  have owed: "owed (allocated t q) ws x = (if x = ?n then 0 else owed q ws x)"
    if "x < Suc ?n" "set ws \<subseteq> {..<length (waiters p)}" for ws x
    using that old[of x] new grants_fresh[OF assms(2), of ?n ws] assms(3)
    by (cases "x = ?n") (simp_all add: owed_def F newSandbox_def)
  have "owed (allocated t q) ws x = (if x < length (heap p) then owed p ws x else 0)"
    if "distinct ws" "set (pending p) \<subseteq> set ws" "set ws \<subseteq> {..<length (waiters p)}" "x < Suc ?n" for ws x
    using that owed[of x ws] assms(1) le by (cases "x = ?n") (auto simp: frame_def)
  moreover have more: "inFlight (heap (allocated t q) ! x) \<le> limit (allocated t q) \<and> \<not> draining (heap (allocated t q) ! x)"
    if "x < Suc ?n" "(if x < length (heap p) then inFlight (heap p ! x) else 0) < inFlight (heap (allocated t q) ! x)" for x
    using assms(1) that old[of x] new le unfolding frame_def
    by (cases "x = ?n") (auto simp: newSandbox_def allocated_def)
  moreover have "draining (heap (allocated t q) ! x) = draining (heap q ! x)"
    "drained (heap (allocated t q) ! x) = drained (heap q ! x)" if "x < length (heap p)" for x
    using old[of x] that le by simp_all
  ultimately show ?thesis
    using assms(1) more unfolding frame_def F by simp
qed

lemma insertSandbox_allocated: "insertSandbox t p = refreshReadyLocked (length (heap p)) (allocated t p)"
  by (simp add: insertSandbox_def allocated_def)

lemma insertSandbox_ok:
  assumes "pool_parts q" "map_of (sandboxes q) (InstanceID t) = None"
    and "frame D W (\<lambda>_. 0) p q" "waiters q = waiters p" "pending q = pending p"
  shows "pool_parts (insertSandbox t q)" "frame D W (\<lambda>_. 0) p (insertSandbox t q)"
    "waiters (insertSandbox t q) = waiters p" "pending (insertSandbox t q) = pending p"
    "closed (insertSandbox t q) = closed q"
proof -
  have "mapped (allocated t q) (length (heap q))"
    using allocated_mapped[OF pool_partsD(1)[OF assms(1)] assms(2)] by simp
  then show "pool_parts (insertSandbox t q)"
    unfolding insertSandbox_allocated by (rule pool_parts_refresh[OF allocated_parts[OF assms(1,2)]])
  show "frame D W (\<lambda>_. 0) p (insertSandbox t q)"
    unfolding insertSandbox_allocated using frame_allocated[OF assms(3) pool_partsD(6)[OF assms(1)] assms(4)] by simp
  show "waiters (insertSandbox t q) = waiters p" "pending (insertSandbox t q) = pending p"
    "closed (insertSandbox t q) = closed q"
    using assms(4,5) by (simp_all add: insertSandbox_def)
qed

lemma Add_ok:
  assumes "pool_inv p"
  shows "op_ok {} {} (\<lambda>_. 0) p (Add err now t p)"
proof -
  have parts: "pool_parts p"
    using assms by (simp add: pool_inv_def)
  show ?thesis
  proof (cases "InstanceID t = 0 \<or> Address t = [] \<or> closed p")
    case True
    then have "Add err now t p = p"
      by (auto simp: Add_def)
    then show ?thesis
      using assms op_ok_refl by simp
  next
    case False
    then have open': "\<not> closed p"
      by simp
    show ?thesis
    proof (cases "map_of (sandboxes p) (InstanceID t)")
      case (Some r)
      note K = retarget_parts[OF parts open' Some]
      have "no_idle_wait (set_sandbox r (\<lambda>s. s\<lparr>target := t\<rparr>) p)"
        using assms by (simp add: pool_inv_def no_idle_wait_def)
      moreover have "Add err now t p = set_sandbox r (\<lambda>s. s\<lparr>target := t\<rparr>) p"
        using False Some K(1) by (simp add: Add_def)
      ultimately show ?thesis
        using K(2,3) by (simp add: op_ok_def pool_inv_def)
    next
      case None
      note I = insertSandbox_ok[OF parts None frame_refl refl refl]
      have "op_ok {} {} (\<lambda>_. 0) p (dispatchLocked err now (insertSandbox t p))"
        by (rule op_ok_dispatch) (use I in simp_all)
      then show ?thesis
        using False None by (simp add: Add_def)
    qed
  qed
qed

text \<open>Forgetting a sandbox that is not in the ready list.\<close>

lemma unmapped_parts:
  assumes "parts_except {r} p" "map_of (sandboxes p) i = Some r" "\<not> ready_elem (heap p ! r)"
    and "a = active p - (if draining (heap p ! r) then 0 else 1)"
  shows "pool_parts (p\<lparr>sandboxes := AList.delete i (sandboxes p), active := a\<rparr>)" (is "pool_parts ?q")
proof -
  have P: "inv_map p" "inv_ready p" "\<And>x. x < length (heap p) \<Longrightarrow> x \<noteq> r \<Longrightarrow> avail_ok p x"
    "inv_count p" "inv_chan p" "inv_queue p"
    using assms(1) by (simp_all add: parts_except_def)
  have m: "mapped p r" and i: "i = InstanceID (target (heap p ! r))"
    using inv_map_mapped[OF P(1) assms(2)] mapped_unique[OF P(1) assms(2)] by auto
  have M: "mapped ?q x \<longleftrightarrow> mapped p x \<and> x \<noteq> r" for x
  proof (cases "x = r")
    case True
    then show ?thesis
      by (simp add: mapped_def go_map_simps i)
  next
    case False
    have "mapped p x \<Longrightarrow> InstanceID (target (heap p ! x)) \<noteq> i"
      using False assms(2) by (auto simp: mapped_def)
    then show ?thesis
      using False by (auto simp: mapped_def go_map_simps)
  qed
  have "inv_map ?q"
    using P(1) by (auto simp: inv_map_def go_map_simps split: if_splits)
  moreover have "inv_ready ?q"
  proof (rule inv_readyI)
    show "distinct (ready ?q)"
      using inv_readyD(1)[OF P(2)] by simp
    show "x < length (heap ?q) \<and> ready_elem (heap ?q ! x)" if "x \<in> set (ready ?q)" for x
      using that inv_readyD(2,3)[OF P(2), of x] by simp
    show "mapped ?q x \<and> \<not> draining (heap ?q ! x) \<and> (\<not> closed ?q \<longrightarrow> x \<in> set (ready ?q))"
      if "x < length (heap ?q)" "ready_elem (heap ?q ! x)" for x
    proof -
      have x: "x < length (heap p)" "ready_elem (heap p ! x)"
        using that by simp_all
      then have "x \<noteq> r"
        using assms(3) by blast
      then show ?thesis
        using inv_readyD(4-6)[OF P(2) x] M by simp
    qed
  qed
  moreover have "inv_avail ?q"
    unfolding inv_avail_def
  proof (intro allI impI)
    fix x
    assume "x < length (heap ?q)"
    then have "x = r \<or> avail_ok p x"
      using P(3) by auto
    then show "avail_ok ?q x"
      unfolding avail_ok_def M using assms(3) by auto
  qed
  moreover have "inv_count ?q"
  proof -
    have live: "live ?q = live p - {r}"
      using M by (auto simp: live_def)
    have "int (card (live ?q)) = a"
    proof (cases "draining (heap p ! r)")
      case True
      then have "r \<notin> live p"
        by (simp add: live_def)
      then show ?thesis
        using P(4) assms(4) True unfolding live by (simp add: inv_count_def)
    next
      case False
      then have "r \<in> live p"
        using m by (simp add: live_def)
      then show ?thesis
        using P(4) assms(4) False card_live_remove unfolding live by (simp add: inv_count_def)
    qed
    then show ?thesis
      using P(4) by (simp add: inv_count_def)
  qed
  moreover have "inv_chan ?q" "inv_queue ?q"
    using P(5,6) by (simp_all add: inv_chan_def inv_queue_def)
  ultimately show ?thesis
    by (simp add: pool_parts_def)
qed

lemma removeReady_parts:
  "pool_parts p \<Longrightarrow> r < length (heap p) \<Longrightarrow> parts_except {r} (removeReadyLocked r p)"
  by (auto simp: parts_except_def pool_parts_def inv_avail_def inv_ready_removeReadyLocked avail_ok_removeReadyLocked)

text \<open>Taking a sandbox off the ready list and forgetting it, as \<^verbatim>\<open>Remove\<close> and \<^verbatim>\<open>Sync\<close> do.\<close>

lemma forget_ok:
  assumes "pool_parts q" "map_of (sandboxes q) i = Some r"
    and "a = active q - (if draining (heap q ! r) then 0 else 1)"
  shows "pool_parts ((removeReadyLocked r q)\<lparr>sandboxes := AList.delete i (sandboxes q), active := a\<rparr>)"
    and "frame D W d p ((removeReadyLocked r q)\<lparr>sandboxes := AList.delete i (sandboxes q), active := a\<rparr>) \<longleftrightarrow> frame D W d p q"
proof -
  let ?q = "removeReadyLocked r q"
  have r: "r < length (heap q)"
    using inv_map_mapped[OF pool_partsD(1)[OF assms(1)] assms(2)] by (simp add: mapped_def)
  have "pool_parts (?q\<lparr>sandboxes := AList.delete i (sandboxes ?q), active := a\<rparr>)"
    by (rule unmapped_parts[OF removeReady_parts[OF assms(1) r]])
      (use assms(2,3) r in \<open>simp_all add: ready_elem_removeReadyLocked\<close>)
  then show "pool_parts (?q\<lparr>sandboxes := AList.delete i (sandboxes q), active := a\<rparr>)"
    by simp
  show "frame D W d p (?q\<lparr>sandboxes := AList.delete i (sandboxes q), active := a\<rparr>) \<longleftrightarrow> frame D W d p q"
    using frame_fields_cong[of "?q\<lparr>sandboxes := AList.delete i (sandboxes q), active := a\<rparr>" ?q] by simp
qed

lemma no_idle_wait_forget: "no_idle_wait q \<Longrightarrow> no_idle_wait ((removeReadyLocked r q)\<lparr>sandboxes := m, active := a\<rparr>)"
  by (auto simp: no_idle_wait_def removeReadyLocked_def)

lemma Remove_eq:
  "map_of (sandboxes p) i = Some r \<Longrightarrow> Remove i p =
     (removeReadyLocked r p)\<lparr>sandboxes := AList.delete i (sandboxes p),
       active := active p - (if draining (heap p ! r) then 0 else 1)\<rparr>"
  by (rule SandboxPool.equality) (simp_all add: Remove_def Let_def)

lemma Remove_ok:
  assumes "pool_inv p"
  shows "op_ok {} {} (\<lambda>_. 0) p (Remove i p)"
proof (cases "map_of (sandboxes p) i")
  case None
  then show ?thesis
    using op_ok_refl[OF assms] by (simp add: Remove_def)
next
  case (Some r)
  have parts: "pool_parts p" "no_idle_wait p"
    using assms by (simp_all add: pool_inv_def)
  show ?thesis
    unfolding Remove_eq[OF Some] op_ok_def pool_inv_def
    using forget_ok[OF parts(1) Some refl] no_idle_wait_forget[OF parts(2)] by simp
qed

definition sync_inv :: "SandboxPool \<Rightarrow> SandboxPool \<Rightarrow> bool" where
  "sync_inv p q \<longleftrightarrow> pool_parts q \<and> frame {} {} (\<lambda>_. 0) p q \<and> waiters q = waiters p \<and> pending q = pending p \<and> \<not> closed q"

lemma sync_drop_inv: "sync_inv p q \<Longrightarrow> sync_inv p (sync_drop wanted q i)"
proof (cases "map_of (sandboxes q) i")
  case (Some r)
  assume inv: "sync_inv p q"
  then have "pool_parts q"
    by (simp add: sync_inv_def)
  note F = forget_ok[OF this Some, of "active q - 1"]
  show ?thesis
    using inv F Some by (auto simp: sync_inv_def sync_drop_def Let_def)
qed (simp add: sync_drop_def)

lemma wanted_targets_key: "map_of (wanted_targets ts) i = Some t \<Longrightarrow> InstanceID t = i"
proof -
  have "\<forall>i t. map_of m i = Some t \<longrightarrow> InstanceID t = i \<Longrightarrow>
    map_of (foldl (\<lambda>m t. if InstanceID t \<noteq> 0 \<and> Address t \<noteq> [] then AList.update (InstanceID t) t m else m) m ts) i = Some t \<Longrightarrow>
    InstanceID t = i" for m
  proof (induction ts arbitrary: m)
    case (Cons u ts)
    show ?case
      by (rule Cons.IH[OF _ Cons.prems(2)[simplified]]) (use Cons.prems(1) in \<open>auto simp: go_map_simps\<close>)
  qed auto
  from this[of "[]"] show "map_of (wanted_targets ts) i = Some t \<Longrightarrow> InstanceID t = i"
    unfolding wanted_targets_def by simp
qed

lemma sync_put_inv:
  assumes "sync_inv p q"
  shows "sync_inv p (sync_put (wanted_targets ts) q i)"
proof (cases "map_of (wanted_targets ts) i")
  case None
  then show ?thesis
    using assms by (simp add: sync_put_def)
next
  case (Some t)
  have id: "InstanceID t = i"
    by (rule wanted_targets_key[OF Some])
  have Q: "pool_parts q" "frame {} {} (\<lambda>_. 0) p q" "waiters q = waiters p" "pending q = pending p" "\<not> closed q"
    using assms by (simp_all add: sync_inv_def)
  show ?thesis
  proof (cases "map_of (sandboxes q) i")
    case None
    then have "map_of (sandboxes q) (InstanceID t) = None"
      by (simp add: id)
    from insertSandbox_ok[OF Q(1) this Q(2-4)] Q(5) show ?thesis
      using Some None by (simp add: sync_put_def sync_inv_def)
  next
    case k: (Some r)
    then have known: "map_of (sandboxes q) (InstanceID t) = Some r"
      by (simp add: id)
    note K = retarget_parts[OF Q(1,5) known]
    have "frame {} {} (\<lambda>_. 0) p (set_sandbox r (\<lambda>s. s\<lparr>target := t\<rparr>) q)"
      using Q(2) by (subst frame_fields_cong[of _ q]) (simp_all add: nth_update_same)
    then show ?thesis
      using K(1,2) Q(3-5) Some k by (simp add: sync_put_def sync_inv_def)
  qed
qed

lemma sync_drop_fold: "sync_inv p q \<Longrightarrow> sync_inv p (foldl (sync_drop wanted) q order)"
  by (induction order arbitrary: q) (simp_all add: sync_drop_inv)

lemma sync_put_fold: "sync_inv p q \<Longrightarrow> sync_inv p (foldl (sync_put (wanted_targets ts)) q order)"
  by (induction order arbitrary: q) (simp_all add: sync_put_inv)

lemma Sync_ok:
  assumes "pool_inv p"
  shows "op_ok {} {} (\<lambda>_. 0) p (Sync err now order1 order2 ts p)"
proof (cases "closed p")
  case True
  then show ?thesis
    using op_ok_refl[OF assms] by (simp add: Sync_def)
next
  case False
  let ?q = "foldl (sync_put (wanted_targets ts)) (foldl (sync_drop (wanted_targets ts)) p order1) order2"
  have "sync_inv p p"
    using assms False by (simp add: sync_inv_def pool_inv_def)
  then have "sync_inv p ?q"
    by (intro sync_put_fold sync_drop_fold)
  then show ?thesis
    using False by (simp add: Sync_def Let_def sync_inv_def op_ok_dispatch)
qed

subsection \<open>Drain\<close>

lemma Drain_ok:
  assumes "pool_inv p" "Drain i p = (res, p')"
  shows "case res of Inl e \<Rightarrow> p' = p
    | Inr r \<Rightarrow> op_ok {r} {} (\<lambda>_. 0) p p' \<and> mapped p r \<and> \<not> draining (heap p ! r) \<and> draining (heap p' ! r) \<and>
        map_of (sandboxes p) i = Some r"
proof (cases "closed p \<or> map_of (sandboxes p) i = None \<or> draining (heap p ! the (map_of (sandboxes p) i))")
  case True
  then show ?thesis
    using assms(2) by (auto simp: Drain_def split: if_splits option.splits)
next
  case False
  then obtain r where r: "map_of (sandboxes p) i = Some r" "\<not> draining (heap p ! r)" "\<not> closed p"
    by auto
  have parts: "pool_parts p" "no_idle_wait p"
    using assms(1) by (simp_all add: pool_inv_def)
  note P = pool_partsD[OF parts(1)]
  have m: "mapped p r"
    by (rule inv_map_mapped[OF P(1) r(1)])
  then have lt: "r < length (heap p)"
    by (simp add: mapped_def)
  let ?q = "removeReadyLocked r p"
  let ?s = "(heap ?q ! r)\<lparr>draining := True, drained := Some (inFlight (heap ?q ! r) = 0)\<rparr>"
  let ?p' = "?q\<lparr>active := active p - 1, heap := (heap ?q)[r := ?s]\<rparr>"
  have swap: "s\<lparr>ready_elem := a, draining := b, drained := c\<rparr> = s\<lparr>draining := b, ready_elem := a, drained := c\<rparr>"
    "p\<lparr>ready := rs, active := n, heap := h\<rparr> = p\<lparr>active := n, ready := rs, heap := h\<rparr>" for s :: pooledSandbox and a b c rs n h
    by (cases s, simp) (cases p, simp)
  have run: "res = Inr r" "p' = ?p'"
    using assms(2) r lt by (auto simp: Drain_def Let_def removeReadyLocked_def nth_update_same swap)
  have Q: "inv_map ?q" "inv_ready ?q" "\<And>x. x < length (heap p) \<Longrightarrow> x \<noteq> r \<Longrightarrow> avail_ok ?q x"
    "inv_count ?q" "inv_chan ?q" "inv_queue ?q"
    using removeReady_parts[OF parts(1) lt] by (simp_all add: parts_except_def)
  have tw: "tweaked r ?s ?q ?p'"
    using lt by (simp add: tweaked_def)
  note T = tweakedD[OF tw]
  have e: "\<not> ready_elem (heap ?q ! r)"
    using lt by (simp add: ready_elem_removeReadyLocked)
  have live: "live ?p' = live p - {r}" "r \<in> live p"
    using tweaked_live[OF tw] m r(2) by (simp_all add: live_def)
  have "inv_map ?p'" "inv_ready ?p'" "inv_queue ?p'"
    using tweaked_inv_map[OF tw Q(1)] tweaked_inv_ready[OF tw Q(2)] tweaked_inv_queue[OF tw Q(6)] e by auto
  moreover have "inv_count ?p'"
    by (rule tweaked_inv_count[OF tw Q(4)])
      (use P(4) lt live card_live_remove[OF live(2)] in \<open>simp_all add: inv_count_def\<close>)
  moreover have "inv_chan ?p'"
    by (rule tweaked_inv_chan[OF tw Q(5)])
      (use P(4) lt in \<open>auto simp: inv_count_def order.strict_iff_order\<close>)
  moreover have "inv_avail ?p'"
    unfolding inv_avail_def
  proof (intro allI impI)
    fix x
    assume "x < length (heap ?p')"
    then show "avail_ok ?p' x"
      using Q(3)[of x] tweaked_avail_ok[OF tw, of x] tweaked_avail_off[OF tw e] by (cases "x = r") auto
  qed
  ultimately have "pool_parts ?p'"
    by (simp add: pool_parts_def)
  moreover have "no_idle_wait ?p'"
    using parts(2) by (auto simp: no_idle_wait_def removeReadyLocked_def)
  moreover have "frame {r} {} (\<lambda>_. 0) p ?p'"
  proof -
    have "\<exists>n. pending p = drop n (pending p)"
      by (rule exI[of _ 0]) simp
    then show ?thesis
      using lt by (auto simp: frame_def owed_def nth_update_same)
  qed
  ultimately show ?thesis
    using m r lt unfolding run by (simp add: op_ok_def pool_inv_def nth_update_same)
qed

lemma undrain_ok:
  assumes "pool_inv p" "mapped p r" "draining (heap p ! r)"
  shows "op_ok {r} {} (\<lambda>_. 0) p (undrain err now r p)"
proof -
  let ?s = "(heap p ! r)\<lparr>draining := False, drained := None\<rparr>"
  let ?q = "p\<lparr>heap := (heap p)[r := ?s], active := active p + 1\<rparr>"
  have parts: "pool_parts p"
    using assms(1) by (simp add: pool_inv_def)
  note P = pool_partsD[OF parts]
  have lt: "r < length (heap p)"
    using assms(2) by (simp add: mapped_def)
  have tw: "tweaked r ?s p ?q"
    using lt by (simp add: tweaked_def)
  note T = tweakedD[OF tw]
  have live: "live ?q = insert r (live p)" "r \<notin> live p"
    using tweaked_live[OF tw] assms(2,3) by (simp_all add: live_def)
  have "inv_map ?q" "inv_ready ?q" "inv_queue ?q"
    using tweaked_inv_map[OF tw P(1)] tweaked_inv_ready[OF tw P(2)] tweaked_inv_queue[OF tw P(6)] by auto
  moreover have "inv_count ?q"
    by (rule tweaked_inv_count[OF tw P(4)]) (use P(4) lt live in \<open>simp_all add: inv_count_def\<close>)
  moreover have "inv_chan ?q"
    by (rule tweaked_inv_chan[OF tw P(5)]) auto
  moreover have "\<forall>x < length (heap ?q). x \<notin> {r} \<longrightarrow> avail_ok ?q x"
    using P(3) tweaked_avail_ok[OF tw] by (simp add: inv_avail_def)
  ultimately have "parts_except {r} ?q"
    by (simp add: parts_except_def)
  then have "pool_parts (refreshReadyLocked r ?q)"
    by (rule pool_parts_refresh) (use T(6) assms(2) in simp)
  moreover have "frame {r} {} (\<lambda>_. 0) p ?q"
    by (rule frame_tweaked[OF tw]) auto
  ultimately have "op_ok {r} {} (\<lambda>_. 0) p (dispatchLocked err now (refreshReadyLocked r ?q))"
    by (intro op_ok_dispatch) simp_all
  then show ?thesis
    by (simp add: undrain_def Let_def)
qed

lemma finishDrain_ok:
  assumes "pool_inv p"
  shows "op_ok {r} {} (\<lambda>_. 0) p (finishDrain err now i r stopped p)"
proof (cases "map_of (sandboxes p) i = Some r \<and> draining (heap p ! r)")
  case False
  then show ?thesis
    using op_ok_refl[OF assms] by (auto simp: finishDrain_def)
next
  case True
  have parts: "pool_parts p" "no_idle_wait p"
    using assms by (simp_all add: pool_inv_def)
  note P = pool_partsD[OF parts(1)]
  have m: "mapped p r"
    using inv_map_mapped[OF P(1)] True by blast
  have e: "\<not> ready_elem (heap p ! r)"
    using inv_readyD(5)[OF P(2)] m True by (auto simp: mapped_def)
  show ?thesis
  proof (cases stopped)
    case False
    then show ?thesis
      using undrain_ok[OF assms m] True by (simp add: finishDrain_def)
  next
    case stop: True
    let ?q = "p\<lparr>sandboxes := AList.delete i (sandboxes p), active := active p\<rparr>"
    have "parts_except {r} p"
      using parts(1) by (auto simp: parts_except_empty[symmetric] intro: parts_except_weaken)
    then have "pool_parts ?q"
      by (rule unmapped_parts) (use True e in auto)
    moreover have "no_idle_wait ?q" "frame {r} {} (\<lambda>_. 0) p ?q"
      using parts(2) frame_same[of ?q p] by (simp_all add: no_idle_wait_def)
    moreover have "finishDrain err now i r stopped p = ?q"
      using True stop by (simp add: finishDrain_def)
    ultimately show ?thesis
      by (simp add: op_ok_def pool_inv_def)
  qed
qed

lemma restore_ok:
  assumes "pool_inv p" "r < length (heap p)"
  shows "op_ok {r} {} (\<lambda>_. 0) p (restore err now r p)"
proof (cases "mapped p r \<and> draining (heap p ! r)")
  case True
  then show ?thesis
    using undrain_ok[OF assms(1)] by (simp add: restore_def mapped_def)
next
  case False
  then show ?thesis
    using op_ok_refl[OF assms(1)] assms(2) by (auto simp: restore_def mapped_def)
qed

subsection \<open>Acquire\<close>

lemma acquire_ok:
  assumes "pool_parts p" "ready p = r # rest" "acquireLocked now p = (Some r, p1)"
  shows "frame {} {} (\<lambda>x. if x = r then 1 else 0) p p1" "inFlight (heap p1 ! r) \<le> limit p"
proof -
  note A = acquire_dispatched[OF assms]
  have D: "length (heap p1) = length (heap p)" "draining (heap p1 ! x) = draining (heap p ! x)"
    "drained (heap p1 ! x) = drained (heap p ! x)" for x
    using A(1) by (simp_all add: dispatched_def)
  show lim: "inFlight (heap p1 ! r) \<le> limit p"
    using ready_sandbox(6)[OF assms(1), of r] assms(2) by (simp add: A(4))
  have "\<exists>n. pending p = drop n (pending p)"
    by (rule exI[of _ 0]) simp
  moreover have "limit p1 = limit p"
    using A(1) by (simp add: dispatched_def)
  moreover have "\<not> draining (heap p ! r)"
    using ready_sandbox(4)[OF assms(1), of r] assms(2) by simp
  ultimately show "frame {} {} (\<lambda>x. if x = r then 1 else 0) p p1"
    using lim by (simp add: frame_def owed_def D A(2-4))
qed

text \<open>What the pool looks like after a request has joined the queue.\<close>

definition enqueued :: "int \<Rightarrow> nat \<Rightarrow> SandboxPool \<Rightarrow> SandboxPool \<Rightarrow> bool" where
  "enqueued now c p p' \<longleftrightarrow>
     waiters p' = waiters p @ [\<lparr>wctx = c, result = None, elem = True\<rparr>] \<and> pending p' = pending p @ [length (waiters p)] \<and>
     queueHead p' = (if queueHead p = None then Some now else queueHead p) \<and>
     heap p' = heap p \<and> sandboxes p' = sandboxes p \<and> ready p' = ready p \<and> closed p' = closed p \<and> limit p' = limit p \<and>
     queueDepth p' = queueDepth p \<and> executing p' = executing p \<and> accepted p' = accepted p \<and>
     completed p' = completed p \<and> active p' = active p \<and>
     highWater p' = max (highWater p) (executing p + int (length (pending p)) + 1)"

lemma enqueueWaiter_enqueued:
  "int (length (pending p)) < queueDepth p \<Longrightarrow>
     \<exists>p'. enqueueWaiter now c p = (AcqWaits (length (waiters p)), p') \<and> enqueued now c p p'"
  by (auto simp: enqueueWaiter_def enqueued_def noteDemandLocked_def Let_def max_def)

lemma enqueued_ok:
  assumes "pool_parts p" "ready p = []" "\<not> closed p" "enqueued now c p p'"
  shows "pool_inv p'"
proof -
  note E = assms(4)[unfolded enqueued_def]
  have old: "w < length (waiters p) \<Longrightarrow> waiters p' ! w = waiters p ! w" for w
    using E by (simp add: nth_append)
  have new: "waiters p' ! length (waiters p) = \<lparr>wctx = c, result = None, elem = True\<rparr>"
    using E by simp
  have Q: "inv_queue p"
    using assms(1) by (simp add: pool_parts_def)
  have "inv_queue p'"
    unfolding inv_queue_def
  proof (intro conjI allI impI)
    show "distinct (pending p')"
      using Q E inv_queueD(1)[OF Q] by (auto simp: inv_queue_def)
    show "w \<in> set (pending p') \<longleftrightarrow> w < length (waiters p') \<and> elem (waiters p' ! w)" for w
      using Q E old[of w] new by (cases "w = length (waiters p)") (auto simp: inv_queue_def less_Suc_eq)
    show "result (waiters p' ! w) = None" if "w < length (waiters p')" "elem (waiters p' ! w)" for w
      using that Q E old[of w] new by (cases "w = length (waiters p)") (auto simp: inv_queue_def less_Suc_eq)
    show "r < length (heap p')" if "w < length (waiters p')" "result (waiters p' ! w) = Some (Granted r)" for w r
      using that Q E old[of w] new by (cases "w = length (waiters p)") (auto simp: inv_queue_def less_Suc_eq)
    show "pending p' = []" if "closed p'"
      using that assms(3) E by simp
    show "queueHead p' \<noteq> None"
      using E by auto
  qed
  then have "pool_parts p'"
    by (rule parts_cong[OF assms(1)]) (use E in simp_all)
  moreover have "no_idle_wait p'"
    using assms(2) E by (simp add: no_idle_wait_def)
  ultimately show ?thesis
    by (simp add: pool_inv_def)
qed

text \<open>The four ways in which the first part of \<^verbatim>\<open>Acquire\<close> can end.\<close>

lemma Acquire_cases:
  assumes "pool_inv p"
  obtains (refused) e where "Acquire err now c p = (AcqError e, p)"
      "e = ErrContext \<and> err c \<or> e = ErrPoolClosed \<and> closed p \<or>
       e = ErrQueueFull \<and> ready p = [] \<and> queueDepth p \<le> int (length (pending p))"
    | (lease) r rest p' where "Acquire err now c p = (AcqLease r, p')" "ready p = r # rest" "pending p = []"
        "acquireLocked now p = (Some r, p')" "op_ok {} {} (\<lambda>x. if x = r then 1 else 0) p p'" "inFlight (heap p' ! r) \<le> limit p"
    | (waits) p' where "Acquire err now c p = (AcqWaits (length (waiters p)), p')" "ready p = []" "enqueued now c p p'"
        "pool_inv p'" "int (length (pending p)) < queueDepth p"
proof -
  have parts: "pool_parts p" "no_idle_wait p"
    using assms by (simp_all add: pool_inv_def)
  show thesis
  proof (cases "err c \<or> closed p")
    case True
    then show thesis
      by (intro refused[of "if err c then ErrContext else ErrPoolClosed"]) (auto simp: Acquire_def)
  next
    case False
    show thesis
    proof (cases "ready p")
      case Nil
      have go: "Acquire err now c p = enqueueWaiter now c p"
        using False Nil by (simp add: Acquire_def acquireLocked_None)
      show thesis
      proof (cases "int (length (pending p)) < queueDepth p")
        case True
        obtain p' where p': "enqueueWaiter now c p = (AcqWaits (length (waiters p)), p')" "enqueued now c p p'"
          using enqueueWaiter_enqueued[OF True] by blast
        from enqueued_ok[OF parts(1) Nil _ p'(2)] False have "pool_inv p'"
          by simp
        then show thesis
          using waits p' go Nil True by simp
      next
        case full: False
        then show thesis
          by (intro refused[of ErrQueueFull]) (use go Nil in \<open>auto simp: enqueueWaiter_def\<close>)
      qed
    next
      case (Cons r rest)
      then have empty: "pending p = []"
        using parts(2) by (auto simp: no_idle_wait_def)
      obtain p' where p': "acquireLocked now p = (Some r, p')"
        using acquireLocked_Some[OF pool_partsD(2)[OF parts(1)] Cons, of now] by metis
      have "Acquire err now c p = (AcqLease r, p')"
        using False empty p' by (simp add: Acquire_def)
      moreover have "op_ok {} {} (\<lambda>x. if x = r then 1 else 0) p p'"
        using acquireLocked_parts[OF parts(1) Cons p'] acquire_ok[OF parts(1) Cons p']
          acquire_dispatched(3)[OF parts(1) Cons p'] empty by (simp add: op_ok_def pool_inv_def no_idle_wait_def)
      ultimately show thesis
        using lease[OF _ Cons empty p'] acquire_ok(2)[OF parts(1) Cons p'] by blast
    qed
  qed
qed

text \<open>A waiter that gives up while it is still queued.\<close>

lemma acquireCancel_queued_ok:
  assumes "pool_inv p" "w < length (waiters p)" "elem (waiters p ! w)"
  shows "\<exists>p'. acquireCancel err now w p = Inr p' \<and> op_ok {} {w} (\<lambda>_. 0) p p' \<and>
    result (waiters p' ! w) = result (waiters p ! w) \<and> w \<notin> set (pending p')"
proof -
  let ?q = "set_waiter w (\<lambda>s. s\<lparr>elem := False\<rparr>) (p\<lparr>pending := remove1 w (pending p)\<rparr>)"
  define p' where "p' = updateQueueHeadLocked ?q"
  have parts: "pool_parts p" "no_idle_wait p"
    using assms(1) by (simp_all add: pool_inv_def)
  have Q: "inv_queue p"
    using parts(1) by (simp add: pool_parts_def)
  have F: "heap p' = heap p" "sandboxes p' = sandboxes p" "ready p' = ready p" "closed p' = closed p" "limit p' = limit p"
    "executing p' = executing p" "accepted p' = accepted p" "completed p' = completed p" "active p' = active p"
    "waiters p' = (waiters p)[w := (waiters p ! w)\<lparr>elem := False\<rparr>]" "pending p' = remove1 w (pending p)"
    "queueHead p' = (if remove1 w (pending p) = [] then None else queueHead p)"
    by (simp_all add: p'_def updateQueueHeadLocked_def)
  have ws: "elem (waiters p' ! x) \<longleftrightarrow> elem (waiters p ! x) \<and> x \<noteq> w" "result (waiters p' ! x) = result (waiters p ! x)" for x
    using assms(2) by (auto simp: F nth_update_same)
  have d: "distinct (pending p)"
    using Q by (simp add: inv_queue_def)
  have "inv_queue p'"
    unfolding inv_queue_def ws F(1,4,11)
  proof (intro conjI allI impI)
    show "x \<in> set (remove1 w (pending p)) \<longleftrightarrow> x < length (waiters p') \<and> elem (waiters p ! x) \<and> x \<noteq> w" for x
      using Q d unfolding F(10) inv_queue_def by auto
    show "queueHead p' \<noteq> None" if ne: "remove1 w (pending p) \<noteq> []"
    proof -
      have "pending p \<noteq> []"
        using ne by auto
      then show ?thesis
        using Q ne unfolding F(12) inv_queue_def by simp
    qed
  qed (use Q d F(10) in \<open>auto simp: inv_queue_def\<close>)
  then have "pool_parts p'"
    by (rule parts_cong[OF parts(1)]) (use F in simp_all)
  moreover have "no_idle_wait p'"
    using parts(2) by (auto simp: no_idle_wait_def F)
  moreover have "frame {} {w} (\<lambda>_. 0) p p'"
  proof -
    have "pending p' = filter (\<lambda>v. v \<notin> {w}) (drop 0 (pending p))"
      using d by (auto simp: F(11) distinct_remove1_removeAll removeAll_filter_not_eq intro!: filter_cong)
    then have cut: "\<exists>n. pending p' = filter (\<lambda>v. v \<notin> {w}) (drop n (pending p))"
      by blast
    have "grants (waiters p') ws x = grants (waiters p) ws x" for ws x
      by (simp add: grants_def ws)
    then show ?thesis
      unfolding frame_def owed_def ws F(1) using cut by (auto simp: F(10) nth_update_same)
  qed
  ultimately show ?thesis
    using assms(3) ws(2)[of w] F(11) d by (auto simp: acquireCancel_def op_ok_def pool_inv_def p'_def)
qed

lemma acquireCancel_answered_ok:
  assumes "pool_inv p" "w < length (waiters p)" "\<not> elem (waiters p ! w)" "result (waiters p ! w) = Some (Granted r)"
    and "inFlight (heap p ! r) > 0"
  shows "\<exists>p'. acquireCancel err now w p = Inr p' \<and> op_ok {} {} (\<lambda>x. if x = r then - 1 else 0) p p'"
proof -
  have "r < length (heap p)"
    using assms(1,2,4) unfolding pool_inv_def pool_parts_def inv_queue_def by blast
  from release_ok[OF assms(1) this assms(5), of err now] show ?thesis
    using assms(3,4) by (auto simp: acquireCancel_def released_ok_def op_ok_def)
qed

subsection \<open>The remaining operations\<close>

lemma counter_ok:
  assumes "pool_inv p" "heap q = heap p" "sandboxes q = sandboxes p" "ready q = ready p" "closed q = closed p"
    and "limit q = limit p" "executing q = executing p" "accepted q = accepted p" "completed q = completed p"
    and "active q = active p" "pending q = pending p" "waiters q = waiters p" "queueHead q = queueHead p"
  shows "op_ok {} {} (\<lambda>_. 0) p q"
proof -
  note C = inv_cong[OF assms(2,3,5)]
  have "pool_inv q"
    using assms(1) C(3,4,7) C(5)[OF assms(4)] C(6)[OF assms(6)] C(8)[OF assms(11-13)] assms
    by (simp add: pool_inv_def pool_parts_def no_idle_wait_def inv_avail_def)
  then show ?thesis
    using frame_same[OF assms(2,12,11)] by (simp add: op_ok_def)
qed

lemma TakeHighWater_ok: "pool_inv p \<Longrightarrow> op_ok {} {} (\<lambda>_. 0) p (snd (TakeHighWater p))"
  by (erule counter_ok) (simp_all add: TakeHighWater_def Let_def)

lemma SetDemandWake_ok: "pool_inv p \<Longrightarrow> op_ok {} {} (\<lambda>_. 0) p (SetDemandWake wake p)"
  by (erule counter_ok) (simp_all add: SetDemandWake_def Let_def)

lemma close_fold:
  "foldl (\<lambda>q w. set_waiter w (\<lambda>x. x\<lparr>elem := False, result := Some (Refused ErrPoolClosed)\<rparr>) q) p ws =
     p\<lparr>waiters := foldl (\<lambda>wl w. answer w (Refused ErrPoolClosed) wl) (waiters p) ws\<rparr>"
  by (induction ws arbitrary: p) (simp_all add: answer_def)

lemma answer_fold:
  "length (foldl (\<lambda>wl w. answer w res wl) wl ws) = length wl"
  "foldl (\<lambda>wl w. answer w res wl) wl ws ! x =
     (if x \<in> set ws \<and> x < length wl then (wl ! x)\<lparr>elem := False, result := Some res\<rparr> else wl ! x)"
  by (induction ws arbitrary: wl) (auto simp: answer_def nth_update_same)

text \<open>\<^verbatim>\<open>Close\<close> answers everybody who waits and touches no slot that is in use.\<close>

lemma Close_effect:
  assumes "pool_inv p" "\<not> closed p"
  shows "closed (Close p)" "pending (Close p) = []" "ready (Close p) = []" "heap (Close p) = heap p"
    "sandboxes (Close p) = sandboxes p" "length (waiters (Close p)) = length (waiters p)"
    "waiters (Close p) ! w = (if w \<in> set (pending p)
       then (waiters p ! w)\<lparr>elem := False, result := Some (Refused ErrPoolClosed)\<rparr> else waiters p ! w)"
proof -
  have "w < length (waiters p)" if "w \<in> set (pending p)" for w
    using assms(1) inv_queueD(1) that by (auto simp: pool_inv_def pool_parts_def)
  then show "closed (Close p)" "pending (Close p) = []" "ready (Close p) = []" "heap (Close p) = heap p"
    "sandboxes (Close p) = sandboxes p" "length (waiters (Close p)) = length (waiters p)"
    "waiters (Close p) ! w = (if w \<in> set (pending p)
       then (waiters p ! w)\<lparr>elem := False, result := Some (Refused ErrPoolClosed)\<rparr> else waiters p ! w)"
    using assms(2) by (auto simp: Close_def Let_def close_fold answer_fold)
qed

lemma Close_ok:
  assumes "pool_inv p"
  shows "op_ok {} {} (\<lambda>_. 0) p (Close p)"
proof (cases "closed p")
  case True
  then show ?thesis
    using op_ok_refl[OF assms] by (simp add: Close_def)
next
  case False
  define q where "q = Close p"
  note C = Close_effect[OF assms False, folded q_def]
  have F: "limit q = limit p" "executing q = executing p" "accepted q = accepted p" "completed q = completed p"
    "active q = active p"
    using False by (simp_all add: q_def Close_def Let_def close_fold)
  have parts: "pool_parts p"
    using assms by (simp add: pool_inv_def)
  note P = pool_partsD[OF parts]
  have M: "mapped q x \<longleftrightarrow> mapped p x" for x
    by (simp add: mapped_def C)
  have "inv_map q"
    using P(1) by (simp add: inv_map_def C)
  moreover have "inv_ready q"
    by (rule inv_readyI) (use inv_readyD(4,5)[OF P(2)] in \<open>simp_all add: C M\<close>)
  moreover have "inv_avail q"
    using P(3) by (simp add: inv_avail_def avail_ok_def C M F)
  moreover have "inv_count q"
    using P(4) by (simp add: inv_count_def C M F live_def)
  moreover have "inv_chan q"
    using P(5) by (simp add: inv_chan_def C)
  moreover have "inv_queue q"
  proof -
    have "\<not> elem (waiters q ! w)" if "w < length (waiters p)" for w
      using P(6) that unfolding C(7) inv_queue_def by auto
    moreover have "result (waiters q ! w) = Some (Granted r) \<Longrightarrow> result (waiters p ! w) = Some (Granted r)" for w r
      unfolding C(7) by (simp split: if_splits)
    ultimately show ?thesis
      using P(6) unfolding inv_queue_def C(1-6) by auto
  qed
  ultimately have "pool_parts q"
    by (simp add: pool_parts_def)
  moreover have "frame {} {} (\<lambda>_. 0) p q"
  proof -
    have keep: "result (waiters q ! w) = result (waiters p ! w)" if "result (waiters p ! w) \<noteq> None" for w
      using inv_queueD(3)[OF P(6), of w] that unfolding C(7) by auto
    have "result (waiters q ! w) = Some (Granted r) \<longleftrightarrow> result (waiters p ! w) = Some (Granted r)" for w r
      using inv_queueD(3)[OF P(6), of w] unfolding C(7) by auto
    then have "grants (waiters q) ws x = grants (waiters p) ws x" for ws x
      by (simp add: grants_def)
    moreover have "elem (waiters p ! w) \<Longrightarrow> elem (waiters q ! w) \<or> result (waiters q ! w) \<noteq> None" for w
      unfolding C(7) by simp
    ultimately show ?thesis
      unfolding frame_def owed_def C(2,4,6) using keep by (simp add: exI[of _ "length (pending p)"])
  qed
  ultimately show ?thesis
    by (simp add: op_ok_def pool_inv_def no_idle_wait_def C flip: q_def)
qed

text \<open>A new pool satisfies the invariant.\<close>

lemma emptyPool_inv: "pool_inv emptyPool"
  by (simp add: emptyPool_def pool_inv_def pool_parts_def no_idle_wait_def inv_defs live_def mapped_def)

lemma NewSandboxPool_inv: "pool_inv (NewSandboxPool newLimit newDepth)"
  using Configure_ok[OF emptyPool_inv, of "[]"] by (simp add: NewSandboxPool_def op_ok_def emptyPool_def)

end
