(* ===== verification/Pool_System.thy ===== *)
theory Pool_System
  imports Sandbox_Pool_Ops
begin

text \<open>
  The sandbox pool together with its clients: the leases that requests hold, the calls of
  \<^verbatim>\<open>Acquire\<close> and \<^verbatim>\<open>Drain\<close> that wait, and the contexts that are done.  A step is one operation of one
  client under the mutex, so a run is any interleaving of the clients' operations.

  The main result is that the counters of the pool account for every lease: the number of requests a
  sandbox runs is the number of leases on it that were not released plus the slots granted to
  waiters that have not picked them up.  Hence no reachable step panics.
\<close>

subsection \<open>Clients\<close>

record Lease =
  lease_sandbox :: nat
  released :: bool

datatype drain_phase = DrainWaits | DrainReady | DrainOver

record drainCall =
  drain_id :: u64
  drain_ref :: nat
  phase :: drain_phase

record pool_sys =
  pool :: SandboxPool
  leases :: "Lease list"
  waiting :: "nat list"
  drains :: "drainCall list"
  done_ctx :: "nat list"

definition initial_sys :: "int \<Rightarrow> int \<Rightarrow> pool_sys" where
  "initial_sys newLimit newDepth =
     \<lparr>pool = NewSandboxPool newLimit newDepth, leases = [], waiting = [], drains = [], done_ctx = []\<rparr>"

definition ctx_err :: "pool_sys \<Rightarrow> nat \<Rightarrow> bool" where
  "ctx_err s c \<longleftrightarrow> c \<in> set (done_ctx s)"

text \<open>
  \<^verbatim>\<open>Lease.Release\<close>: only the first call on a lease reaches the pool.
\<close>

definition Lease_Release :: "int \<Rightarrow> nat \<Rightarrow> pool_sys \<Rightarrow> pool_panic + pool_sys" where
  "Lease_Release now k s =
     (if released (leases s ! k) then Inr s
      else case release (ctx_err s) now (lease_sandbox (leases s ! k)) (pool s) of
        Inl e \<Rightarrow> Inl e
      | Inr p \<Rightarrow> Inr (s\<lparr>pool := p, leases := (leases s)[k := (leases s ! k)\<lparr>released := True\<rparr>]\<rparr>))"

datatype pool_event =
    EvConfigure "u64 list" int int
  | EvSetDemandWake "bool option"
  | EvAdd Sandbox
  | EvSync "u64 list" "u64 list" "Sandbox list"
  | EvRemove u64
  | EvDrain u64
  | EvDrained nat
  | EvDrainCancelled nat
  | EvFinishDrain nat bool
  | EvAcquire nat
  | EvReceive nat
  | EvGiveUp nat
  | EvRelease nat
  | EvTakeHighWater
  | EvClose
  | EvContextDone nat

definition with_pool :: "SandboxPool \<Rightarrow> pool_sys \<Rightarrow> pool_sys" where
  "with_pool p s = s\<lparr>pool := p\<rparr>"

definition new_lease :: "nat \<Rightarrow> Lease" where
  "new_lease r = \<lparr>lease_sandbox = r, released = False\<rparr>"

definition set_phase :: "nat \<Rightarrow> drain_phase \<Rightarrow> pool_sys \<Rightarrow> pool_sys" where
  "set_phase k ph s = s\<lparr>drains := (drains s)[k := (drains s ! k)\<lparr>phase := ph\<rparr>]\<rparr>"

definition exec_acquire :: "int \<Rightarrow> nat \<Rightarrow> pool_sys \<Rightarrow> pool_sys" where
  "exec_acquire now c s =
     (case Acquire (ctx_err s) now c (pool s) of
        (AcqError e, p) \<Rightarrow> with_pool p s
      | (AcqLease r, p) \<Rightarrow> (with_pool p s)\<lparr>leases := leases s @ [new_lease r]\<rparr>
      | (AcqWaits w, p) \<Rightarrow> (with_pool p s)\<lparr>waiting := waiting s @ [w]\<rparr>)"

definition exec_receive :: "int \<Rightarrow> nat \<Rightarrow> acquireResult \<Rightarrow> pool_sys \<Rightarrow> pool_panic + pool_sys" where
  "exec_receive now w res s =
     (case acquireReceive (ctx_err s) now w res (pool s) of
        Inl e \<Rightarrow> Inl e
      | Inr (Inl e, p) \<Rightarrow> Inr ((with_pool p s)\<lparr>waiting := remove1 w (waiting s)\<rparr>)
      | Inr (Inr r, p) \<Rightarrow> Inr ((with_pool p s)\<lparr>waiting := remove1 w (waiting s), leases := leases s @ [new_lease r]\<rparr>))"

definition exec_give_up :: "int \<Rightarrow> nat \<Rightarrow> pool_sys \<Rightarrow> pool_panic + pool_sys" where
  "exec_give_up now w s =
     (case acquireCancel (ctx_err s) now w (pool s) of
        Inl e \<Rightarrow> Inl e
      | Inr p \<Rightarrow> Inr ((with_pool p s)\<lparr>waiting := remove1 w (waiting s)\<rparr>))"

definition exec_drain :: "u64 \<Rightarrow> pool_sys \<Rightarrow> pool_sys" where
  "exec_drain i s =
     (case Drain i (pool s) of
        (Inl e, p) \<Rightarrow> with_pool p s
      | (Inr r, p) \<Rightarrow> (with_pool p s)\<lparr>drains := drains s @ [\<lparr>drain_id = i, drain_ref = r, phase = DrainWaits\<rparr>]\<rparr>)"

text \<open>
  One step.  An event that is not enabled leaves the state as it is: a loop over a map must visit
  every key, a receive needs an answer, a client gives up only when its context is done, and the
  function that \<^verbatim>\<open>Drain\<close> returns runs once.
\<close>

fun pool_exec :: "int \<Rightarrow> pool_event \<Rightarrow> pool_sys \<Rightarrow> pool_panic + pool_sys" where
  "pool_exec now (EvConfigure order l d) s =
     Inr (if fst ` set (sandboxes (pool s)) = set order
          then with_pool (Configure (ctx_err s) now order l d (pool s)) s else s)"
| "pool_exec now (EvSetDemandWake wake) s = Inr (with_pool (SetDemandWake wake (pool s)) s)"
| "pool_exec now (EvAdd t) s = Inr (with_pool (Add (ctx_err s) now t (pool s)) s)"
| "pool_exec now (EvSync order1 order2 ts) s =
     Inr (if fst ` set (sandboxes (pool s)) = set order1 \<and> fst ` set (wanted_targets ts) = set order2
          then with_pool (Sync (ctx_err s) now order1 order2 ts (pool s)) s else s)"
| "pool_exec now (EvRemove i) s = Inr (with_pool (Remove i (pool s)) s)"
| "pool_exec now (EvDrain i) s = Inr (exec_drain i s)"
| "pool_exec now (EvDrained k) s =
     Inr (if k < length (drains s) \<and> phase (drains s ! k) = DrainWaits \<and>
             drained (heap (pool s) ! drain_ref (drains s ! k)) = Some True
          then set_phase k DrainReady s else s)"
| "pool_exec now (EvDrainCancelled k) s =
     Inr (if k < length (drains s) \<and> phase (drains s ! k) = DrainWaits
          then set_phase k DrainOver (with_pool (restore (ctx_err s) now (drain_ref (drains s ! k)) (pool s)) s)
          else s)"
| "pool_exec now (EvFinishDrain k stopped) s =
     Inr (if k < length (drains s) \<and> phase (drains s ! k) = DrainReady
          then set_phase k DrainOver
                 (with_pool (finishDrain (ctx_err s) now (drain_id (drains s ! k)) (drain_ref (drains s ! k)) stopped (pool s)) s)
          else s)"
| "pool_exec now (EvAcquire c) s = Inr (exec_acquire now c s)"
| "pool_exec now (EvReceive w) s =
     (if w \<in> set (waiting s)
      then case result (waiters (pool s) ! w) of None \<Rightarrow> Inr s | Some res \<Rightarrow> exec_receive now w res s
      else Inr s)"
| "pool_exec now (EvGiveUp w) s =
     (if w \<in> set (waiting s) \<and> ctx_err s (wctx (waiters (pool s) ! w)) then exec_give_up now w s else Inr s)"
| "pool_exec now (EvRelease k) s = (if k < length (leases s) then Lease_Release now k s else Inr s)"
| "pool_exec now EvTakeHighWater s = Inr (with_pool (snd (TakeHighWater (pool s))) s)"
| "pool_exec now EvClose s = Inr (with_pool (Close (pool s)) s)"
| "pool_exec now (EvContextDone c) s = Inr (s\<lparr>done_ctx := c # done_ctx s\<rparr>)"

inductive pool_reach :: "int \<Rightarrow> int \<Rightarrow> pool_sys \<Rightarrow> bool" for newLimit newDepth where
  start: "pool_reach newLimit newDepth (initial_sys newLimit newDepth)"
| step: "pool_reach newLimit newDepth s \<Longrightarrow> pool_exec now e s = Inr s' \<Longrightarrow> pool_reach newLimit newDepth s'"

fun pool_run :: "(int \<times> pool_event) list \<Rightarrow> pool_sys \<Rightarrow> pool_panic + pool_sys" where
  "pool_run [] s = Inr s"
| "pool_run ((now, e) # es) s = (case pool_exec now e s of Inl x \<Rightarrow> Inl x | Inr s' \<Rightarrow> pool_run es s')"

subsection \<open>The invariant of pool and clients\<close>

definition leases_on :: "Lease list \<Rightarrow> nat \<Rightarrow> int" where
  "leases_on ls x = int (length (filter (\<lambda>l. \<not> released l \<and> lease_sandbox l = x) ls))"

definition drain_active :: "drainCall \<Rightarrow> bool" where
  "drain_active d \<longleftrightarrow> phase d \<noteq> DrainOver"

definition inv_drains :: "SandboxPool \<Rightarrow> drainCall list \<Rightarrow> bool" where
  "inv_drains p ds \<longleftrightarrow>
     distinct (map drain_ref (filter drain_active ds)) \<and>
     (\<forall>d \<in> set ds. drain_active d \<longrightarrow>
        drain_ref d < length (heap p) \<and> draining (heap p ! drain_ref d) \<and>
        (phase d = DrainReady \<longrightarrow> drained (heap p ! drain_ref d) = Some True))"

definition inv_waiting :: "SandboxPool \<Rightarrow> nat list \<Rightarrow> bool" where
  "inv_waiting p ws \<longleftrightarrow>
     distinct ws \<and> set ws \<subseteq> {..<length (waiters p)} \<and> set (pending p) \<subseteq> set ws \<and>
     (\<forall>w \<in> set ws. elem (waiters p ! w) \<or> result (waiters p ! w) \<noteq> None)"

definition inv_leases :: "SandboxPool \<Rightarrow> nat list \<Rightarrow> Lease list \<Rightarrow> bool" where
  "inv_leases p ws ls \<longleftrightarrow>
     (\<forall>l \<in> set ls. lease_sandbox l < length (heap p)) \<and>
     (\<forall>x < length (heap p). owed p ws x = leases_on ls x)"

definition sys_inv :: "pool_sys \<Rightarrow> bool" where
  "sys_inv s \<longleftrightarrow>
     pool_inv (pool s) \<and> inv_waiting (pool s) (waiting s) \<and> inv_leases (pool s) (waiting s) (leases s) \<and>
     inv_drains (pool s) (drains s)"

subsection \<open>Steps of the pool keep the clients' part of the invariant\<close>

lemma op_okD:
  assumes "op_ok D W d p q"
  shows "pool_inv q" "length (heap p) \<le> length (heap q)" "length (waiters q) = length (waiters p)"
    "set (pending q) \<subseteq> set (pending p)"
    "x < length (heap p) \<Longrightarrow> x \<notin> D \<Longrightarrow> draining (heap q ! x) = draining (heap p ! x)"
    "x < length (heap p) \<Longrightarrow> x \<notin> D \<Longrightarrow> drained (heap p ! x) = Some True \<Longrightarrow> drained (heap q ! x) = Some True"
    "w < length (waiters p) \<Longrightarrow> result (waiters p ! w) \<noteq> None \<Longrightarrow> result (waiters q ! w) = result (waiters p ! w)"
    "w < length (waiters p) \<Longrightarrow> w \<notin> W \<Longrightarrow> elem (waiters p ! w) \<Longrightarrow> elem (waiters q ! w) \<or> result (waiters q ! w) \<noteq> None"
    "distinct ws \<Longrightarrow> set (pending p) \<subseteq> set ws \<Longrightarrow> set ws \<subseteq> {..<length (waiters p)} \<Longrightarrow>
       x < length (heap q) \<Longrightarrow> owed q ws x = (if x < length (heap p) then owed p ws x else 0) + d x"
  using assms unfolding op_ok_def frame_def by (blast, blast, blast, force dest: in_set_dropD, blast+)

lemma inv_waitingD:
  assumes "inv_waiting p ws"
  shows "distinct ws" "w \<in> set ws \<Longrightarrow> w < length (waiters p)" "set (pending p) \<subseteq> set ws"
    "w \<in> set ws \<Longrightarrow> elem (waiters p ! w) \<or> result (waiters p ! w) \<noteq> None" "set ws \<subseteq> {..<length (waiters p)}"
  using assms unfolding inv_waiting_def by blast+

lemma waiting_kept:
  assumes "inv_waiting p ws" "op_ok D W d p q" "w \<in> set ws" "w \<notin> W"
  shows "elem (waiters q ! w) \<or> result (waiters q ! w) \<noteq> None"
proof -
  have lt: "w < length (waiters p)"
    by (rule inv_waitingD(2)[OF assms(1,3)])
  show ?thesis
    using inv_waitingD(4)[OF assms(1,3)]
  proof
    assume "elem (waiters p ! w)"
    then show ?thesis
      by (rule op_okD(8)[OF assms(2) lt assms(4)])
  next
    assume "result (waiters p ! w) \<noteq> None"
    then show ?thesis
      using op_okD(7)[OF assms(2) lt] by auto
  qed
qed

lemma step_waiting:
  assumes "inv_waiting p ws" "op_ok D {} d p q"
  shows "inv_waiting q ws"
  using inv_waitingD(1,3,5)[OF assms(1)] op_okD(3,4)[OF assms(2)] waiting_kept[OF assms] by (auto simp: inv_waiting_def)

lemma step_waiting_remove:
  assumes "inv_waiting p ws" "op_ok D W d p q" "W \<subseteq> {w}" "w \<notin> set (pending q)"
  shows "inv_waiting q (remove1 w ws)"
proof -
  have set: "set (remove1 w ws) = set ws - {w}"
    using inv_waitingD(1)[OF assms(1)] by simp
  show ?thesis
    unfolding inv_waiting_def set
  proof (intro conjI ballI)
    show "distinct (remove1 w ws)"
      using inv_waitingD(1)[OF assms(1)] by simp
    show "set ws - {w} \<subseteq> {..<length (waiters q)}"
      using inv_waitingD(5)[OF assms(1)] op_okD(3)[OF assms(2)] by auto
    show "set (pending q) \<subseteq> set ws - {w}"
      using op_okD(4)[OF assms(2)] inv_waitingD(3)[OF assms(1)] assms(4) by auto
    show "elem (waiters q ! v) \<or> result (waiters q ! v) \<noteq> None" if "v \<in> set ws - {w}" for v
      using waiting_kept[OF assms(1,2), of v] that assms(3) by blast
  qed
qed

lemma owed_remove1:
  assumes "w \<in> set ws"
  shows "owed p (remove1 w ws) x = owed p ws x + (if result (waiters p ! w) = Some (Granted x) then 1 else 0)"
  using length_filter_remove1[OF assms, of "\<lambda>w. result (waiters p ! w) = Some (Granted x)"]
  by (simp add: owed_def grants_def)

lemma leases_on_fresh:
  assumes "\<And>l. l \<in> set ls \<Longrightarrow> lease_sandbox l < n" "n \<le> x"
  shows "leases_on ls x = 0"
  using assms by (auto simp: leases_on_def filter_empty_conv dest: leD)

lemma leases_on_snoc [simp]: "leases_on (ls @ [new_lease r]) x = leases_on ls x + (if x = r then 1 else 0)"
  by (simp add: leases_on_def new_lease_def)

lemma lease_sandbox_new [simp]: "lease_sandbox (new_lease r) = r"
  by (simp add: new_lease_def)

lemma leases_on_nonneg [simp]: "0 \<le> leases_on ls x"
  by (simp add: leases_on_def)

lemma leases_on_release:
  assumes "k < length ls" "\<not> released (ls ! k)"
  shows "leases_on (ls[k := (ls ! k)\<lparr>released := True\<rparr>]) x = leases_on ls x - (if x = lease_sandbox (ls ! k) then 1 else 0)"
proof -
  have ls: "ls = take k ls @ ls ! k # drop (Suc k) ls"
    using assms(1) by (rule id_take_nth_drop)
  have "ls[k := y] = take k ls @ y # drop (Suc k) ls" for y
    using assms(1) by (rule upd_conv_take_nth_drop)
  then show ?thesis
    using assms(2) by (subst (3) ls) (simp add: leases_on_def)
qed

lemma step_leases:
  assumes "inv_leases p ws ls" "inv_waiting p ws" "op_ok D W d p q"
    and "\<And>l. l \<in> set ls' \<Longrightarrow> lease_sandbox l < length (heap q)"
    and "\<And>x. x < length (heap q) \<Longrightarrow> leases_on ls' x = leases_on ls x + d x + e x"
    and "\<And>x. x < length (heap q) \<Longrightarrow> owed q ws' x = owed q ws x + e x"
  shows "inv_leases q ws' ls'"
  unfolding inv_leases_def
proof (intro conjI ballI allI impI)
  fix x
  assume x: "x < length (heap q)"
  have "(if x < length (heap p) then owed p ws x else 0) = leases_on ls x"
    using assms(1) leases_on_fresh[of ls "length (heap p)" x] by (auto simp: inv_leases_def)
  then show "owed q ws' x = leases_on ls' x"
    using op_okD(9)[OF assms(3) inv_waitingD(1,3,5)[OF assms(2)] x] assms(5,6)[OF x] by simp
qed (use assms(4) in auto)

lemma step_drains:
  assumes "inv_drains p ds" "op_ok D W d p q" "\<And>c. c \<in> set ds \<Longrightarrow> drain_active c \<Longrightarrow> drain_ref c \<notin> D"
  shows "inv_drains q ds"
  unfolding inv_drains_def
proof (intro conjI ballI impI)
  show "distinct (map drain_ref (filter drain_active ds))"
    using assms(1) by (simp add: inv_drains_def)
next
  fix c
  assume c: "c \<in> set ds" "drain_active c"
  then have old: "drain_ref c < length (heap p)" "draining (heap p ! drain_ref c)"
    "phase c = DrainReady \<Longrightarrow> drained (heap p ! drain_ref c) = Some True"
    using assms(1) by (auto simp: inv_drains_def)
  note keep = op_okD(2)[OF assms(2)] op_okD(5,6)[OF assms(2), of "drain_ref c"]
  show "drain_ref c < length (heap q)" "draining (heap q ! drain_ref c)"
    using old keep(1,2) assms(3)[OF c] by auto
  show "drained (heap q ! drain_ref c) = Some True" if "phase c = DrainReady"
    using old keep(3) assms(3)[OF c] that by simp
qed

text \<open>A drain call that ends: no other call in progress has the same sandbox.\<close>

lemma drains_split:
  assumes "inv_drains p ds" "k < length ds" "drain_active (ds ! k)"
  shows "inv_drains p (ds[k := (ds ! k)\<lparr>phase := DrainOver\<rparr>])"
    and "c \<in> set (ds[k := (ds ! k)\<lparr>phase := DrainOver\<rparr>]) \<Longrightarrow> drain_active c \<Longrightarrow> drain_ref c \<noteq> drain_ref (ds ! k)"
proof -
  let ?a = "take k ds" and ?b = "drop (Suc k) ds" and ?o = "(ds ! k)\<lparr>phase := DrainOver\<rparr>"
  have ds: "ds = ?a @ ds ! k # ?b"
    by (rule id_take_nth_drop[OF assms(2)])
  have ds': "ds[k := ?o] = ?a @ ?o # ?b"
    by (rule upd_conv_take_nth_drop[OF assms(2)])
  have over: "\<not> drain_active ?o"
    by (simp add: drain_active_def)
  have dist: "distinct (map drain_ref (filter drain_active (?a @ ds ! k # ?b)))"
    using assms(1) ds by (simp add: inv_drains_def)
  have sub: "c \<in> set (?a @ ?o # ?b) \<Longrightarrow> drain_active c \<Longrightarrow> c \<in> set ?a \<union> set ?b" for c
    using over by auto
  show "inv_drains p (ds[k := ?o])"
    unfolding inv_drains_def ds'
  proof (intro conjI ballI)
    show "distinct (map drain_ref (filter drain_active (?a @ ?o # ?b)))"
      using dist over assms(3) by auto
    fix c
    assume "c \<in> set (?a @ ?o # ?b)"
    then show "drain_active c \<longrightarrow> drain_ref c < length (heap p) \<and> draining (heap p ! drain_ref c) \<and>
        (phase c = DrainReady \<longrightarrow> drained (heap p ! drain_ref c) = Some True)"
      using sub[of c] assms(1) unfolding inv_drains_def by (auto dest: in_set_takeD in_set_dropD)
  qed
  show "drain_ref c \<noteq> drain_ref (ds ! k)" if "c \<in> set (ds[k := ?o])" "drain_active c"
    using sub[of c] that dist assms(3) unfolding ds' by (auto simp: image_iff)
qed

lemma step_drain_over:
  assumes "inv_drains p ds" "k < length ds" "drain_active (ds ! k)" "op_ok {drain_ref (ds ! k)} W d p q"
  shows "inv_drains q (ds[k := (ds ! k)\<lparr>phase := DrainOver\<rparr>])"
  by (rule step_drains[OF drains_split(1)[OF assms(1-3)] assms(4)]) (use drains_split(2)[OF assms(1-3)] in auto)

lemma sys_invD:
  "sys_inv s \<Longrightarrow> pool_inv (pool s)" "sys_inv s \<Longrightarrow> inv_waiting (pool s) (waiting s)"
  "sys_inv s \<Longrightarrow> inv_leases (pool s) (waiting s) (leases s)" "sys_inv s \<Longrightarrow> inv_drains (pool s) (drains s)"
  by (simp_all add: sys_inv_def)

lemma plain_step:
  assumes "sys_inv s" "op_ok {} {} (\<lambda>_. 0) (pool s) q"
  shows "sys_inv (with_pool q s)"
proof -
  note S = sys_invD[OF assms(1)]
  have "inv_leases q (waiting s) (leases s)"
    by (rule step_leases[OF S(3,2) assms(2), where e = "\<lambda>_. 0"])
      (use S(3) op_okD(2)[OF assms(2)] in \<open>auto simp: inv_leases_def\<close>)
  then show ?thesis
    using step_waiting[OF S(2) assms(2)] step_drains[OF S(4) assms(2)] op_okD(1)[OF assms(2)]
    by (simp add: sys_inv_def with_pool_def)
qed

lemma drain_over_step:
  assumes "sys_inv s" "k < length (drains s)" "drain_active (drains s ! k)"
    and "op_ok {drain_ref (drains s ! k)} {} (\<lambda>_. 0) (pool s) q"
  shows "sys_inv (set_phase k DrainOver (with_pool q s))"
proof -
  note S = sys_invD[OF assms(1)]
  have "inv_leases q (waiting s) (leases s)"
    by (rule step_leases[OF S(3,2) assms(4), where e = "\<lambda>_. 0"])
      (use S(3) op_okD(2)[OF assms(4)] in \<open>auto simp: inv_leases_def\<close>)
  then show ?thesis
    using step_waiting[OF S(2) assms(4)] step_drain_over[OF S(4) assms(2-4)] op_okD(1)[OF assms(4)]
    by (simp add: sys_inv_def with_pool_def set_phase_def)
qed

lemma drain_ready_step:
  assumes "sys_inv s" "k < length (drains s)" "phase (drains s ! k) = DrainWaits"
    and "drained (heap (pool s) ! drain_ref (drains s ! k)) = Some True"
  shows "sys_inv (set_phase k DrainReady s)"
proof -
  let ?ds = "drains s" and ?o = "(drains s ! k)\<lparr>phase := DrainReady\<rparr>"
  have inv: "inv_drains (pool s) ?ds"
    by (rule sys_invD(4)[OF assms(1)])
  have ds: "?ds = take k ?ds @ ?ds ! k # drop (Suc k) ?ds"
    by (rule id_take_nth_drop[OF assms(2)])
  have ds': "?ds[k := ?o] = take k ?ds @ ?o # drop (Suc k) ?ds"
    by (rule upd_conv_take_nth_drop[OF assms(2)])
  have act: "drain_active (?ds ! k)" "drain_active ?o"
    using assms(3) by (simp_all add: drain_active_def)
  have "map drain_ref (filter drain_active (take k ?ds @ ?o # drop (Suc k) ?ds)) =
      map drain_ref (filter drain_active (take k ?ds @ ?ds ! k # drop (Suc k) ?ds))"
    using act by simp
  then have "distinct (map drain_ref (filter drain_active (?ds[k := ?o])))"
    using inv ds unfolding ds' inv_drains_def by simp
  moreover have "drain_ref c < length (heap (pool s)) \<and> draining (heap (pool s) ! drain_ref c) \<and>
      (phase c = DrainReady \<longrightarrow> drained (heap (pool s) ! drain_ref c) = Some True)"
    if "c \<in> set (?ds[k := ?o])" "drain_active c" for c
  proof (cases "c = ?o")
    case True
    have "?ds ! k \<in> set ?ds"
      using assms(2) by simp
    then show ?thesis
      using inv act(1) assms(4) unfolding True inv_drains_def by auto
  next
    case False
    then have "c \<in> set ?ds"
      using that(1) set_update_subset_insert[of ?ds k ?o] by blast
    then show ?thesis
      using inv that(2) by (simp add: inv_drains_def)
  qed
  ultimately have "inv_drains (pool s) (?ds[k := ?o])"
    by (simp add: inv_drains_def)
  then show ?thesis
    using assms(1) by (simp add: sys_inv_def set_phase_def)
qed

lemma exec_drain_ok:
  assumes "sys_inv s"
  shows "sys_inv (exec_drain i s)"
proof -
  note S = sys_invD[OF assms]
  obtain res q where run: "Drain i (pool s) = (res, q)"
    by fastforce
  note D = Drain_ok[OF S(1) run]
  show ?thesis
  proof (cases res)
    case (Inl e)
    then show ?thesis
      using D run assms by (simp add: exec_drain_def with_pool_def)
  next
    case (Inr r)
    then have op: "op_ok {r} {} (\<lambda>_. 0) (pool s) q" and r: "mapped (pool s) r" "\<not> draining (heap (pool s) ! r)"
      "draining (heap q ! r)"
      using D by simp_all
    let ?d = "\<lparr>drain_id = i, drain_ref = r, phase = DrainWaits\<rparr>"
    have free: "drain_ref c \<noteq> r" if "c \<in> set (drains s)" "drain_active c" for c
      using S(4) that r(2) unfolding inv_drains_def by blast
    have old: "inv_drains q (drains s)"
      by (rule step_drains[OF S(4) op]) (use free in auto)
    have "r < length (heap q)"
      using r(1) op_okD(2)[OF op] by (simp add: mapped_def)
    then have "inv_drains q (drains s @ [?d])"
      using old free r(3) unfolding inv_drains_def by (auto simp: drain_active_def)
    moreover have "inv_leases q (waiting s) (leases s)"
      by (rule step_leases[OF S(3,2) op, where e = "\<lambda>_. 0"])
        (use S(3) op_okD(2)[OF op] in \<open>auto simp: inv_leases_def\<close>)
    ultimately show ?thesis
      using Inr run step_waiting[OF S(2) op] op_okD(1)[OF op]
      by (simp add: exec_drain_def with_pool_def sys_inv_def)
  qed
qed

lemma exec_acquire_ok:
  assumes "sys_inv s"
  shows "sys_inv (exec_acquire now c s)"
proof -
  note S = sys_invD[OF assms]
  from S(1) show ?thesis
  proof (cases rule: Acquire_cases[where err = "ctx_err s" and now = now and c = c])
    case (refused e)
    then show ?thesis
      using assms by (simp add: exec_acquire_def with_pool_def)
  next
    case (lease r rest q)
    have "r < length (heap q)"
      using ready_sandbox(1)[of "pool s" r] S(1) lease(2) op_okD(2)[OF lease(5)] by (simp add: pool_inv_def)
    then have "inv_leases q (waiting s) (leases s @ [new_lease r])"
      using S(3) op_okD(2)[OF lease(5)]
      by (intro step_leases[OF S(3,2) lease(5), where e = "\<lambda>_. 0"]) (auto simp: inv_leases_def)
    then show ?thesis
      using lease(1) step_waiting[OF S(2) lease(5)] step_drains[OF S(4) lease(5)] op_okD(1)[OF lease(5)]
      by (simp add: exec_acquire_def with_pool_def sys_inv_def)
  next
    case (waits q)
    let ?w = "length (waiters (pool s))"
    have E: "heap q = heap (pool s)" "pending q = pending (pool s) @ [?w]"
      "waiters q = waiters (pool s) @ [\<lparr>wctx = c, result = None, elem = True\<rparr>]"
      using waits(3) by (simp_all add: enqueued_def)
    note W = inv_waitingD[OF S(2)]
    have old: "waiters q ! v = waiters (pool s) ! v" if "v < ?w" for v
      using that by (simp add: E nth_append)
    have kept: "elem (waiters q ! v) \<or> result (waiters q ! v) \<noteq> None" if "v \<in> set (waiting s)" for v
      using old[OF W(2)[OF that]] W(4)[OF that] by simp
    have new: "elem (waiters q ! ?w)" "length (waiters q) = Suc ?w"
      by (simp_all add: E(3))
    have "inv_waiting q (waiting s @ [?w])"
      unfolding inv_waiting_def E(2) using W(1,3,5) kept new by auto
    moreover have "owed q (waiting s @ [?w]) x = owed (pool s) (waiting s) x" for x
    proof -
      have "filter (\<lambda>v. result (waiters q ! v) = Some (Granted x)) (waiting s) =
          filter (\<lambda>v. result (waiters (pool s) ! v) = Some (Granted x)) (waiting s)"
        by (rule filter_cong) (use old W(2) in auto)
      then show ?thesis
        by (simp add: owed_def grants_def E)
    qed
    then have "inv_leases q (waiting s @ [?w]) (leases s)"
      using S(3) by (simp add: inv_leases_def E)
    moreover have "inv_drains q (drains s)"
      using S(4) by (simp add: inv_drains_def E)
    ultimately show ?thesis
      using waits(1,4) by (simp add: exec_acquire_def with_pool_def sys_inv_def)
  qed
qed

text \<open>A slot that a lease or an unread answer holds is in use.\<close>

lemma lease_in_use:
  assumes "sys_inv s" "k < length (leases s)" "\<not> released (leases s ! k)"
  shows "lease_sandbox (leases s ! k) < length (heap (pool s))"
    "inFlight (heap (pool s) ! lease_sandbox (leases s ! k)) > 0"
proof -
  let ?x = "lease_sandbox (leases s ! k)"
  show lt: "?x < length (heap (pool s))"
    using sys_invD(3)[OF assms(1)] assms(2) by (simp add: inv_leases_def)
  have "filter (\<lambda>l. \<not> released l \<and> lease_sandbox l = ?x) (leases s) \<noteq> []"
    using assms(2,3) by (auto simp: filter_empty_conv intro!: bexI[of _ "leases s ! k"])
  then have "leases_on (leases s) ?x > 0"
    by (simp add: leases_on_def)
  moreover have "owed (pool s) (waiting s) ?x = leases_on (leases s) ?x"
    using sys_invD(3)[OF assms(1)] lt by (simp add: inv_leases_def)
  moreover have "0 \<le> grants (waiters (pool s)) (waiting s) ?x"
    by (simp add: grants_def)
  ultimately show "inFlight (heap (pool s) ! ?x) > 0"
    unfolding owed_def by linarith
qed

lemma grant_in_use:
  assumes "sys_inv s" "w \<in> set (waiting s)" "result (waiters (pool s) ! w) = Some (Granted r)"
  shows "r < length (heap (pool s))" "inFlight (heap (pool s) ! r) > 0"
proof -
  note S = sys_invD[OF assms(1)]
  show lt: "r < length (heap (pool s))"
    using S(1) assms(3) inv_waitingD(2)[OF S(2) assms(2)] unfolding pool_inv_def pool_parts_def inv_queue_def by blast
  have "filter (\<lambda>v. result (waiters (pool s) ! v) = Some (Granted r)) (waiting s) \<noteq> []"
    using assms(2,3) by (auto simp: filter_empty_conv)
  then have "grants (waiters (pool s)) (waiting s) r > 0"
    by (simp add: grants_def)
  moreover have "owed (pool s) (waiting s) r = leases_on (leases s) r"
    using S(3) lt by (simp add: inv_leases_def)
  moreover have "0 \<le> leases_on (leases s) r"
    by simp
  ultimately show "inFlight (heap (pool s) ! r) > 0"
    unfolding owed_def by linarith
qed

lemma Lease_Release_ok:
  assumes "sys_inv s" "k < length (leases s)"
  shows "\<exists>s'. Lease_Release now k s = Inr s' \<and> sys_inv s'"
proof (cases "released (leases s ! k)")
  case True
  then show ?thesis
    using assms(1) by (simp add: Lease_Release_def)
next
  case False
  note S = sys_invD[OF assms(1)]
  let ?r = "lease_sandbox (leases s ! k)" and ?ls = "(leases s)[k := (leases s ! k)\<lparr>released := True\<rparr>]"
  obtain q where q: "release (ctx_err s) now ?r (pool s) = Inr q" "released_ok ?r (pool s) q"
    using release_ok[OF S(1) lease_in_use[OF assms False]] by blast
  then have op: "op_ok {} {} (\<lambda>x. if x = ?r then - 1 else 0) (pool s) q"
    by (simp add: released_ok_def op_ok_def)
  have "inv_leases q (waiting s) ?ls"
  proof (rule step_leases[OF S(3,2) op, where e = "\<lambda>_. 0"])
    show "lease_sandbox l < length (heap q)" if "l \<in> set ?ls" for l
    proof -
      have "l \<in> insert ((leases s ! k)\<lparr>released := True\<rparr>) (set (leases s))"
        using that set_update_subset_insert by (rule rev_subsetD)
      then show ?thesis
        using S(3) op_okD(2)[OF op] lease_in_use(1)[OF assms False] by (auto simp: inv_leases_def)
    qed
  qed (use leases_on_release[OF assms(2) False] in auto)
  then show ?thesis
    using q(1) False step_waiting[OF S(2) op] step_drains[OF S(4) op] op_okD(1)[OF op]
    by (simp add: Lease_Release_def sys_inv_def)
qed

text \<open>A client takes its answer and releases the slot at once, because its context is done.\<close>

lemma answered_release:
  assumes "sys_inv s" "w \<in> set (waiting s)" "result (waiters (pool s) ! w) = Some (Granted r)"
    and "op_ok {} {} (\<lambda>x. if x = r then - 1 else 0) (pool s) q"
  shows "sys_inv ((with_pool q s)\<lparr>waiting := remove1 w (waiting s)\<rparr>)"
proof -
  note S = sys_invD[OF assms(1)]
  have lt: "w < length (waiters (pool s))"
    by (rule inv_waitingD(2)[OF S(2) assms(2)])
  have kept: "result (waiters q ! w) = Some (Granted r)"
    using op_okD(7)[OF assms(4) lt] assms(3) by simp
  have "w \<notin> set (pending q)"
    using kept inv_queueD(3)[of q w] op_okD(1)[OF assms(4)] by (auto simp: pool_inv_def pool_parts_def)
  then have "inv_waiting q (remove1 w (waiting s))"
    by (intro step_waiting_remove[OF S(2) assms(4)]) simp_all
  moreover have "inv_leases q (remove1 w (waiting s)) (leases s)"
    by (rule step_leases[OF S(3,2) assms(4), where e = "\<lambda>x. if x = r then 1 else 0"])
      (use S(3) op_okD(2)[OF assms(4)] kept owed_remove1[OF assms(2), of q] in \<open>auto simp: inv_leases_def\<close>)
  ultimately show ?thesis
    using step_drains[OF S(4) assms(4)] op_okD(1)[OF assms(4)] by (simp add: sys_inv_def with_pool_def)
qed

text \<open>A client takes its answer off the channel; a grant becomes a lease.\<close>

lemma answered_taken:
  assumes "sys_inv s" "w \<in> set (waiting s)" "result (waiters (pool s) ! w) = Some res"
  shows "sys_inv (s\<lparr>waiting := remove1 w (waiting s),
    leases := (case res of Granted r \<Rightarrow> leases s @ [new_lease r] | Refused e \<Rightarrow> leases s)\<rparr>)"
proof -
  note S = sys_invD[OF assms(1)]
  have op: "op_ok {} {} (\<lambda>_. 0) (pool s) (pool s)"
    by (rule op_ok_refl[OF S(1)])
  have "w \<notin> set (pending (pool s))"
    using assms(3) inv_queueD(3)[of "pool s" w] S(1) by (auto simp: pool_inv_def pool_parts_def)
  then have "inv_waiting (pool s) (remove1 w (waiting s))"
    by (intro step_waiting_remove[OF S(2) op]) simp_all
  moreover have "inv_leases (pool s) (remove1 w (waiting s))
      (case res of Granted r \<Rightarrow> leases s @ [new_lease r] | Refused e \<Rightarrow> leases s)"
    by (rule step_leases[OF S(3,2) op, where e = "\<lambda>x. if res = Granted x then 1 else 0"])
      (use S(3) assms owed_remove1[OF assms(2), of "pool s"] grant_in_use(1)[OF assms(1,2)]
        in \<open>auto simp: inv_leases_def split: acquireResult.splits\<close>)
  ultimately show ?thesis
    using S(1,4) by (simp add: sys_inv_def)
qed

lemma release_op:
  assumes "sys_inv s" "w \<in> set (waiting s)" "result (waiters (pool s) ! w) = Some (Granted r)"
  obtains q where "release (ctx_err s) now r (pool s) = Inr q" "op_ok {} {} (\<lambda>x. if x = r then - 1 else 0) (pool s) q"
  using release_ok[OF sys_invD(1)[OF assms(1)] grant_in_use[OF assms]]
  by (auto simp: released_ok_def op_ok_def)

lemma exec_receive_ok:
  assumes "sys_inv s" "w \<in> set (waiting s)" "result (waiters (pool s) ! w) = Some res"
  shows "\<exists>s'. exec_receive now w res s = Inr s' \<and> sys_inv s'"
proof (cases res)
  case (Refused e)
  have "with_pool (pool s) s\<lparr>waiting := ws\<rparr> = s\<lparr>waiting := ws, leases := leases s\<rparr>" for ws
    by (cases s) (simp add: with_pool_def)
  then show ?thesis
    using answered_taken[OF assms] Refused by (simp add: exec_receive_def acquireReceive_def)
next
  case (Granted r)
  note res = assms(3)[unfolded Granted]
  show ?thesis
  proof (cases "ctx_err s (wctx (waiters (pool s) ! w))")
    case True
    obtain q where q: "release (ctx_err s) now r (pool s) = Inr q" "op_ok {} {} (\<lambda>x. if x = r then - 1 else 0) (pool s) q"
      by (rule release_op[OF assms(1,2) res])
    then show ?thesis
      using answered_release[OF assms(1,2) res q(2)] True Granted by (simp add: exec_receive_def acquireReceive_def)
  next
    case False
    have "with_pool (pool s) s\<lparr>waiting := ws, leases := ls\<rparr> = s\<lparr>waiting := ws, leases := ls\<rparr>" for ws ls
      by (cases s) (simp add: with_pool_def)
    then show ?thesis
      using answered_taken[OF assms] False Granted by (simp add: exec_receive_def acquireReceive_def)
  qed
qed

lemma exec_give_up_ok:
  assumes "sys_inv s" "w \<in> set (waiting s)"
  shows "\<exists>s'. exec_give_up now w s = Inr s' \<and> sys_inv s'"
proof -
  note S = sys_invD[OF assms(1)]
  have lt: "w < length (waiters (pool s))"
    by (rule inv_waitingD(2)[OF S(2) assms(2)])
  show ?thesis
  proof (cases "elem (waiters (pool s) ! w)")
    case True
    obtain q where q: "acquireCancel (ctx_err s) now w (pool s) = Inr q" and op: "op_ok {} {w} (\<lambda>_. 0) (pool s) q"
      and res: "result (waiters q ! w) = result (waiters (pool s) ! w)" and off: "w \<notin> set (pending q)"
      using acquireCancel_queued_ok[OF S(1) lt True] by blast
    have none: "result (waiters q ! w) = None"
      using S(1) lt True unfolding res pool_inv_def pool_parts_def inv_queue_def by blast
    have "inv_leases q (remove1 w (waiting s)) (leases s)"
      by (rule step_leases[OF S(3,2) op, where e = "\<lambda>_. 0"])
        (use S(3) op_okD(2)[OF op] none owed_remove1[OF assms(2), of q] in \<open>auto simp: inv_leases_def\<close>)
    then show ?thesis
      using q step_waiting_remove[OF S(2) op _ off] step_drains[OF S(4) op] op_okD(1)[OF op]
      by (simp add: exec_give_up_def sys_inv_def with_pool_def)
  next
    case False
    then obtain res where res: "result (waiters (pool s) ! w) = Some res"
      using inv_waitingD(4)[OF S(2) assms(2)] by blast
    show ?thesis
    proof (cases res)
      case (Granted r)
      note g = res[unfolded Granted]
      obtain q where q: "release (ctx_err s) now r (pool s) = Inr q" "op_ok {} {} (\<lambda>x. if x = r then - 1 else 0) (pool s) q"
        by (rule release_op[OF assms g])
      then show ?thesis
        using answered_release[OF assms g q(2)] False g by (simp add: exec_give_up_def acquireCancel_def)
    next
      case (Refused e)
      have "with_pool (pool s) s\<lparr>waiting := ws\<rparr> = s\<lparr>waiting := ws, leases := leases s\<rparr>" for ws
        by (cases s) (simp add: with_pool_def)
      then show ?thesis
        using answered_taken[OF assms res] False res Refused by (simp add: exec_give_up_def acquireCancel_def)
    qed
  qed
qed

subsection \<open>Reachable states\<close>

lemma pool_exec_ok: "sys_inv s \<Longrightarrow> \<exists>s'. pool_exec now e s = Inr s' \<and> sys_inv s'"
proof (cases e)
  assume inv: "sys_inv s"
  note S = sys_invD[OF inv] and plain = plain_step[OF inv]
  { case (EvConfigure order l d)
    then show ?thesis
      using inv plain[OF Configure_ok[OF S(1)]] by simp }
  { case (EvSetDemandWake wake)
    then show ?thesis
      using plain[OF SetDemandWake_ok[OF S(1)]] by simp }
  { case (EvAdd t)
    then show ?thesis
      using plain[OF Add_ok[OF S(1)]] by simp }
  { case (EvSync order1 order2 ts)
    then show ?thesis
      using inv plain[OF Sync_ok[OF S(1)]] by simp }
  { case (EvRemove i)
    then show ?thesis
      using plain[OF Remove_ok[OF S(1)]] by simp }
  { case (EvDrain i)
    then show ?thesis
      using exec_drain_ok[OF inv] by simp }
  { case (EvDrained k)
    then show ?thesis
      using inv drain_ready_step[OF inv] by simp }
  { case (EvDrainCancelled k)
    have "drain_ref (drains s ! k) < length (heap (pool s))" if "k < length (drains s)" "drain_active (drains s ! k)"
      using S(4) that by (auto simp: inv_drains_def)
    then show ?thesis
      using inv drain_over_step[OF inv _ _ restore_ok[OF S(1)]] EvDrainCancelled by (simp add: drain_active_def) }
  { case (EvFinishDrain k stopped)
    then show ?thesis
      using inv drain_over_step[OF inv _ _ finishDrain_ok[OF S(1)]] by (simp add: drain_active_def) }
  { case (EvAcquire c)
    then show ?thesis
      using exec_acquire_ok[OF inv] by simp }
  { case (EvReceive w)
    then show ?thesis
      using inv exec_receive_ok[OF inv] by (simp split: option.split) }
  { case (EvGiveUp w)
    then show ?thesis
      using inv exec_give_up_ok[OF inv] by simp }
  { case (EvRelease k)
    then show ?thesis
      using inv Lease_Release_ok[OF inv] by simp }
  { case EvTakeHighWater
    then show ?thesis
      using plain[OF TakeHighWater_ok[OF S(1)]] by simp }
  { case EvClose
    then show ?thesis
      using plain[OF Close_ok[OF S(1)]] by simp }
  { case (EvContextDone c)
    then show ?thesis
      using inv by (simp add: sys_inv_def) }
qed

lemma initial_sys_inv: "sys_inv (initial_sys newLimit newDepth)"
proof -
  have "heap (NewSandboxPool newLimit newDepth) = []" "pending (NewSandboxPool newLimit newDepth) = []"
    by (simp_all add: NewSandboxPool_def Configure_def emptyPool_def Let_def dispatch_Nil)
  then show ?thesis
    by (simp add: sys_inv_def initial_sys_def NewSandboxPool_inv inv_waiting_def inv_leases_def inv_drains_def)
qed

lemma reach_inv: "pool_reach newLimit newDepth s \<Longrightarrow> sys_inv s"
proof (induction rule: pool_reach.induct)
  case start
  then show ?case
    by (rule initial_sys_inv)
next
  case (step s now e s')
  then show ?case
    using pool_exec_ok[of s now e] by auto
qed

lemma pool_run_reach:
  "pool_reach newLimit newDepth s \<Longrightarrow> pool_run es s = Inr s' \<Longrightarrow> pool_reach newLimit newDepth s'"
proof (induction es arbitrary: s)
  case (Cons x es)
  obtain now e where x: "x = (now, e)"
    by fastforce
  show ?case
    using Cons.prems Cons.IH pool_reach.step[OF Cons.prems(1)] by (auto simp: x split: sum.splits)
qed simp

text \<open>How a step changes the pool: by an operation within its frame, or by queueing one request.\<close>

definition pool_stepped :: "int \<Rightarrow> pool_event \<Rightarrow> SandboxPool \<Rightarrow> SandboxPool \<Rightarrow> bool" where
  "pool_stepped now e p q \<longleftrightarrow>
     (\<exists>D W d. op_ok D W d p q \<and> ((\<exists>w. e = EvGiveUp w \<and> W \<subseteq> {w}) \<or> W = {})) \<or>
     (\<exists>c. e = EvAcquire c \<and> ready p = [] \<and> enqueued now c p q \<and> int (length (pending p)) < queueDepth p)"

lemma stepped_op: "op_ok D {} d p q \<Longrightarrow> pool_stepped now e p q"
  by (auto simp: pool_stepped_def)

lemma stepped_refl: "pool_inv p \<Longrightarrow> pool_stepped now e p p"
  by (rule stepped_op[OF op_ok_refl])

lemma stepped_release:
  "pool_inv p \<Longrightarrow> r < length (heap p) \<Longrightarrow> inFlight (heap p ! r) > 0 \<Longrightarrow> release err now' r p = Inr q \<Longrightarrow> pool_stepped now e p q"
  using release_ok[of p r err now'] by (auto simp: released_ok_def op_ok_def intro!: stepped_op)

lemma pool_exec_stepped:
  assumes inv: "sys_inv s" and run: "pool_exec now e s = Inr s'"
  shows "pool_stepped now e (pool s) (pool s')"
proof (cases e)
  note S = sys_invD[OF inv]
  { case (EvConfigure order l d)
    then show ?thesis
      using run stepped_op[OF Configure_ok[OF S(1)]] stepped_refl[OF S(1)] by (auto simp: with_pool_def split: if_splits) }
  { case (EvSetDemandWake wake)
    then show ?thesis
      using run stepped_op[OF SetDemandWake_ok[OF S(1)]] by (auto simp: with_pool_def) }
  { case (EvAdd t)
    then show ?thesis
      using run stepped_op[OF Add_ok[OF S(1)]] by (auto simp: with_pool_def) }
  { case (EvSync order1 order2 ts)
    then show ?thesis
      using run stepped_op[OF Sync_ok[OF S(1)]] stepped_refl[OF S(1)] by (auto simp: with_pool_def split: if_splits) }
  { case (EvRemove i)
    then show ?thesis
      using run stepped_op[OF Remove_ok[OF S(1)]] by (auto simp: with_pool_def) }
  { case (EvDrain i)
    obtain res q where D: "Drain i (pool s) = (res, q)"
      by fastforce
    show ?thesis
      using EvDrain run Drain_ok[OF S(1) D] D stepped_refl[OF S(1)] stepped_op
      by (auto simp: exec_drain_def with_pool_def split: sum.splits) }
  { case (EvDrained k)
    then show ?thesis
      using run stepped_refl[OF S(1)] by (auto simp: set_phase_def split: if_splits) }
  { case (EvDrainCancelled k)
    have "drain_ref (drains s ! k) < length (heap (pool s))" if "k < length (drains s)" "phase (drains s ! k) = DrainWaits"
      using S(4) that by (auto simp: inv_drains_def drain_active_def)
    then show ?thesis
      using EvDrainCancelled run stepped_op[OF restore_ok[OF S(1)]] stepped_refl[OF S(1)]
      by (auto simp: set_phase_def with_pool_def split: if_splits) }
  { case (EvFinishDrain k stopped)
    then show ?thesis
      using run stepped_op[OF finishDrain_ok[OF S(1)]] stepped_refl[OF S(1)]
      by (auto simp: set_phase_def with_pool_def split: if_splits) }
  { case (EvAcquire c)
    from S(1) show ?thesis
    proof (cases rule: Acquire_cases[where err = "ctx_err s" and now = now and c = c])
      case (refused e')
      then show ?thesis
        using EvAcquire run stepped_refl[OF S(1)] by (auto simp: exec_acquire_def with_pool_def)
    next
      case (lease r rest q)
      then show ?thesis
        using EvAcquire run stepped_op by (auto simp: exec_acquire_def with_pool_def)
    next
      case (waits q)
      then show ?thesis
        using EvAcquire run by (auto simp: exec_acquire_def with_pool_def pool_stepped_def)
    qed }
  { case (EvReceive w)
    show ?thesis
    proof (cases "w \<in> set (waiting s) \<and> result (waiters (pool s) ! w) \<noteq> None")
      case True
      then obtain res where res: "w \<in> set (waiting s)" "result (waiters (pool s) ! w) = Some res"
        by blast
      then show ?thesis
        using EvReceive run stepped_refl[OF S(1)] stepped_release[OF S(1)] grant_in_use[OF inv res(1)]
        by (auto simp: exec_receive_def acquireReceive_def with_pool_def split: acquireResult.splits if_splits sum.splits)
    next
      case False
      then show ?thesis
        using EvReceive run stepped_refl[OF S(1)] by (auto split: if_splits)
    qed }
  { case (EvGiveUp w)
    show ?thesis
    proof (cases "w \<in> set (waiting s) \<and> ctx_err s (wctx (waiters (pool s) ! w))")
      case True
      then have w: "w \<in> set (waiting s)"
        by simp
      show ?thesis
      proof (cases "elem (waiters (pool s) ! w)")
        case queued: True
        obtain q where "acquireCancel (ctx_err s) now w (pool s) = Inr q" "op_ok {} {w} (\<lambda>_. 0) (pool s) q"
          using acquireCancel_queued_ok[OF S(1) inv_waitingD(2)[OF S(2) w] queued] by blast
        then show ?thesis
          using EvGiveUp run True by (auto simp: exec_give_up_def with_pool_def pool_stepped_def, blast)
      next
        case False
        then show ?thesis
          using EvGiveUp run True stepped_refl[OF S(1)] stepped_release[OF S(1)] grant_in_use[OF inv w]
          by (auto simp: exec_give_up_def acquireCancel_def with_pool_def split: sum.splits option.splits acquireResult.splits)
      qed
    next
      case False
      then show ?thesis
        using EvGiveUp run stepped_refl[OF S(1)] by auto
    qed }
  { case (EvRelease k)
    show ?thesis
    proof (cases "k < length (leases s) \<and> \<not> released (leases s ! k)")
      case True
      then have k: "k < length (leases s)" "\<not> released (leases s ! k)"
        by simp_all
      show ?thesis
        using EvRelease run k stepped_release[OF S(1) lease_in_use[OF inv k]]
        by (auto simp: Lease_Release_def split: sum.splits)
    next
      case False
      then show ?thesis
        using EvRelease run stepped_refl[OF S(1)] by (auto simp: Lease_Release_def split: if_splits)
    qed }
  { case EvTakeHighWater
    then show ?thesis
      using run stepped_op[OF TakeHighWater_ok[OF S(1)]] by (auto simp: with_pool_def) }
  { case EvClose
    then show ?thesis
      using run stepped_op[OF Close_ok[OF S(1)]] by (auto simp: with_pool_def) }
  { case (EvContextDone c)
    then show ?thesis
      using run stepped_refl[OF S(1)] by auto }
qed

subsection \<open>Consequences of the invariant\<close>

lemma available_slots_sum:
  assumes "inv_map p"
  shows "available_slots p = (\<Sum>r \<in> {r \<in> live p. inFlight (heap p ! r) < limit p}. limit p - inFlight (heap p ! r))"
proof -
  let ?f = "\<lambda>r. if \<not> draining (heap p ! r) \<and> inFlight (heap p ! r) < limit p then limit p - inFlight (heap p ! r) else 0"
  have "foldl (\<lambda>n (i, r). if \<not> draining (heap p ! r) \<and> inFlight (heap p ! r) < limit p
                        then n + (limit p - inFlight (heap p ! r)) else n) a m = a + (\<Sum>r \<leftarrow> map snd m. ?f r)" for a and m :: "(u64 \<times> nat) list"
    by (induction m arbitrary: a) auto
  then have "available_slots p = (\<Sum>r \<leftarrow> map snd (sandboxes p). ?f r)"
    by (simp add: available_slots_def)
  also have "\<dots> = (\<Sum>r \<in> set (map snd (sandboxes p)). ?f r)"
  proof (rule sum_list_distinct_conv_sum_set)
    have "distinct (map fst (sandboxes p))" "\<forall>x \<in> set (sandboxes p). fst x = InstanceID (target (heap p ! snd x))"
      using assms by (auto simp: inv_map_def gomap_inv_def)
    then show "distinct (map snd (sandboxes p))"
      by (metis (no_types, lifting) distinct_map inj_onI prod_eqI)
  qed
  also have "set (map snd (sandboxes p)) = {r. mapped p r}"
    using assms inv_map_mapped[OF assms] by (force simp: mapped_def inv_map_def gomap_inv_map_of)
  also have "(\<Sum>r \<in> {r. mapped p r}. ?f r) = (\<Sum>r \<in> {r \<in> live p. inFlight (heap p ! r) < limit p}. limit p - inFlight (heap p ! r))"
  proof (rule sum.mono_neutral_cong_right)
    show "finite {r. mapped p r}"
      by (rule finite_subset[of _ "{..<length (heap p)}"]) (auto simp: mapped_def)
  qed (auto simp: live_def)
  finally show ?thesis .
qed

lemma ready_iff_available:
  assumes "pool_parts p" "\<not> closed p"
  shows "{r \<in> live p. inFlight (heap p ! r) < limit p} = set (ready p)"
proof (intro set_eqI iffI)
  fix r
  assume "r \<in> set (ready p)"
  then show "r \<in> {r \<in> live p. inFlight (heap p ! r) < limit p}"
    using ready_sandbox(3,4,6)[OF assms(1)] by (simp add: live_def)
next
  fix r
  assume r: "r \<in> {r \<in> live p. inFlight (heap p ! r) < limit p}"
  then have lt: "r < length (heap p)" "mapped p r" "\<not> draining (heap p ! r)" "inFlight (heap p ! r) < limit p"
    by (simp_all add: live_def mapped_def)
  then have "ready_elem (heap p ! r)"
    using pool_partsD(3)[OF assms(1)] assms(2) unfolding inv_avail_def avail_ok_def by blast
  then show "r \<in> set (ready p)"
    using inv_readyD(6)[OF pool_partsD(2)[OF assms(1)] lt(1)] assms(2) by blast
qed

text \<open>A run that the witnesses share: one sandbox of limit 1, one lease on it, one request queued behind it.\<close>

definition example_run :: "(int \<times> pool_event) list" where
  "example_run =
     [(1, EvAdd \<lparr>InstanceID = 7, WorkerID = 1, Address = ''a'', Protocol = ''http''\<rparr>), (2, EvAcquire 0), (3, EvAcquire 1)]"

definition drain_run :: "(int \<times> pool_event) list" where
  "drain_run =
     [(1, EvAdd \<lparr>InstanceID = 7, WorkerID = 1, Address = ''a'', Protocol = ''http''\<rparr>), (2, EvDrain 7), (3, EvDrained 0)]"

text \<open>One request waits, the autoscaler reads the mark, and the sandbox it starts registers.\<close>

definition highwater_run :: "(int \<times> pool_event) list" where
  "highwater_run =
     [(1, EvAcquire 0), (2, EvTakeHighWater),
      (3, EvAdd \<lparr>InstanceID = 7, WorkerID = 1, Address = ''a'', Protocol = ''http''\<rparr>)]"

definition run_end :: "(int \<times> pool_event) list \<Rightarrow> pool_sys" where
  "run_end es = (case pool_run es (initial_sys 1 5) of Inl _ \<Rightarrow> initial_sys 1 5 | Inr s \<Rightarrow> s)"

lemma run_end_reach: "pool_reach 1 5 (run_end es)"
  using pool_run_reach[OF pool_reach.start[of 1 5], of es] by (auto simp: run_end_def pool_reach.start split: sum.split)

lemma example_state:
  "leases (run_end example_run) = [new_lease 0]" "pending (pool (run_end example_run)) = [0]"
  "length (heap (pool (run_end example_run))) = 1" "inFlight (heap (pool (run_end example_run)) ! 0) = 1"
  "limit (pool (run_end example_run)) = 1" "\<not> closed (pool (run_end example_run))"
  "map_of (sandboxes (pool (run_end example_run))) 7 = Some 0"
  by code_simp+

text \<open>
  Serving a queued request notes the demand while the request is still in the queue: with live clients, the loop
  leaves the demand as it is but raises the mark to one more, as soon as it serves anybody.
\<close>

abbreviation demand :: "SandboxPool \<Rightarrow> int" where
  "demand p \<equiv> executing p + int (length (pending p))"

lemma dispatch_demand:
  assumes "pool_parts p" "\<forall>w \<in> set (pending p). \<not> err (wctx (waiters p ! w))"
  shows "demand (dispatchLocked err now p) = demand p \<and>
    highWater (dispatchLocked err now p) = (if pending p \<noteq> [] \<and> ready p \<noteq> [] then max (highWater p) (demand p + 1) else highWater p)"
proof -
  let ?Q = "\<lambda>p p'. (\<forall>w \<in> set (pending p). \<not> err (wctx (waiters p ! w))) \<longrightarrow>
    demand p' = demand p \<and> highWater p' = (if pending p \<noteq> [] \<and> ready p \<noteq> [] then max (highWater p) (demand p + 1) else highWater p)"
  from assms(1) have "?Q p (dispatchLocked err now p)"
  proof (induction rule: dispatch_induct)
    case (Grant p w rest r more p1 p')
    obtain p2 where p2: "acquireLocked now p = (Some r, p2)" "pending p2 = pending p" "executing p2 = executing p + 1" "waiters p2 = waiters p"
      "highWater p2 = max (highWater p) (executing p + 1 + int (length (pending p)))"
      using acquireLocked_Some[OF pool_partsD(2)[OF Grant(1)] Grant(4), of now] by metis
    have p1: "p1 = p2"
      using p2(1) Grant(5) by simp
    have "wctx (answer w (Granted r) (waiters p1) ! v) = wctx (waiters p1 ! v)" for v
      by (cases "v = w"; cases "w < length (waiters p1)") (simp_all add: answer_def list_update_beyond)
    then show ?case
      using Grant(2,3,4,7) p2 by (auto simp: p1)
  qed auto
  then show ?thesis
    using assms(2) by blast
qed

subsection \<open>Properties\<close>

text \<open>
  Property C1.  No interleaving of client operations makes the pool panic: neither the check
  \<^verbatim>\<open>release without lease\<close> fails nor is a \<^verbatim>\<open>drained\<close> channel closed twice, so in every reachable
  state every event has a successor state.
\<close>

theorem pool_never_panics:
  assumes "pool_reach newLimit newDepth s"
  shows "\<exists>s'. pool_exec now e s = Inr s'"
  using pool_exec_ok[OF reach_inv[OF assms]] by blast

theorem pool_never_panics_witness:
  "leases (run_end example_run) = [new_lease 0] \<and> (\<exists>s'. pool_exec 4 (EvRelease 0) (run_end example_run) = Inr s')"
  using pool_never_panics[OF run_end_reach, of 4 "EvRelease 0" example_run] example_state(1) by blast

text \<open>
  Property C2.  The counters account for every lease: the requests that a sandbox counts are the leases
  on it that were not released plus the slots granted to waiters that have not picked them up; their sum
  is \<^verbatim>\<open>executing\<close>, which is also \<^verbatim>\<open>accepted - completed\<close>, and \<^verbatim>\<open>active\<close> counts the known sandboxes
  that are not draining.
\<close>

theorem lease_accounting:
  assumes "pool_reach newLimit newDepth s"
  shows "(\<forall>r < length (heap (pool s)).
      inFlight (heap (pool s) ! r) = leases_on (leases s) r + grants (waiters (pool s)) (waiting s) r) \<and>
    executing (pool s) = (\<Sum>r < length (heap (pool s)). inFlight (heap (pool s) ! r)) \<and>
    accepted (pool s) - completed (pool s) = executing (pool s) \<and>
    active (pool s) = int (card (live (pool s)))"
  using sys_invD(1,3)[OF reach_inv[OF assms]]
  by (simp add: inv_leases_def owed_def pool_inv_def pool_parts_def inv_count_def algebra_simps)

theorem lease_accounting_witness:
  "executing (pool (run_end example_run)) =
     (\<Sum>r < length (heap (pool (run_end example_run))). inFlight (heap (pool (run_end example_run)) ! r)) \<and>
   inFlight (heap (pool (run_end example_run)) ! 0) = 1"
  using lease_accounting[OF run_end_reach, of example_run] example_state(4) by blast

text \<open>
  Property C3.  Work conservation: while a request waits in the queue, every sandbox the pool knows is
  draining or full.
\<close>

theorem work_conserving:
  assumes "pool_reach newLimit newDepth s" "pending (pool s) \<noteq> []" "map_of (sandboxes (pool s)) i = Some r"
  shows "draining (heap (pool s) ! r) \<or> limit (pool s) \<le> inFlight (heap (pool s) ! r)"
proof -
  have inv: "pool_parts (pool s)" "no_idle_wait (pool s)"
    using sys_invD(1)[OF reach_inv[OF assms(1)]] by (simp_all add: pool_inv_def)
  have "\<not> closed (pool s)" "ready (pool s) = []"
    using inv assms(2) by (auto simp: pool_parts_def inv_queue_def no_idle_wait_def)
  moreover have "mapped (pool s) r"
    by (rule inv_map_mapped[OF pool_partsD(1)[OF inv(1)] assms(3)])
  ultimately show ?thesis
    using ready_iff_available[OF inv(1)] by (force simp: live_def)
qed

theorem work_conserving_witness:
  "pending (pool (run_end example_run)) = [0] \<and>
   (draining (heap (pool (run_end example_run)) ! 0) \<or> limit (pool (run_end example_run)) \<le> inFlight (heap (pool (run_end example_run)) ! 0))"
  using work_conserving[OF run_end_reach _ example_state(7)] example_state(2) by simp

text \<open>
  Property C4.  The queue is first in, first out: apart from a client that gives up, a step removes
  waiters only from the head of the queue and gives each of them an answer, and it adds at most the
  request that is being queued, at the tail.
\<close>

theorem queue_fifo:
  assumes "pool_reach newLimit newDepth s" "pool_exec now e s = Inr s'" "\<forall>w. e \<noteq> EvGiveUp w"
  shows "\<exists>n new. pending (pool s') = drop n (pending (pool s)) @ new \<and>
    (new = [] \<or> new = [length (waiters (pool s))] \<and> (\<exists>c. e = EvAcquire c)) \<and>
    (\<forall>w \<in> set (take n (pending (pool s))). result (waiters (pool s') ! w) \<noteq> None)"
proof -
  have inv: "sys_inv s"
    by (rule reach_inv[OF assms(1)])
  from pool_exec_stepped[OF inv assms(2)] assms(3)
  consider (op) D d where "op_ok D {} d (pool s) (pool s')"
    | (queued) c where "e = EvAcquire c" "enqueued now c (pool s) (pool s')"
    unfolding pool_stepped_def by blast
  then show ?thesis
  proof cases
    case op
    then obtain n where n: "pending (pool s') = drop n (pending (pool s))"
      by (auto simp: op_ok_def frame_def)
    have "result (waiters (pool s') ! w) \<noteq> None" if w: "w \<in> set (take n (pending (pool s)))" for w
    proof -
      have q: "inv_queue (pool s)" "inv_queue (pool s')"
        using sys_invD(1)[OF inv] op_okD(1)[OF op] by (simp_all add: pool_inv_def pool_parts_def)
      have "w \<in> set (pending (pool s))"
        using w by (rule in_set_takeD)
      note W = inv_queueD[OF q(1) this]
      have "distinct (pending (pool s))"
        using q(1) by (simp add: inv_queue_def)
      then have "w \<notin> set (pending (pool s'))"
        using w unfolding n by (metis append_take_drop_id disjoint_iff distinct_append)
      then have "\<not> elem (waiters (pool s') ! w)"
        using q(2) W(1) op_okD(3)[OF op] by (simp add: inv_queue_def)
      then show ?thesis
        using op_okD(8)[OF op W(1) _ W(2)] by simp
    qed
    then show ?thesis
      using n by (intro exI[of _ n] exI[of _ "[]"]) simp
  next
    case queued
    then show ?thesis
      by (intro exI[of _ 0] exI[of _ "[length (waiters (pool s))]"]) (simp add: enqueued_def)
  qed
qed

theorem queue_fifo_witness:
  "\<exists>s' n new. pool_exec 4 (EvRelease 0) (run_end example_run) = Inr s' \<and>
     pending (pool s') = drop n [0] @ new \<and> (\<forall>w \<in> set (take n [0]). result (waiters (pool s') ! w) \<noteq> None)"
proof -
  obtain s' where s': "pool_exec 4 (EvRelease 0) (run_end example_run) = Inr s'"
    using pool_exec_ok[OF reach_inv[OF run_end_reach]] by blast
  show ?thesis
    using queue_fifo[OF run_end_reach s'] s' unfolding example_state(2) by blast
qed

text \<open>
  Property C5.  Admission control: whenever a step leaves a sandbox with more running requests than
  before, that sandbox is not draining and stays within the configured limit.
\<close>

theorem limit_respected:
  assumes "pool_reach newLimit newDepth s" "pool_exec now e s = Inr s'" "r < length (heap (pool s'))"
    and "(if r < length (heap (pool s)) then inFlight (heap (pool s) ! r) else 0) < inFlight (heap (pool s') ! r)"
  shows "inFlight (heap (pool s') ! r) \<le> limit (pool s') \<and> \<not> draining (heap (pool s') ! r)"
proof -
  from pool_exec_stepped[OF reach_inv[OF assms(1)] assms(2)]
  consider (op) D W d where "op_ok D W d (pool s) (pool s')" | (queued) c where "enqueued now c (pool s) (pool s')"
    unfolding pool_stepped_def by blast
  then show ?thesis
    using assms(3,4) by cases (auto simp: op_ok_def frame_def enqueued_def)
qed

theorem limit_respected_witness:
  "\<exists>s'. pool_exec 3 (EvAcquire 0) (run_end (take 1 example_run)) = Inr s' \<and> inFlight (heap (pool s') ! 0) = 1 \<and>
     inFlight (heap (pool s') ! 0) \<le> limit (pool s')"
proof -
  let ?s = "run_end (take 1 example_run)" and ?s' = "exec_acquire 3 0 (run_end (take 1 example_run))"
  have run: "pool_exec 3 (EvAcquire 0) ?s = Inr ?s'"
    by simp
  have "length (heap (pool ?s)) = 1 \<and> inFlight (heap (pool ?s) ! 0) = 0" "length (heap (pool ?s')) = 1 \<and> inFlight (heap (pool ?s') ! 0) = 1"
    by code_simp+
  then show ?thesis
    using limit_respected[OF run_end_reach run, of 0] run by simp
qed

text \<open>
  Property C6.  \<^verbatim>\<open>Drain\<close> waits for the requests: when its wait has succeeded, and until the returned
  function has run, the sandbox is draining and no request runs on it, so stopping it interrupts nobody.
\<close>

theorem drain_quiesces:
  assumes "pool_reach newLimit newDepth s" "k < length (drains s)" "phase (drains s ! k) = DrainReady"
  shows "draining (heap (pool s) ! drain_ref (drains s ! k)) \<and> inFlight (heap (pool s) ! drain_ref (drains s ! k)) = 0 \<and>
    leases_on (leases s) (drain_ref (drains s ! k)) = 0"
proof -
  let ?r = "drain_ref (drains s ! k)"
  note S = sys_invD[OF reach_inv[OF assms(1)]]
  have "drains s ! k \<in> set (drains s)" "drain_active (drains s ! k)"
    using assms(2,3) by (simp_all add: drain_active_def)
  then have r: "?r < length (heap (pool s))" "draining (heap (pool s) ! ?r)" "drained (heap (pool s) ! ?r) = Some True"
    using S(4) assms(3) unfolding inv_drains_def by blast+
  then have idle: "inFlight (heap (pool s) ! ?r) = 0"
    using S(1) by (simp add: pool_inv_def pool_parts_def inv_chan_def)
  have "owed (pool s) (waiting s) ?r = leases_on (leases s) ?r"
    using S(3) r(1) by (simp add: inv_leases_def)
  moreover have "0 \<le> grants (waiters (pool s)) (waiting s) ?r"
    by (simp add: grants_def)
  moreover have "0 \<le> leases_on (leases s) ?r"
    by simp
  ultimately have "leases_on (leases s) ?r = 0"
    unfolding owed_def idle by linarith
  with r(2) idle show ?thesis
    by blast
qed

theorem drain_quiesces_witness:
  "drains (run_end drain_run) = [\<lparr>drain_id = 7, drain_ref = 0, phase = DrainReady\<rparr>] \<and>
   inFlight (heap (pool (run_end drain_run)) ! 0) = 0"
proof -
  have "drains (run_end drain_run) = [\<lparr>drain_id = 7, drain_ref = 0, phase = DrainReady\<rparr>]"
    by code_simp
  then show ?thesis
    using drain_quiesces[OF run_end_reach, of 0 drain_run] by simp
qed

text \<open>
  Property C7.  A request is queued only when no sandbox has a free slot, and then the queue is within its
  configured depth; \<^verbatim>\<open>ErrQueueFull\<close> is returned exactly in the remaining case.
\<close>

theorem Acquire_queue_bound:
  assumes "pool_reach newLimit newDepth s" "\<not> ctx_err s c" "\<not> closed (pool s)"
  shows "case Acquire (ctx_err s) now c (pool s) of
      (AcqLease r, p') \<Rightarrow> ready (pool s) \<noteq> [] \<and> r = hd (ready (pool s)) \<and> inFlight (heap p' ! r) \<le> limit p'
    | (AcqWaits w, p') \<Rightarrow> ready (pool s) = [] \<and> pending p' = pending (pool s) @ [w] \<and> int (length (pending p')) \<le> queueDepth p'
    | (AcqError e, p') \<Rightarrow> e = ErrQueueFull \<and> p' = pool s \<and> ready (pool s) = [] \<and> queueDepth p' \<le> int (length (pending p'))"
proof -
  have inv: "pool_inv (pool s)"
    by (rule sys_invD(1)[OF reach_inv[OF assms(1)]])
  then show ?thesis
  proof (cases rule: Acquire_cases[where err = "ctx_err s" and now = now and c = c])
    case (refused e)
    then show ?thesis
      using assms(2,3) by auto
  next
    case (lease r rest p')
    have "limit p' = limit (pool s)"
      using acquire_dispatched(1)[where err = "ctx_err s", OF _ lease(2,4)] inv by (simp add: pool_inv_def dispatched_def)
    then show ?thesis
      using lease(1,2,6) by simp
  next
    case (waits p')
    then show ?thesis
      by (simp add: enqueued_def)
  qed
qed

theorem Acquire_queue_bound_witness:
  "case Acquire (ctx_err (run_end example_run)) 4 9 (pool (run_end example_run)) of
     (AcqWaits w, p') \<Rightarrow> w = 1 \<and> int (length (pending p')) \<le> queueDepth p' | _ \<Rightarrow> False"
proof -
  have "\<not> ctx_err (run_end example_run) 9"
    "case Acquire (ctx_err (run_end example_run)) 4 9 (pool (run_end example_run)) of (AcqWaits w, p') \<Rightarrow> w = 1 | _ \<Rightarrow> False"
    by code_simp+
  then show ?thesis
    using Acquire_queue_bound[OF run_end_reach _ example_state(6), of 9 4] by (auto split: prod.splits acquire_outcome.splits)
qed

text \<open>
  Property C8.  The free concurrency that \<^verbatim>\<open>Snapshot\<close> reports for an open pool is the sum of the free slots of
  the sandboxes in the ready list, and it is positive exactly when a request would be served at once.
\<close>

theorem Snapshot_available:
  assumes "pool_reach newLimit newDepth s" "\<not> closed (pool s)"
  shows "available_slots (pool s) = (\<Sum>r \<in> set (ready (pool s)). limit (pool s) - inFlight (heap (pool s) ! r)) \<and>
    (available_slots (pool s) > 0 \<longleftrightarrow> ready (pool s) \<noteq> []) \<and>
    AvailableConcurrency (Snapshot (pool s)) = word_of_int (available_slots (pool s))"
proof -
  have parts: "pool_parts (pool s)"
    using sys_invD(1)[OF reach_inv[OF assms(1)]] by (simp add: pool_inv_def)
  have sum: "available_slots (pool s) = (\<Sum>r \<in> set (ready (pool s)). limit (pool s) - inFlight (heap (pool s) ! r))"
    using available_slots_sum[OF pool_partsD(1)[OF parts]] unfolding ready_iff_available[OF parts assms(2)] .
  moreover have "available_slots (pool s) > 0" if "ready (pool s) \<noteq> []"
    unfolding sum by (rule sum_pos) (use that ready_sandbox(6)[OF parts] in auto)
  ultimately show ?thesis
    by (auto simp: Snapshot_def)
qed

theorem Snapshot_available_witness:
  "available_slots (pool (run_end (take 1 example_run))) > 0 \<and> ready (pool (run_end (take 1 example_run))) = [0]"
proof -
  have "\<not> closed (pool (run_end (take 1 example_run)))" "ready (pool (run_end (take 1 example_run))) = [0]"
    by code_simp+
  then show ?thesis
    using Snapshot_available[OF run_end_reach, of "take 1 example_run"] by simp
qed

text \<open>
  Property C9.  \<^verbatim>\<open>Close\<close> wakes everybody: each queued waiter gets \<^verbatim>\<open>ErrPoolClosed\<close>, the queue is empty
  afterwards, and from then on \<^verbatim>\<open>Acquire\<close> and \<^verbatim>\<open>Drain\<close> refuse with the same error.
\<close>

theorem Close_wakes_all:
  assumes "pool_reach newLimit newDepth s" "\<not> closed (pool s)"
  shows "(\<forall>w \<in> set (pending (pool s)). result (waiters (Close (pool s)) ! w) = Some (Refused ErrPoolClosed)) \<and>
    pending (Close (pool s)) = [] \<and>
    (\<forall>err now c. \<not> err c \<longrightarrow> Acquire err now c (Close (pool s)) = (AcqError ErrPoolClosed, Close (pool s))) \<and>
    (\<forall>i. Drain i (Close (pool s)) = (Inl ErrPoolClosed, Close (pool s)))"
  using Close_effect[OF sys_invD(1)[OF reach_inv[OF assms(1)]] assms(2)]
  by (simp add: Acquire_def Drain_def)

theorem Close_wakes_all_witness:
  "result (waiters (Close (pool (run_end example_run))) ! 0) = Some (Refused ErrPoolClosed)"
  using Close_wakes_all[OF run_end_reach example_state(6)] by (simp add: example_state(2))

text \<open>
  Property C15.  The high-water mark counts a dispatched request twice.  \<^verbatim>\<open>acquireLocked\<close> notes the demand while the
  request it serves is still in the queue: in every reachable state, when the registration of a sandbox serves
  queued requests of live clients, the demand (requests running and queued) is the same before and after, and yet
  the mark rises to one more than the demand, which is what the next \<^verbatim>\<open>TakeHighWater\<close> reports to the autoscaler.
\<close>

theorem highWater_counts_twice:
  assumes "pool_reach newLimit newDepth s" "pool_exec now (EvAdd t) s = Inr s'"
    and "\<forall>w \<in> set (pending (pool s)). \<not> ctx_err s (wctx (waiters (pool s) ! w))" "pending (pool s') \<noteq> pending (pool s)"
  shows "executing (pool s') + int (length (pending (pool s'))) = executing (pool s) + int (length (pending (pool s))) \<and>
    highWater (pool s') = max (highWater (pool s)) (executing (pool s) + int (length (pending (pool s))) + 1) \<and>
    fst (TakeHighWater (pool s')) > executing (pool s') + int (length (pending (pool s')))"
proof -
  let ?p = "pool s" and ?q = "insertSandbox t (pool s)"
  have parts: "pool_parts ?p"
    using sys_invD(1)[OF reach_inv[OF assms(1)]] by (simp add: pool_inv_def)
  have add: "pool s' = Add (ctx_err s) now t ?p"
    using assms(2) by (auto simp: with_pool_def)
  have none: "map_of (sandboxes ?p) (InstanceID t) = None" and e: "pool s' = dispatchLocked (ctx_err s) now ?q"
    using assms(4) unfolding add Add_def by (auto split: if_splits option.splits)
  note I = insertSandbox_ok[OF parts none frame_refl refl refl]
  have f: "executing ?q = executing ?p" "highWater ?q = highWater ?p"
    by (simp_all add: insertSandbox_def)
  have live: "\<forall>w \<in> set (pending ?q). \<not> ctx_err s (wctx (waiters ?q ! w))"
    using assms(3) I(3,4) by simp
  note D = dispatch_demand[OF I(1) live, of now, folded e]
  have "pending ?q \<noteq> [] \<and> ready ?q \<noteq> []"
  proof (rule ccontr)
    assume "\<not> ?thesis"
    then have "dispatchLocked (ctx_err s) now ?q = ?q"
      using live dispatch_Nil[of ?q] dispatch_stuck[of ?q _ _ "ctx_err s" now] by (cases "pending ?q") auto
    then show False
      using assms(4) I(4) e by simp
  qed
  then have "demand (pool s') = demand ?p \<and> highWater (pool s') = max (highWater ?p) (demand ?p + 1)"
    using D I(4) f by simp
  then show ?thesis
    by (simp add: TakeHighWater_def Let_def)
qed

theorem highWater_counts_twice_witness:
  "executing (pool (run_end highwater_run)) + int (length (pending (pool (run_end highwater_run)))) = 1 \<and>
   fst (TakeHighWater (pool (run_end highwater_run))) > 1"
proof -
  let ?t = "\<lparr>InstanceID = 7, WorkerID = 1, Address = ''a'', Protocol = ''http''\<rparr>"
  have step: "pool_exec 3 (EvAdd ?t) (run_end (take 2 highwater_run)) = Inr (run_end highwater_run)"
    by code_simp
  have state: "pending (pool (run_end (take 2 highwater_run))) = [0]" "done_ctx (run_end (take 2 highwater_run)) = []"
    "pending (pool (run_end highwater_run)) = []" "executing (pool (run_end highwater_run)) = 1"
    by code_simp+
  show ?thesis
    using highWater_counts_twice[OF run_end_reach step] state by (simp add: ctx_err_def)
qed

end
