(* ===== verification/Core_Types.thy ===== *)
theory Core_Types
  imports Prelude
begin

text \<open>
  The messages of \<^verbatim>\<open>proto/core.proto\<close> that the components exchange, the status codes of gRPC and the
  validation of the platform configuration (\<^verbatim>\<open>pkg/core/validate.go\<close>).

  A message is a record with the fields of the proto file; a field that is itself a message is an
  option, \<^const>\<open>None\<close> being nil.  A \<^verbatim>\<open>oneof\<close> is a datatype under an option.  Durations and timestamps
  count nanoseconds.  An error is the status code it carries; the texts of the messages are left out.
  Messages are values, so \<^verbatim>\<open>proto.Clone\<close> is the identity on them.
\<close>

subsection \<open>Status codes\<close>

datatype code =
    Canceled | Unknown | InvalidArgument | DeadlineExceeded | NotFound | AlreadyExists
  | PermissionDenied | ResourceExhausted | FailedPrecondition | Aborted | OutOfRange
  | Unimplemented | Internal | Unavailable | DataLoss | Unauthenticated

text \<open>An error built by \<^verbatim>\<open>status.Error\<close> carries a code; any other error is plain.\<close>

datatype go_error = StatusError code | PlainError

subsection \<open>Users and functions\<close>

record UserSpec =
  user_id :: u64
  user_name :: string

record ResourceSpec =
  cpu_units :: u64
  memory_bytes :: u64
  disk_bytes :: u64

datatype IsolationKind =
    ISOLATION_KIND_UNSPECIFIED | ISOLATION_KIND_DOCKER | ISOLATION_KIND_CONTAINERD
  | ISOLATION_KIND_FIRECRACKER | ISOLATION_KIND_FAKE

record RuntimeSpec =
  rt_image :: string
  rt_command :: "string list"
  rt_args :: "string list"
  rt_env :: "(string, string) gomap"
  rt_isolation :: IsolationKind
  rt_resources :: "ResourceSpec option"
  rt_execution_timeout :: "int option"
  rt_protocol :: string

record ScalePolicySpec =
  min_instances :: u64
  max_instances :: u64
  target_concurrency :: u64
  max_concurrency :: u64
  scale_to_zero_idle_timeout :: "int option"
  cold_start_timeout :: "int option"
  request_timeout :: "int option"
  max_concurrent_cold_starts :: u64
  max_queue_depth :: u64
  queue_timeout :: "int option"

record FunctionSpec =
  fn_user_id :: u64
  fn_function_id :: u64
  fn_runtime :: "RuntimeSpec option"
  fn_scale :: "ScalePolicySpec option"

datatype FunctionEventType =
    FUNCTION_EVENT_TYPE_UNSPECIFIED | FUNCTION_EVENT_TYPE_CREATED
  | FUNCTION_EVENT_TYPE_UPDATED | FUNCTION_EVENT_TYPE_DELETED

record FunctionEvent =
  ev_type :: FunctionEventType
  ev_function :: "FunctionSpec option"
  ev_observed_at :: "int option"

subsection \<open>The platform configuration\<close>

record BoundedLoadsPolicy =
  bl_bound :: float64
  bl_max_chain_len :: int

record RandomJumpRoutingPolicy =
  rj_bound :: float64
  rj_max_jumps :: int

record FunctionLatencyEstimate =
  le_function_id :: u64
  le_cold_time_ms :: float64
  le_warm_time_ms :: float64

record CHRLURoutingPolicy =
  ru_bound :: float64
  ru_max_chain_len :: int
  ru_max_bound :: float64
  ru_cold_time_ms :: float64
  ru_warm_time_ms :: float64
  ru_sample_percent :: u32
  ru_popular_iat_ms :: float64
  ru_noise_stddev :: float64
  ru_latency_estimates :: "FunctionLatencyEstimate list"
  ru_heartbeat_seconds :: float64

datatype routing_policy =
    RandomPolicy | RoundRobinPolicy | ConsistentHashingPolicy
  | BoundedLoadsRouting BoundedLoadsPolicy | LeastLoadedPolicy | AvailableCapacityPolicy
  | RjCh RandomJumpRoutingPolicy | ChRlu CHRLURoutingPolicy

datatype RoutingPolicyConfig = RoutingPolicyConfig (routing_policy: "routing_policy option")

datatype placement_policy =
    BalancedRoundRobin | ResourceAware | ColdStartAware | ReservationAware | ImageAware
  | BoundedLoadsPlacement BoundedLoadsPolicy

datatype PlacementPolicyConfig = PlacementPolicyConfig (placement_policy: "placement_policy option")

record PlatformConfig =
  version :: u64
  routing :: "RoutingPolicyConfig option"
  placement :: "PlacementPolicyConfig option"
  state_refresh_interval :: "int option"

subsection \<open>Validation\<close>

text \<open>
  \<^verbatim>\<open>ValidatePlatformConfig\<close> checks in the order of the source; each check that fails has its own error.
\<close>

datatype config_error =
    ConfigRequired | RoutingRequired | RoutingBound | RoutingChain
  | PlacementRequired | PlacementBound | PlacementChain | RefreshNegative

fun GetBoundedLoads_routing :: "RoutingPolicyConfig option \<Rightarrow> BoundedLoadsPolicy option" where
  "GetBoundedLoads_routing (Some (RoutingPolicyConfig (Some (BoundedLoadsRouting bl)))) = Some bl"
| "GetBoundedLoads_routing _ = None"

fun GetBoundedLoads_placement :: "PlacementPolicyConfig option \<Rightarrow> BoundedLoadsPolicy option" where
  "GetBoundedLoads_placement (Some (PlacementPolicyConfig (Some (BoundedLoadsPlacement bl)))) = Some bl"
| "GetBoundedLoads_placement _ = None"

definition bounds_error :: "config_error \<Rightarrow> config_error \<Rightarrow> BoundedLoadsPolicy option \<Rightarrow> config_error option" where
  "bounds_error badBound badChain bl =
     (case bl of None \<Rightarrow> None
      | Some b \<Rightarrow> if bl_bound b < 0 then Some badBound
                  else if bl_max_chain_len b < 0 then Some badChain else None)"

definition ValidatePlatformConfig :: "PlatformConfig option \<Rightarrow> config_error option" where
  "ValidatePlatformConfig config =
     (case config of
        None \<Rightarrow> Some ConfigRequired
      | Some cfg \<Rightarrow>
          if routing cfg = None \<or> Option.bind (routing cfg) routing_policy = None then Some RoutingRequired
          else case bounds_error RoutingBound RoutingChain (GetBoundedLoads_routing (routing cfg)) of
            Some e \<Rightarrow> Some e
          | None \<Rightarrow>
              if placement cfg = None \<or> Option.bind (placement cfg) placement_policy = None then Some PlacementRequired
              else case bounds_error PlacementBound PlacementChain (GetBoundedLoads_placement (placement cfg)) of
                Some e \<Rightarrow> Some e
              | None \<Rightarrow>
                  (case state_refresh_interval cfg of
                     None \<Rightarrow> None
                   | Some d \<Rightarrow> if d < 0 then Some RefreshNegative else None))"

text \<open>The document a fresh deployment starts with.\<close>

definition DefaultPlatformConfig :: PlatformConfig where
  "DefaultPlatformConfig =
     \<lparr>version = 0,
      routing = Some (RoutingPolicyConfig (Some AvailableCapacityPolicy)),
      placement = Some (PlacementPolicyConfig (Some BalancedRoundRobin)),
      state_refresh_interval = Some 500000000\<rparr>"

text \<open>The knobs of an accepted document are within their documented ranges.\<close>

definition config_ok :: "PlatformConfig \<Rightarrow> bool" where
  "config_ok cfg \<longleftrightarrow>
     (\<exists>p. routing cfg = Some (RoutingPolicyConfig (Some p))
        \<and> (\<forall>bl. p = BoundedLoadsRouting bl \<longrightarrow> 0 \<le> bl_bound bl \<and> 0 \<le> bl_max_chain_len bl)) \<and>
     (\<exists>p. placement cfg = Some (PlacementPolicyConfig (Some p))
        \<and> (\<forall>bl. p = BoundedLoadsPlacement bl \<longrightarrow> 0 \<le> bl_bound bl \<and> 0 \<le> bl_max_chain_len bl)) \<and>
     (\<forall>d. state_refresh_interval cfg = Some d \<longrightarrow> 0 \<le> d)"

lemma GetBoundedLoads_routing_iff:
  "GetBoundedLoads_routing r = Some bl \<longleftrightarrow> r = Some (RoutingPolicyConfig (Some (BoundedLoadsRouting bl)))"
  by (cases r rule: GetBoundedLoads_routing.cases) auto

lemma GetBoundedLoads_placement_iff:
  "GetBoundedLoads_placement r = Some bl \<longleftrightarrow> r = Some (PlacementPolicyConfig (Some (BoundedLoadsPlacement bl)))"
  by (cases r rule: GetBoundedLoads_placement.cases) auto

lemma bounds_error_None:
  "bounds_error e f bl = None \<longleftrightarrow> (\<forall>b. bl = Some b \<longrightarrow> 0 \<le> bl_bound b \<and> 0 \<le> bl_max_chain_len b)"
  by (auto simp: bounds_error_def split: option.splits)

lemma policy_given:
  "(r = None \<or> Option.bind r routing_policy = None) \<longleftrightarrow> \<not> (\<exists>p. r = Some (RoutingPolicyConfig (Some p)))"
  "(q = None \<or> Option.bind q placement_policy = None) \<longleftrightarrow> \<not> (\<exists>p. q = Some (PlacementPolicyConfig (Some p)))"
  by (cases r; cases "the r"; auto) (cases q; cases "the q"; auto)

lemma ValidatePlatformConfig_None:
  "ValidatePlatformConfig config = None \<longleftrightarrow> (\<exists>cfg. config = Some cfg \<and> config_ok cfg)"
proof (cases config)
  case (Some cfg)
  have "ValidatePlatformConfig (Some cfg) = None \<longleftrightarrow>
      \<not> (routing cfg = None \<or> Option.bind (routing cfg) routing_policy = None) \<and>
      bounds_error RoutingBound RoutingChain (GetBoundedLoads_routing (routing cfg)) = None \<and>
      \<not> (placement cfg = None \<or> Option.bind (placement cfg) placement_policy = None) \<and>
      bounds_error PlacementBound PlacementChain (GetBoundedLoads_placement (placement cfg)) = None \<and>
      (\<forall>d. state_refresh_interval cfg = Some d \<longrightarrow> 0 \<le> d)"
    by (auto simp: ValidatePlatformConfig_def split: option.splits if_splits)
  also have "\<dots> \<longleftrightarrow> config_ok cfg"
    unfolding policy_given bounds_error_None GetBoundedLoads_routing_iff GetBoundedLoads_placement_iff config_ok_def
    by auto
  finally show ?thesis
    by (simp add: Some)
qed (simp add: ValidatePlatformConfig_def)

lemma DefaultPlatformConfig_ok: "config_ok DefaultPlatformConfig"
  by (simp add: config_ok_def DefaultPlatformConfig_def)

end
