(* ===== verification/Memory_Refine.thy ===== *)
theory Memory_Refine
  imports Memory_Store
begin

text \<open>
  What the in-memory store promises: it behaves as two finite maps, a version counter and a flag.
  \<open>meta\<close> is that abstract store and \<open>spec_exec\<close> its operations; the refinement lemma says that the
  operations of \<^verbatim>\<open>memory.go\<close> return the same results and reach the same abstract states, whatever
  order the Go runtime gives to the loops over maps.
\<close>

subsection \<open>The operations of the backend as data\<close>

datatype store_op =
    OpCreateUser "UserSpec option" | OpUpdateUser "UserSpec option" | OpDeleteUser u64
  | OpGetUser u64 | OpListUsers
  | OpCreateFunction "FunctionSpec option" | OpUpdateFunction "FunctionSpec option"
  | OpDeleteFunction u64 u64 | OpGetFunction u64 u64 | OpListFunctions u64
  | OpGetConfig | OpPutConfig "PlatformConfig option" u64

datatype store_result =
    RUser "go_error + UserSpec" | RFunction "go_error + FunctionSpec" | RUnit "go_error + unit"
  | RUsers "UserSpec list" | RFunctions "FunctionSpec list" | RConfig "go_error + PlatformConfig"

fun store_exec :: "int \<Rightarrow> u64 list \<Rightarrow> store_op \<Rightarrow> Store \<Rightarrow> store_result \<times> Store" where
  "store_exec now order (OpCreateUser u) s = map_prod RUser id (CreateUser u s)"
| "store_exec now order (OpUpdateUser u) s = map_prod RUser id (UpdateUser u s)"
| "store_exec now order (OpDeleteUser u) s = map_prod RUnit id (DeleteUser now order u s)"
| "store_exec now order (OpGetUser u) s = (RUser (GetUser u s), s)"
| "store_exec now order OpListUsers s = (RUsers (ListUsers s), s)"
| "store_exec now order (OpCreateFunction f) s = map_prod RFunction id (CreateFunction now f s)"
| "store_exec now order (OpUpdateFunction f) s = map_prod RFunction id (UpdateFunction now f s)"
| "store_exec now order (OpDeleteFunction u f) s = map_prod RUnit id (DeleteFunction now u f s)"
| "store_exec now order (OpGetFunction u f) s = (RFunction (GetFunction u f s), s)"
| "store_exec now order (OpListFunctions u) s = (RFunctions (ListFunctions u s), s)"
| "store_exec now order OpGetConfig s = (RConfig (GetPlatformConfig s), s)"
| "store_exec now order (OpPutConfig c v) s = map_prod RConfig id (PutPlatformConfig c v s)"

subsection \<open>The abstract store\<close>

record meta =
  m_nextUser :: u64
  m_nextFunction :: u64
  m_users :: "u64 \<rightharpoonup> UserSpec"
  m_functions :: "u64 \<times> u64 \<rightharpoonup> FunctionSpec"
  m_config :: "PlatformConfig option"
  m_version :: u64
  m_closed :: bool

definition abs_functions :: "Store \<Rightarrow> u64 \<times> u64 \<rightharpoonup> FunctionSpec" where
  "abs_functions s = (\<lambda>(u, f). map_of (user_funcs s u) f)"

definition abs_store :: "Store \<Rightarrow> meta" where
  "abs_store s =
     \<lparr>m_nextUser = nextUserID s, m_nextFunction = nextFunctionID s, m_users = map_of (users s),
      m_functions = abs_functions s, m_config = platformConfig s, m_version = configVersion s,
      m_closed = store_closed s\<rparr>"

definition found :: "'a option \<Rightarrow> go_error + 'a" where
  "found x = (case x of None \<Rightarrow> Inl (StatusError NotFound) | Some v \<Rightarrow> Inr v)"

text \<open>The values of a finite map in ascending order of their keys.\<close>

definition ascending :: "(u64 \<rightharpoonup> 'a) \<Rightarrow> 'a list" where
  "ascending m = map (the \<circ> m) (sorted_list_of_set (dom m))"

definition spec_create_user :: "UserSpec option \<Rightarrow> meta \<Rightarrow> (go_error + UserSpec) \<times> meta" where
  "spec_create_user req m =
     (case req of
        None \<Rightarrow> (Inl (StatusError InvalidArgument), m)
      | Some user \<Rightarrow>
          if user_name user = '''' then (Inl (StatusError InvalidArgument), m)
          else if m_closed m then (Inl (StatusError FailedPrecondition), m)
          else
            let fresh = user_id user = 0;
                user' = (if fresh then user\<lparr>user_id := m_nextUser m\<rparr> else user);
                m' = (if fresh then m\<lparr>m_nextUser := m_nextUser m + 1\<rparr> else m)
            in if m_users m (user_id user') \<noteq> None then (Inl (StatusError AlreadyExists), m')
               else (Inr user', m'\<lparr>m_users := (m_users m)(user_id user' \<mapsto> user')\<rparr>))"

definition spec_update_user :: "UserSpec option \<Rightarrow> meta \<Rightarrow> (go_error + UserSpec) \<times> meta" where
  "spec_update_user req m =
     (case req of
        None \<Rightarrow> (Inl (StatusError InvalidArgument), m)
      | Some user \<Rightarrow>
          if user_id user = 0 \<or> user_name user = '''' then (Inl (StatusError InvalidArgument), m)
          else if m_closed m then (Inl (StatusError FailedPrecondition), m)
          else if m_users m (user_id user) = None then (Inl (StatusError NotFound), m)
          else (Inr user, m\<lparr>m_users := (m_users m)(user_id user \<mapsto> user)\<rparr>))"

text \<open>Deleting a user deletes every function of the user.\<close>

definition spec_delete_user :: "u64 \<Rightarrow> meta \<Rightarrow> (go_error + unit) \<times> meta" where
  "spec_delete_user u m =
     (if u = 0 then (Inl (StatusError InvalidArgument), m)
      else if m_closed m then (Inl (StatusError FailedPrecondition), m)
      else if m_users m u = None then (Inl (StatusError NotFound), m)
      else (Inr (), m\<lparr>m_users := (m_users m)(u := None),
                      m_functions := (\<lambda>(v, f). if v = u then None else m_functions m (v, f))\<rparr>))"

definition spec_create_function :: "FunctionSpec option \<Rightarrow> meta \<Rightarrow> (go_error + FunctionSpec) \<times> meta" where
  "spec_create_function req m =
     (case validateFunction req of
        Some e \<Rightarrow> (Inl e, m)
      | None \<Rightarrow>
          if m_closed m then (Inl (StatusError FailedPrecondition), m)
          else if m_users m (fn_user_id (the req)) = None then (Inl (StatusError NotFound), m)
          else
            let fresh = fn_function_id (the req) = 0;
                fn = (if fresh then (the req)\<lparr>fn_function_id := m_nextFunction m\<rparr> else the req);
                key = (fn_user_id fn, fn_function_id fn);
                m' = (if fresh then m\<lparr>m_nextFunction := m_nextFunction m + 1\<rparr> else m)
            in if m_functions m key \<noteq> None then (Inl (StatusError AlreadyExists), m')
               else (Inr fn, m'\<lparr>m_functions := (m_functions m)(key \<mapsto> fn)\<rparr>))"

definition spec_update_function :: "FunctionSpec option \<Rightarrow> meta \<Rightarrow> (go_error + FunctionSpec) \<times> meta" where
  "spec_update_function req m =
     (case validateFunction req of
        Some e \<Rightarrow> (Inl e, m)
      | None \<Rightarrow>
          let fn = the req; key = (fn_user_id fn, fn_function_id fn) in
          if fn_function_id fn = 0 then (Inl (StatusError InvalidArgument), m)
          else if m_closed m then (Inl (StatusError FailedPrecondition), m)
          else if m_functions m key = None then (Inl (StatusError NotFound), m)
          else (Inr fn, m\<lparr>m_functions := (m_functions m)(key \<mapsto> fn)\<rparr>))"

definition spec_delete_function :: "u64 \<Rightarrow> u64 \<Rightarrow> meta \<Rightarrow> (go_error + unit) \<times> meta" where
  "spec_delete_function u f m =
     (if u = 0 \<or> f = 0 then (Inl (StatusError InvalidArgument), m)
      else if m_closed m then (Inl (StatusError FailedPrecondition), m)
      else if m_functions m (u, f) = None then (Inl (StatusError NotFound), m)
      else (Inr (), m\<lparr>m_functions := (m_functions m)((u, f) := None)\<rparr>))"

definition spec_put_config :: "PlatformConfig option \<Rightarrow> u64 \<Rightarrow> meta \<Rightarrow> (go_error + PlatformConfig) \<times> meta" where
  "spec_put_config req expected m =
     (case req of
        None \<Rightarrow> (Inl (StatusError InvalidArgument), m)
      | Some cfg \<Rightarrow>
          if m_closed m then (Inl (StatusError FailedPrecondition), m)
          else if expected \<noteq> 0 \<and> expected \<noteq> m_version m then (Inl (StatusError Aborted), m)
          else let v = m_version m + 1
               in (Inr (cfg\<lparr>version := v\<rparr>), m\<lparr>m_version := v, m_config := Some (cfg\<lparr>version := v\<rparr>)\<rparr>))"

fun spec_exec :: "store_op \<Rightarrow> meta \<Rightarrow> store_result \<times> meta" where
  "spec_exec (OpCreateUser u) m = map_prod RUser id (spec_create_user u m)"
| "spec_exec (OpUpdateUser u) m = map_prod RUser id (spec_update_user u m)"
| "spec_exec (OpDeleteUser u) m = map_prod RUnit id (spec_delete_user u m)"
| "spec_exec (OpGetUser u) m = (RUser (found (m_users m u)), m)"
| "spec_exec OpListUsers m = (RUsers (ascending (m_users m)), m)"
| "spec_exec (OpCreateFunction f) m = map_prod RFunction id (spec_create_function f m)"
| "spec_exec (OpUpdateFunction f) m = map_prod RFunction id (spec_update_function f m)"
| "spec_exec (OpDeleteFunction u f) m = map_prod RUnit id (spec_delete_function u f m)"
| "spec_exec (OpGetFunction u f) m = (RFunction (found (m_functions m (u, f))), m)"
| "spec_exec (OpListFunctions u) m = (RFunctions (ascending (\<lambda>f. m_functions m (u, f))), m)"
| "spec_exec OpGetConfig m = (RConfig (found (m_config m)), m)"
| "spec_exec (OpPutConfig c v) m = map_prod RConfig id (spec_put_config c v m)"

subsection \<open>The invariant of the maps\<close>

definition user_ok :: "u64 \<Rightarrow> UserSpec \<Rightarrow> bool" where
  "user_ok u user \<longleftrightarrow> user_id user = u \<and> user_name user \<noteq> ''''"

definition function_ok :: "u64 \<Rightarrow> u64 \<Rightarrow> FunctionSpec \<Rightarrow> bool" where
  "function_ok u f fn \<longleftrightarrow> fn_user_id fn = u \<and> fn_function_id fn = f \<and> validateFunction (Some fn) = None"

definition inner_ok :: "Store \<Rightarrow> u64 \<Rightarrow> (u64, FunctionSpec) gomap \<Rightarrow> bool" where
  "inner_ok s u m \<longleftrightarrow>
     gomap_inv m \<and> m \<noteq> [] \<and> map_of (users s) u \<noteq> None \<and> (\<forall>f fn. map_of m f = Some fn \<longrightarrow> function_ok u f fn)"

definition store_inv :: "Store \<Rightarrow> bool" where
  "store_inv s \<longleftrightarrow>
     gomap_inv (users s) \<and> gomap_inv (functions s) \<and>
     (\<forall>u user. map_of (users s) u = Some user \<longrightarrow> user_ok u user) \<and>
     (\<forall>u m. map_of (functions s) u = Some m \<longrightarrow> inner_ok s u m)"

subsection \<open>Frame of the notifications\<close>

lemma emitLocked_frame [frame_simps]:
  "users (emitLocked e s) = users s" "functions (emitLocked e s) = functions s"
  "nextUserID (emitLocked e s) = nextUserID s" "nextFunctionID (emitLocked e s) = nextFunctionID s"
  "platformConfig (emitLocked e s) = platformConfig s" "configVersion (emitLocked e s) = configVersion s"
  "store_closed (emitLocked e s) = store_closed s" "watchers (emitLocked e s) = watchers s"
  "mailboxes (emitLocked e s) = mailboxes s" "configWatchers (emitLocked e s) = configWatchers s"
  by (simp_all add: emitLocked_def)

lemma emitConfigLocked_frame [frame_simps]:
  "users (emitConfigLocked c s) = users s" "functions (emitConfigLocked c s) = functions s"
  "nextUserID (emitConfigLocked c s) = nextUserID s" "nextFunctionID (emitConfigLocked c s) = nextFunctionID s"
  "platformConfig (emitConfigLocked c s) = platformConfig s" "configVersion (emitConfigLocked c s) = configVersion s"
  "store_closed (emitConfigLocked c s) = store_closed s" "watchers (emitConfigLocked c s) = watchers s"
  "chans (emitConfigLocked c s) = chans s" "configWatchers (emitConfigLocked c s) = configWatchers s"
  by (simp_all add: emitConfigLocked_def)

text \<open>Two stores with the same data: what a notification keeps.\<close>

definition same_data :: "Store \<Rightarrow> Store \<Rightarrow> bool" where
  "same_data s t \<longleftrightarrow>
     users s = users t \<and> functions s = functions t \<and> nextUserID s = nextUserID t \<and>
     nextFunctionID s = nextFunctionID t \<and> platformConfig s = platformConfig t \<and>
     configVersion s = configVersion t \<and> store_closed s = store_closed t"

lemma same_data_emit: "same_data (emitLocked e s) t \<longleftrightarrow> same_data s t" "same_data (emitConfigLocked c s) t \<longleftrightarrow> same_data s t"
  by (simp_all add: same_data_def frame_simps)

lemma same_data_fold_emit: "same_data (fold (\<lambda>k. emitLocked (g k)) ks s) s"
proof (induction ks arbitrary: s)
  case (Cons k ks)
  show ?case
    using Cons[of "emitLocked (g k) s"] by (auto simp: same_data_def frame_simps)
qed (simp add: same_data_def)

lemma same_data_user_funcs: "same_data s t \<Longrightarrow> user_funcs s u = user_funcs t u"
  by (simp add: same_data_def user_funcs_def)

lemma same_data_abs: "same_data s t \<Longrightarrow> abs_store s = abs_store t"
  by (auto simp: abs_store_def abs_functions_def same_data_def user_funcs_def)

lemma same_data_inv: "same_data s t \<Longrightarrow> store_inv s = store_inv t"
  by (auto simp: store_inv_def inner_ok_def same_data_def)

lemma abs_store_emit [simp]: "abs_store (emitLocked e s) = abs_store s" "abs_store (emitConfigLocked c s) = abs_store s"
  by (rule same_data_abs, simp add: same_data_emit, simp add: same_data_def)+

lemma store_inv_emit [simp]: "store_inv (emitLocked e s) = store_inv s" "store_inv (emitConfigLocked c s) = store_inv s"
  by (rule same_data_inv, simp add: same_data_emit, simp add: same_data_def)+

subsection \<open>Facts of the invariant\<close>

lemma store_inv_usersD: "store_inv s \<Longrightarrow> map_of (users s) u = Some user \<Longrightarrow> user_ok u user"
  by (simp add: store_inv_def)

lemma store_inv_functionsD: "store_inv s \<Longrightarrow> map_of (functions s) u = Some m \<Longrightarrow> inner_ok s u m"
  by (simp add: store_inv_def)

lemma store_inv_gomap: "store_inv s \<Longrightarrow> gomap_inv (users s)" "store_inv s \<Longrightarrow> gomap_inv (functions s)"
  by (simp_all add: store_inv_def)

lemma inner_okD:
  assumes "inner_ok s u m"
  shows "gomap_inv m" "m \<noteq> []" "map_of (users s) u \<noteq> None" "map_of m f = Some fn \<Longrightarrow> function_ok u f fn"
  using assms by (auto simp: inner_ok_def)

lemma user_funcs_inv: "store_inv s \<Longrightarrow> gomap_inv (user_funcs s u)"
  by (auto simp: user_funcs_def inner_ok_def dest: store_inv_functionsD split: option.splits)

lemma function_okI:
  "store_inv s \<Longrightarrow> map_of (user_funcs s u) f = Some fn \<Longrightarrow> function_ok u f fn"
  by (auto simp: user_funcs_def dest!: store_inv_functionsD inner_okD(4) split: option.splits)

lemma store_invI:
  assumes "gomap_inv (users s)" "gomap_inv (functions s)"
    and "\<And>u user. map_of (users s) u = Some user \<Longrightarrow> user_ok u user"
    and "\<And>u m. map_of (functions s) u = Some m \<Longrightarrow> inner_ok s u m"
  shows "store_inv s"
  using assms unfolding store_inv_def by blast

lemma store_inv_New: "store_inv New"
  by (simp add: store_inv_def New_def)

text \<open>Writing a user or an inner map keeps the invariant.\<close>

lemma store_inv_put_user:
  assumes inv: "store_inv s" and ok: "user_ok u user"
  shows "store_inv (s\<lparr>users := AList.update u user (users s)\<rparr>)"
proof (rule store_invI)
  fix v m assume "map_of (functions (s\<lparr>users := AList.update u user (users s)\<rparr>)) v = Some m"
  then have "inner_ok s v m"
    using inv by (auto dest: store_inv_functionsD)
  then show "inner_ok (s\<lparr>users := AList.update u user (users s)\<rparr>) v m"
    by (auto simp: inner_ok_def map_of_update_iff)
qed (use inv ok in \<open>auto simp: store_inv_gomap map_of_update_iff split: if_splits dest: store_inv_usersD\<close>)

lemma store_inv_put_inner:
  assumes inv: "store_inv s" and ok: "inner_ok s u m"
  shows "store_inv (s\<lparr>functions := AList.update u m (functions s)\<rparr>)"
proof (rule store_invI)
  fix v m' assume "map_of (functions (s\<lparr>functions := AList.update u m (functions s)\<rparr>)) v = Some m'"
  then have "inner_ok s v m'"
    using inv ok by (auto simp: map_of_update_iff split: if_splits dest: store_inv_functionsD)
  then show "inner_ok (s\<lparr>functions := AList.update u m (functions s)\<rparr>) v m'"
    by (auto simp: inner_ok_def)
qed (use inv in \<open>auto simp: store_inv_gomap dest: store_inv_usersD\<close>)

lemma store_inv_drop_inner:
  assumes inv: "store_inv s"
  shows "store_inv (s\<lparr>functions := AList.delete u (functions s)\<rparr>)"
proof (rule store_invI)
  fix v m assume "map_of (functions (s\<lparr>functions := AList.delete u (functions s)\<rparr>)) v = Some m"
  then have "inner_ok s v m"
    using inv by (auto simp: map_of_delete_iff split: if_splits dest: store_inv_functionsD)
  then show "inner_ok (s\<lparr>functions := AList.delete u (functions s)\<rparr>) v m"
    by (auto simp: inner_ok_def)
qed (use inv in \<open>auto simp: store_inv_gomap dest: store_inv_usersD\<close>)

lemma inner_ok_put:
  assumes "store_inv s" "map_of (users s) u \<noteq> None" "function_ok u f fn"
  shows "inner_ok s u (AList.update f fn (user_funcs s u))"
proof -
  have "function_ok u g fn'" if "map_of (AList.update f fn (user_funcs s u)) g = Some fn'" for g fn'
    using that assms(3) function_okI[OF assms(1)] by (auto simp: map_of_update_iff split: if_splits)
  moreover have "AList.update f fn (user_funcs s u) \<noteq> []"
    by (cases "user_funcs s u") auto
  ultimately show ?thesis
    using assms(1,2) by (auto simp: inner_ok_def user_funcs_inv)
qed

lemma user_funcs_put:
  "user_funcs (s\<lparr>functions := AList.update u m (functions s)\<rparr>) v = (if v = u then m else user_funcs s v)"
  by (simp add: user_funcs_def map_of_update_iff)

lemma user_funcs_drop:
  "user_funcs (s\<lparr>functions := AList.delete u (functions s)\<rparr>) v = (if v = u then [] else user_funcs s v)"
  by (simp add: user_funcs_def map_of_delete_iff)

lemma user_funcs_None: "map_of (functions s) u = None \<Longrightarrow> user_funcs s u = []"
  and user_funcs_Some: "map_of (functions s) u = Some m \<Longrightarrow> user_funcs s u = m"
  by (simp_all add: user_funcs_def)

subsection \<open>The operations on users\<close>

lemma abs_functions_nextUserID [simp]: "abs_functions (s\<lparr>nextUserID := n\<rparr>) = abs_functions s"
  and abs_functions_nextFunctionID [simp]: "abs_functions (s\<lparr>nextFunctionID := n\<rparr>) = abs_functions s"
  and abs_functions_users [simp]: "abs_functions (s\<lparr>users := us\<rparr>) = abs_functions s"
  by (simp_all add: abs_functions_def user_funcs_def)

lemma store_inv_counters [simp]:
  "store_inv (s\<lparr>nextUserID := n\<rparr>) = store_inv s" "store_inv (s\<lparr>nextFunctionID := n\<rparr>) = store_inv s"
  by (auto simp: store_inv_def inner_ok_def)

lemma CreateUser_refines:
  "map_prod id abs_store (CreateUser req s) = spec_create_user req (abs_store s)"
  by (auto simp: CreateUser_def spec_create_user_def abs_store_def Let_def map_of_update_iff fun_eq_iff
      split: option.splits)

lemma store_inv_put_numbered:
  "store_inv s \<Longrightarrow> user_ok u user \<Longrightarrow> store_inv (s\<lparr>nextUserID := n, users := AList.update u user (users s)\<rparr>)"
  using store_inv_put_user[of "s\<lparr>nextUserID := n\<rparr>" u user] by simp

lemma CreateUser_inv: "store_inv s \<Longrightarrow> store_inv (snd (CreateUser req s))"
  by (auto simp: CreateUser_def Let_def user_ok_def
      intro!: store_inv_put_user store_inv_put_numbered split: option.splits)

lemma UpdateUser_refines:
  "map_prod id abs_store (UpdateUser req s) = spec_update_user req (abs_store s)"
  by (auto simp: UpdateUser_def spec_update_user_def abs_store_def map_of_update_iff fun_eq_iff
      split: option.splits)

lemma UpdateUser_inv: "store_inv s \<Longrightarrow> store_inv (snd (UpdateUser req s))"
  by (auto simp: UpdateUser_def user_ok_def intro!: store_inv_put_user split: option.splits)

definition drop_user :: "u64 \<Rightarrow> Store \<Rightarrow> Store" where
  "drop_user u s = s\<lparr>users := AList.delete u (users s), functions := AList.delete u (functions s)\<rparr>"

lemma DeleteUser_cases:
  assumes "userID \<noteq> 0" "\<not> store_closed s" "map_of (users s) userID \<noteq> None"
  shows "fst (DeleteUser now order userID s) = Inr ()"
    and "same_data (snd (DeleteUser now order userID s)) (drop_user userID s)"
  using assms by (auto simp: DeleteUser_def drop_user_def Let_def same_data_fold_emit)

lemma DeleteUser_refused:
  assumes "userID = 0 \<or> store_closed s \<or> map_of (users s) userID = None"
  shows "snd (DeleteUser now order userID s) = s"
  using assms by (auto simp: DeleteUser_def)

lemma abs_drop_user:
  "abs_store (drop_user u s) =
     (abs_store s)\<lparr>m_users := (m_users (abs_store s))(u := None),
                   m_functions := (\<lambda>(v, f). if v = u then None else m_functions (abs_store s) (v, f))\<rparr>"
  by (auto simp: abs_store_def drop_user_def abs_functions_def user_funcs_def map_of_delete_iff fun_eq_iff)

lemma DeleteUser_refines:
  "map_prod id abs_store (DeleteUser now order userID s) = spec_delete_user userID (abs_store s)"
proof (cases "userID = 0 \<or> store_closed s \<or> map_of (users s) userID = None")
  case True
  then show ?thesis
    by (auto simp: DeleteUser_def spec_delete_user_def abs_store_def)
next
  case False
  then have ok: "userID \<noteq> 0" "\<not> store_closed s" "map_of (users s) userID \<noteq> None"
    by auto
  have "abs_store (snd (DeleteUser now order userID s)) = abs_store (drop_user userID s)"
    by (rule same_data_abs[OF DeleteUser_cases(2)[OF ok]])
  then show ?thesis
    using ok DeleteUser_cases(1)[OF ok, of now order]
    by (simp add: prod_eq_iff spec_delete_user_def abs_drop_user) (simp add: abs_store_def)
qed

lemma store_inv_drop_user:
  assumes inv: "store_inv s"
  shows "store_inv (drop_user u s)"
proof (rule store_invI)
  fix v m assume "map_of (functions (drop_user u s)) v = Some m"
  then have "v \<noteq> u" "inner_ok s v m"
    using inv by (auto simp: drop_user_def map_of_delete_iff split: if_splits dest: store_inv_functionsD)
  then show "inner_ok (drop_user u s) v m"
    by (auto simp: inner_ok_def drop_user_def map_of_delete_iff)
qed (use inv in \<open>auto simp: drop_user_def store_inv_gomap map_of_delete_iff split: if_splits dest: store_inv_usersD\<close>)

lemma DeleteUser_inv: "store_inv s \<Longrightarrow> store_inv (snd (DeleteUser now order userID s))"
proof (cases "userID = 0 \<or> store_closed s \<or> map_of (users s) userID = None")
  case False
  moreover assume "store_inv s"
  ultimately show ?thesis
    using DeleteUser_cases(2)[of userID s now order] by (simp add: same_data_inv store_inv_drop_user)
qed (simp add: DeleteUser_refused)

lemma sort_key_ascending:
  assumes inv: "gomap_inv m" and keys: "\<And>k v. map_of m k = Some v \<Longrightarrow> key v = k"
  shows "sort_key key (map snd m) = ascending (map_of m)"
proof -
  let ?L = "sort_key key (map snd m)"
  have own: "map_of m (key v) = Some v" if "v \<in> snd ` set m" for v
    using that inv keys by (force simp: gomap_inv_map_of)
  have "key v = k" if "(k, v) \<in> set m" for k v
    using that inv keys by (simp add: gomap_inv_map_of)
  then have "map key (map snd m) = map fst m"
    by (auto simp: comp_def)
  then have "distinct (map key (map snd m))"
    using inv by (simp only: gomap_inv_def)
  then have "distinct (map key ?L)"
    by (metis distinct_map distinct_sort set_sort)
  moreover have "set (map key ?L) = dom (map_of m)"
    using own keys by (auto simp: dom_def) (metis map_of_SomeD image_eqI snd_conv)
  ultimately have "map key ?L = sorted_list_of_set (dom (map_of m))"
    by (intro sorted_distinct_set_unique) (auto simp: finite_dom_map_of)
  then have "ascending (map_of m) = map (the \<circ> map_of m \<circ> key) ?L"
    by (simp add: ascending_def flip: map_map)
  also have "\<dots> = ?L"
    by (rule map_idI) (auto simp: own)
  finally show ?thesis
    by simp
qed

lemma ListUsers_refines: "store_inv s \<Longrightarrow> ListUsers s = ascending (m_users (abs_store s))"
  by (auto simp: ListUsers_def abs_store_def user_ok_def store_inv_gomap
      dest: store_inv_usersD intro!: sort_key_ascending)

subsection \<open>The operations on functions\<close>

lemma validate_None: "validateFunction req = None \<Longrightarrow> \<exists>fn. req = Some fn"
  by (cases req) (auto simp: validateFunction_def)

lemma validate_function_id [simp]:
  "validateFunction (Some (fn\<lparr>fn_function_id := f\<rparr>)) = validateFunction (Some fn)"
  by (simp add: validateFunction_def)

lemma abs_lookup:
  "m_closed (abs_store s) = store_closed s" "m_users (abs_store s) u = map_of (users s) u"
  "m_functions (abs_store s) (u, f) = map_of (user_funcs s u) f" "m_nextFunction (abs_store s) = nextFunctionID s"
  by (simp_all add: abs_store_def abs_functions_def)

lemma abs_put_function:
  "abs_store (s\<lparr>functions := AList.update u (AList.update f fn (user_funcs s u)) (functions s)\<rparr>) =
     (abs_store s)\<lparr>m_functions := (m_functions (abs_store s))((u, f) \<mapsto> fn)\<rparr>"
  by (auto simp: abs_store_def abs_functions_def user_funcs_put map_of_update_iff fun_eq_iff)

text \<open>The state of \<^verbatim>\<open>CreateFunction\<close> after it has chosen the ID.\<close>

definition numbered :: "FunctionSpec \<Rightarrow> Store \<Rightarrow> FunctionSpec \<times> Store" where
  "numbered fn s =
     (if fn_function_id fn = 0
      then (fn\<lparr>fn_function_id := nextFunctionID s\<rparr>, s\<lparr>nextFunctionID := nextFunctionID s + 1\<rparr>) else (fn, s))"

lemma CreateFunction_accepted:
  assumes "validateFunction (Some fn) = None" "\<not> store_closed s" "map_of (users s) (fn_user_id fn) \<noteq> None"
    and n: "numbered fn s = (fn', s')"
  shows "CreateFunction now (Some fn) s =
    (if map_of (user_funcs s (fn_user_id fn)) (fn_function_id fn') \<noteq> None then (Inl (StatusError AlreadyExists), s')
     else (Inr fn', emitLocked (function_event FUNCTION_EVENT_TYPE_CREATED now fn')
        (s'\<lparr>functions := AList.update (fn_user_id fn)
                (AList.update (fn_function_id fn') fn' (user_funcs s (fn_user_id fn))) (functions s)\<rparr>)))"
  using assms
  by (auto simp: CreateFunction_def numbered_def Let_def user_funcs_def map_of_update_iff split: if_splits option.splits)

lemma numbered_parts:
  assumes "numbered fn s = (fn', s')"
  shows "fn_user_id fn' = fn_user_id fn" "validateFunction (Some fn') = validateFunction (Some fn)"
    "functions s' = functions s" "users s' = users s" "store_inv s' = store_inv s"
    "user_funcs s' u = user_funcs s u"
  using assms by (auto simp: numbered_def user_funcs_def split: if_splits)

lemma abs_numbered:
  assumes "numbered fn s = (fn', s')"
  shows "abs_store s' = (if fn_function_id fn = 0 then (abs_store s)\<lparr>m_nextFunction := nextFunctionID s + 1\<rparr> else abs_store s)"
  using assms by (auto simp: numbered_def abs_store_def split: if_splits)

lemma CreateFunction_refused:
  assumes "\<not> (\<exists>fn. req = Some fn \<and> validateFunction req = None \<and> \<not> store_closed s \<and> map_of (users s) (fn_user_id fn) \<noteq> None)"
  shows "snd (CreateFunction now req s) = s"
    and "map_prod id abs_store (CreateFunction now req s) = spec_create_function req (abs_store s)"
  using assms validate_None[of req]
  by (auto simp: CreateFunction_def spec_create_function_def abs_store_def Let_def split: option.splits)

lemma CreateFunction_refines:
  "map_prod id abs_store (CreateFunction now req s) = spec_create_function req (abs_store s)"
proof (cases "\<exists>fn. req = Some fn \<and> validateFunction req = None \<and> \<not> store_closed s \<and> map_of (users s) (fn_user_id fn) \<noteq> None")
  case True
  then obtain fn where req: "req = Some fn" "validateFunction (Some fn) = None" "\<not> store_closed s"
      "map_of (users s) (fn_user_id fn) \<noteq> None"
    by auto
  obtain fn' s' where n: "numbered fn s = (fn', s')"
    by fastforce
  have put: "abs_store (s'\<lparr>functions := AList.update (fn_user_id fn)
        (AList.update (fn_function_id fn') fn' (user_funcs s (fn_user_id fn))) (functions s)\<rparr>) =
      (abs_store s')\<lparr>m_functions := (m_functions (abs_store s'))((fn_user_id fn, fn_function_id fn') \<mapsto> fn')\<rparr>"
    using abs_put_function[where s = s' and u = "fn_user_id fn" and f = "fn_function_id fn'" and fn = fn'] numbered_parts[OF n] by simp
  have fn': "fn' = (if fn_function_id fn = 0 then fn\<lparr>fn_function_id := nextFunctionID s\<rparr> else fn)"
    using n by (auto simp: numbered_def split: if_splits)
  have user: "fn_user_id fn' = fn_user_id fn"
    by (rule numbered_parts[OF n])
  have fns: "m_functions (abs_store s') = m_functions (abs_store s)"
    by (simp add: abs_numbered[OF n])
  have spec: "spec_create_function (Some fn) (abs_store s) =
      (if m_functions (abs_store s) (fn_user_id fn', fn_function_id fn') \<noteq> None
       then (Inl (StatusError AlreadyExists), abs_store s')
       else (Inr fn', (abs_store s')\<lparr>m_functions :=
               (m_functions (abs_store s))((fn_user_id fn', fn_function_id fn') \<mapsto> fn')\<rparr>))"
    using req(2-4) by (auto simp: spec_create_function_def Let_def abs_lookup fn' abs_numbered[OF n])
  show ?thesis
    unfolding req(1) CreateFunction_accepted[OF req(2-4) n] spec
    by (simp add: put user fns abs_lookup)
qed (rule CreateFunction_refused(2))

lemma CreateFunction_inv:
  assumes inv: "store_inv s"
  shows "store_inv (snd (CreateFunction now req s))"
proof (cases "\<exists>fn. req = Some fn \<and> validateFunction req = None \<and> \<not> store_closed s \<and> map_of (users s) (fn_user_id fn) \<noteq> None")
  case True
  then obtain fn where req: "req = Some fn" "validateFunction (Some fn) = None" "\<not> store_closed s"
      "map_of (users s) (fn_user_id fn) \<noteq> None"
    by auto
  obtain fn' s' where n: "numbered fn s = (fn', s')"
    by fastforce
  have "store_inv (s'\<lparr>functions := AList.update (fn_user_id fn)
      (AList.update (fn_function_id fn') fn' (user_funcs s' (fn_user_id fn))) (functions s')\<rparr>)"
    by (intro store_inv_put_inner inner_ok_put)
      (use inv req numbered_parts[OF n] in \<open>auto simp: function_ok_def\<close>)
  then show ?thesis
    unfolding req(1) CreateFunction_accepted[OF req(2-4) n] using inv numbered_parts[OF n] by simp
qed (simp add: CreateFunction_refused(1) inv)

lemma UpdateFunction_refines:
  "map_prod id abs_store (UpdateFunction now req s) = spec_update_function req (abs_store s)"
proof (cases "validateFunction req")
  case None
  then obtain fn where req: "req = Some fn"
    using validate_None by blast
  show ?thesis
    using None abs_put_function[where s = s and u = "fn_user_id fn" and f = "fn_function_id fn" and fn = fn]
    by (auto simp: UpdateFunction_def spec_update_function_def req Let_def abs_lookup
        user_funcs_None user_funcs_Some split: option.splits)
qed (simp add: UpdateFunction_def spec_update_function_def)

lemma UpdateFunction_inv:
  assumes inv: "store_inv s"
  shows "store_inv (snd (UpdateFunction now req s))"
proof (cases "validateFunction req")
  case None
  then obtain fn where req: "req = Some fn" "validateFunction (Some fn) = None"
    using validate_None by blast
  have "store_inv (s\<lparr>functions := AList.update (fn_user_id fn)
      (AList.update (fn_function_id fn) fn m) (functions s)\<rparr>)" if m: "map_of (functions s) (fn_user_id fn) = Some m" for m
    using inner_ok_put[OF inv, of "fn_user_id fn" "fn_function_id fn" fn] req inv
      inner_okD(3)[OF store_inv_functionsD[OF inv m]] user_funcs_Some[OF m]
    by (intro store_inv_put_inner) (auto simp: function_ok_def)
  then show ?thesis
    using inv req by (auto simp: UpdateFunction_def Let_def split: option.splits)
qed (simp add: UpdateFunction_def inv)

lemma inner_ok_delete:
  "inner_ok s u m \<Longrightarrow> AList.delete f m \<noteq> [] \<Longrightarrow> inner_ok s u (AList.delete f m)"
  by (auto simp: inner_ok_def map_of_delete_iff split: if_splits)

lemma DeleteFunction_inv: "store_inv s \<Longrightarrow> store_inv (snd (DeleteFunction now u f s))"
  by (auto simp: DeleteFunction_def Let_def intro!: store_inv_drop_inner store_inv_put_inner inner_ok_delete
      dest: store_inv_functionsD split: option.splits)

lemma abs_delete_function:
  assumes m: "map_of (functions s) u = Some m"
  shows "abs_store (s\<lparr>functions := (if AList.delete f m = [] then AList.delete u (functions s)
                                 else AList.update u (AList.delete f m) (functions s))\<rparr>) =
     (abs_store s)\<lparr>m_functions := (m_functions (abs_store s))((u, f) := None)\<rparr>"
proof -
  have left: "map_of (AList.delete f m) g = (if g = f then None else map_of m g)" for g
    by (rule map_of_delete_iff)
  have "user_funcs (s\<lparr>functions := (if AList.delete f m = [] then AList.delete u (functions s)
      else AList.update u (AList.delete f m) (functions s))\<rparr>) v =
      (if v = u then AList.delete f m else user_funcs s v)" for v
    by (simp add: user_funcs_put user_funcs_drop)
  then show ?thesis
    using user_funcs_Some[OF m] by (simp add: abs_store_def abs_functions_def fun_eq_iff left)
qed

lemma DeleteFunction_refines:
  "map_prod id abs_store (DeleteFunction now u f s) = spec_delete_function u f (abs_store s)"
  using abs_delete_function[where s = s and u = u and f = f]
  by (auto simp: DeleteFunction_def spec_delete_function_def Let_def abs_lookup user_funcs_None user_funcs_Some
      split: option.splits)

lemma ListFunctions_refines:
  "store_inv s \<Longrightarrow> ListFunctions u s = ascending (\<lambda>f. m_functions (abs_store s) (u, f))"
  by (auto simp: ListFunctions_def abs_store_def abs_functions_def function_ok_def user_funcs_inv
      dest: function_okI intro!: sort_key_ascending)

lemma PutPlatformConfig_refines:
  "map_prod id abs_store (PutPlatformConfig req v s) = spec_put_config req v (abs_store s)"
  by (auto simp: PutPlatformConfig_def spec_put_config_def Let_def split: option.splits)
    (auto simp: abs_store_def abs_functions_def user_funcs_def)

lemma PutPlatformConfig_inv: "store_inv s \<Longrightarrow> store_inv (snd (PutPlatformConfig req v s))"
  by (auto simp: PutPlatformConfig_def Let_def split: option.splits)
    (auto simp: store_inv_def inner_ok_def)

lemmas store_op_refines =
  CreateUser_refines UpdateUser_refines DeleteUser_refines CreateFunction_refines UpdateFunction_refines
  DeleteFunction_refines PutPlatformConfig_refines

lemmas store_op_inv =
  CreateUser_inv UpdateUser_inv DeleteUser_inv CreateFunction_inv UpdateFunction_inv DeleteFunction_inv
  PutPlatformConfig_inv

lemma map_prod_snd: "snd (map_prod f id x) = snd x"
  by (cases x) simp

lemma store_exec_inv: "store_inv s \<Longrightarrow> store_inv (snd (store_exec now order op s))"
  by (cases op) (simp_all add: map_prod_snd store_op_inv)

lemma map_prod_factor: "map_prod (id :: 'r \<Rightarrow> 'r) h x = y \<Longrightarrow> map_prod id h (map_prod f id x) = map_prod f id y"
  by (cases x) auto

lemma store_exec_refines:
  assumes "store_inv s"
  shows "map_prod id abs_store (store_exec now order op s) = spec_exec op (abs_store s)"
  by (cases op)
    (simp_all add: map_prod_factor[OF CreateUser_refines] map_prod_factor[OF UpdateUser_refines]
      map_prod_factor[OF DeleteUser_refines] map_prod_factor[OF CreateFunction_refines]
      map_prod_factor[OF UpdateFunction_refines] map_prod_factor[OF DeleteFunction_refines]
      map_prod_factor[OF PutPlatformConfig_refines] ListUsers_refines ListFunctions_refines assms
      GetUser_def GetFunction_def GetPlatformConfig_def found_def abs_store_def abs_functions_def
      split: option.splits)

end
