(* ===== verification/Memory_Watch.thy ===== *)
theory Memory_Watch
  imports Memory_Refine
begin

text \<open>
  The in-memory store with its subscribers: calls of the backend, subscriptions, receives from the
  channels, the steps of the goroutines that deliver the platform configuration and the end of their
  contexts, interleaved in any order.
\<close>

subsection \<open>The system\<close>

datatype store_event =
    SvOp store_op
  | SvWatch
  | SvRecv nat
  | SvWatchConfig
  | SvWake nat
  | SvTake nat
  | SvSend nat
  | SvCancel nat
  | SvRecvConfig nat
  | SvClose

definition on_mailbox :: "(configWatcher \<Rightarrow> configWatcher) \<Rightarrow> nat \<Rightarrow> Store \<Rightarrow> Store" where
  "on_mailbox f w s = s\<lparr>mailboxes := (mailboxes s)[w := f (mailboxes s ! w)]\<rparr>"

fun store_step :: "int \<Rightarrow> u64 list \<Rightarrow> store_event \<Rightarrow> Store \<Rightarrow> Store" where
  "store_step now order (SvOp op) s = snd (store_exec now order op s)"
| "store_step now order SvWatch s = snd (WatchFunctions s)"
| "store_step now order (SvRecv w) s = s\<lparr>chans := (chans s)[w := recv (chans s ! w)]\<rparr>"
| "store_step now order SvWatchConfig s = snd (WatchPlatformConfig s)"
| "store_step now order (SvWake w) s = on_mailbox watch_wake w s"
| "store_step now order (SvTake w) s = on_mailbox watch_take w s"
| "store_step now order (SvSend w) s = on_mailbox watch_send w s"
| "store_step now order (SvCancel w) s = on_mailbox watch_cancel w s"
| "store_step now order (SvRecvConfig w) s = on_mailbox watch_recv w s"
| "store_step now order SvClose s = CloseStore s"

fun store_run :: "(int \<times> u64 list \<times> store_event) list \<Rightarrow> Store \<Rightarrow> Store" where
  "store_run [] s = s"
| "store_run ((now, order, e) # es) s = store_run es (store_step now order e s)"

lemma store_run_append [simp]: "store_run (as @ bs) s = store_run bs (store_run as s)"
  by (induction as s rule: store_run.induct) auto

text \<open>What a step keeps holds at the end of a run.\<close>

lemma store_run_keeps:
  assumes "P s" and "\<And>now order e s. P s \<Longrightarrow> P (store_step now order e s)"
  shows "P (store_run evs s)"
  using assms by (induction evs s rule: store_run.induct) auto

subsection \<open>Stored data\<close>

lemma store_step_inv: "store_inv s \<Longrightarrow> store_inv (store_step now order e s)"
proof (cases e)
  case (SvOp op)
  assume "store_inv s" then show ?thesis
    by (simp add: SvOp store_exec_inv)
qed (auto simp: store_inv_def inner_ok_def WatchFunctions_def WatchPlatformConfig_def on_mailbox_def CloseStore_def Let_def)

lemma store_run_inv: "store_inv s \<Longrightarrow> store_inv (store_run evs s)"
  by (rule store_run_keeps) (auto simp: store_step_inv)

lemma store_step_abs:
  "e \<noteq> SvClose \<Longrightarrow> (\<And>op. e \<noteq> SvOp op) \<Longrightarrow> abs_store (store_step now order e s) = abs_store s"
  by (cases e) (auto simp: abs_store_def abs_functions_def user_funcs_def WatchFunctions_def
      WatchPlatformConfig_def on_mailbox_def Let_def)

lemma abs_store_Close: "abs_store (CloseStore s) = (abs_store s)\<lparr>m_closed := True\<rparr>"
  by (simp add: abs_store_def abs_functions_def user_funcs_def CloseStore_def)

text \<open>The abstract steps of a run: what a client of the maps sees.\<close>

fun spec_run :: "(int \<times> u64 list \<times> store_event) list \<Rightarrow> meta \<Rightarrow> meta" where
  "spec_run [] m = m"
| "spec_run ((now, order, SvOp op) # es) m = spec_run es (snd (spec_exec op m))"
| "spec_run ((now, order, SvClose) # es) m = spec_run es (m\<lparr>m_closed := True\<rparr>)"
| "spec_run ((now, order, e) # es) m = spec_run es m"

lemma store_run_refines: "store_inv s \<Longrightarrow> abs_store (store_run evs s) = spec_run evs (abs_store s)"
proof (induction evs arbitrary: s)
  case (Cons x evs)
  obtain now order e where x: "x = (now, order, e)"
    by (cases x)
  have step: "abs_store (store_run (x # evs) s) = spec_run evs (abs_store (store_step now order e s))"
    using Cons store_step_inv by (simp add: x)
  show ?case
  proof (cases e)
    case (SvOp op)
    have "abs_store (snd (store_exec now order op s)) = snd (spec_exec op (abs_store s))"
      using store_exec_refines[OF Cons.prems, of now order op] by (metis snd_map_prod)
    then show ?thesis
      using step by (simp add: x SvOp)
  next
    case SvClose
    then show ?thesis
      using step by (simp add: x abs_store_Close)
  qed (use step store_step_abs[of e now order s] x in auto)
qed simp

subsection \<open>Channels of function events\<close>

text \<open>How a subscriber applies an event to its own copy of the functions.\<close>

definition apply_event :: "(u64 \<times> u64 \<rightharpoonup> FunctionSpec) \<Rightarrow> FunctionEvent \<Rightarrow> (u64 \<times> u64 \<rightharpoonup> FunctionSpec)" where
  "apply_event m e =
     (case ev_function e of None \<Rightarrow> m
      | Some fn \<Rightarrow> m((fn_user_id fn, fn_function_id fn) :=
                       if ev_type e = FUNCTION_EVENT_TYPE_DELETED then None else Some fn))"

definition replays :: "(u64 \<times> u64 \<rightharpoonup> FunctionSpec) \<Rightarrow> nat \<Rightarrow> Store \<Rightarrow> bool" where
  "replays base w s \<longleftrightarrow>
     w < length (chans s) \<and> (store_closed s \<or> w \<in> set (watchers s)) \<and>
     (lost (chans s ! w) = 0 \<longrightarrow> foldl apply_event base (sent (chans s ! w)) = abs_functions s)"

text \<open>The effect of a call on the watchers: it sends the events \<open>es\<close> and they explain its effect on the functions.\<close>

definition send_all :: "nat list \<Rightarrow> FunctionEvent list \<Rightarrow> FunctionEvent chan list \<Rightarrow> FunctionEvent chan list" where
  "send_all ws es cs = foldl (\<lambda>ds e. update_all (try_send 16 e) ws ds) cs es"

definition emitted :: "FunctionEvent list \<Rightarrow> Store \<Rightarrow> Store \<Rightarrow> bool" where
  "emitted es s t \<longleftrightarrow>
     watchers t = watchers s \<and> store_closed t = store_closed s \<and> chans t = send_all (watchers s) es (chans s) \<and>
     abs_functions t = foldl apply_event (abs_functions s) es \<and> (store_closed s \<longrightarrow> es = [])"

lemma length_send_all [simp]: "length (send_all ws es cs) = length cs"
  unfolding send_all_def by (induction es arbitrary: cs) auto

lemma nth_send_all:
  assumes "distinct ws" "w < length cs"
  shows "send_all ws es cs ! w = (if w \<in> set ws then foldl (\<lambda>c e. try_send 16 e c) (cs ! w) es else cs ! w)"
  using assms unfolding send_all_def by (induction es arbitrary: cs) (auto simp: nth_update_all)

lemma try_sends_lossless:
  "lost (foldl (\<lambda>c e. try_send n e c) c es) = 0 \<Longrightarrow>
     lost c = 0 \<and> sent (foldl (\<lambda>c e. try_send n e c) c es) = sent c @ es"
proof (induction es arbitrary: c)
  case (Cons e es)
  then have "lost (try_send n e c) = 0" "sent (foldl (\<lambda>c e. try_send n e c) c (e # es)) = sent (try_send n e c) @ es"
    by auto
  then show ?case
    by (auto simp: try_send_def split: if_splits)
qed simp

lemma emitted_replays:
  assumes ok: "distinct (watchers s)" and em: "emitted es s t" and rep: "replays base w s"
  shows "replays base w t"
proof (cases "w \<in> set (watchers s)")
  case True
  have w: "w < length (chans s)"
    using rep by (simp add: replays_def)
  have chan: "chans t ! w = foldl (\<lambda>c e. try_send 16 e c) (chans s ! w) es"
    using em True ok w by (simp add: emitted_def nth_send_all)
  have fns: "abs_functions t = foldl apply_event (abs_functions s) es"
    using em by (simp add: emitted_def)
  have "foldl apply_event base (sent (chans t ! w)) = abs_functions t" if "lost (chans t ! w) = 0"
    using try_sends_lossless[OF that[unfolded chan]] rep by (simp add: replays_def chan fns)
  then show ?thesis
    using rep em by (simp add: replays_def emitted_def)
next
  case False
  then have "es = []"
    using em rep by (auto simp: emitted_def replays_def)
  then show ?thesis
    using em rep by (simp add: emitted_def replays_def send_all_def)
qed

lemma emitted_none:
  assumes "watchers t = watchers s" "store_closed t = store_closed s" "chans t = chans s" "abs_functions t = abs_functions s"
  shows "emitted [] s t"
  using assms by (simp add: emitted_def send_all_def)

lemma emitted_one:
  assumes "watchers s' = watchers s" "store_closed s' = store_closed s" "chans s' = chans s" "\<not> store_closed s"
    and "abs_functions s' = apply_event (abs_functions s) e"
  shows "emitted [e] s (emitLocked e s')"
proof -
  have "abs_functions (emitLocked e s') = abs_functions s'"
    by (simp add: abs_functions_def user_funcs_def frame_simps)
  then show ?thesis
    using assms by (simp add: emitted_def send_all_def emitLocked_def)
qed

lemma fold_emit:
  "chans (fold (\<lambda>k. emitLocked (g k)) ks s) = send_all (watchers s) (map g ks) (chans s)"
  "watchers (fold (\<lambda>k. emitLocked (g k)) ks s) = watchers s"
  by (induction ks arbitrary: s) (auto simp: send_all_def emitLocked_def)

lemma apply_deleted:
  "foldl apply_event m (map (deleted_event now u) ks) = (\<lambda>(v, f). if v = u \<and> f \<in> set ks then None else m (v, f))"
  by (induction ks arbitrary: m) (auto simp: apply_event_def deleted_event_def fun_eq_iff)

lemma DeleteUser_emits: "\<exists>es. emitted es s (snd (DeleteUser now order u s))"
proof (cases "u = 0 \<or> store_closed s \<or> map_of (users s) u = None")
  case True
  then show ?thesis
    by (intro exI[of _ "[]"]) (auto simp: DeleteUser_refused intro: emitted_none)
next
  case False
  let ?ks = "map_range order (user_funcs s u)"
  let ?t = "snd (DeleteUser now order u s)"
  have t: "?t = fold (\<lambda>f. emitLocked (deleted_event now u f)) ?ks (drop_user u s)"
    using False by (auto simp: DeleteUser_def drop_user_def Let_def)
  have "abs_functions ?t = abs_functions (drop_user u s)"
    using same_data_abs[OF same_data_fold_emit[of "deleted_event now u" ?ks "drop_user u s"]]
    unfolding t by (simp add: abs_store_def)
  also have "\<dots> = foldl apply_event (abs_functions s) (map (deleted_event now u) ?ks)"
    unfolding apply_deleted
    by (auto simp: abs_functions_def drop_user_def user_funcs_def map_of_delete_iff fun_eq_iff eq_commute[of None]
        map_of_eq_None_iff split: option.splits)
  finally have fns: "abs_functions ?t = foldl apply_event (abs_functions s) (map (deleted_event now u) ?ks)" .
  have "store_closed ?t = store_closed s"
    using same_data_fold_emit[of "deleted_event now u" ?ks "drop_user u s"] unfolding t
    by (simp add: same_data_def drop_user_def)
  then show ?thesis
    using False fns
    by (intro exI[of _ "map (deleted_event now u) ?ks"])
      (auto simp: emitted_def t fold_emit drop_user_def)
qed

lemma abs_functions_put:
  "abs_functions (s\<lparr>functions := AList.update u (AList.update f fn (user_funcs s u)) (functions s)\<rparr>) =
     (abs_functions s)((u, f) \<mapsto> fn)"
  using abs_put_function[where s = s and u = u and f = f and fn = fn] by (simp add: abs_store_def)

lemma CreateFunction_emits: "\<exists>es. emitted es s (snd (CreateFunction now req s))"
proof (cases "\<exists>fn. req = Some fn \<and> validateFunction req = None \<and> \<not> store_closed s \<and> map_of (users s) (fn_user_id fn) \<noteq> None")
  case True
  then obtain fn where req: "req = Some fn" "validateFunction (Some fn) = None" "\<not> store_closed s"
      "map_of (users s) (fn_user_id fn) \<noteq> None"
    by auto
  obtain fn' s' where n: "numbered fn s = (fn', s')"
    by fastforce
  have s': "watchers s' = watchers s" "store_closed s' = store_closed s" "chans s' = chans s"
      "abs_functions s' = abs_functions s"
    using n by (auto simp: numbered_def split: if_splits)
  let ?e = "function_event FUNCTION_EVENT_TYPE_CREATED now fn'"
  let ?s2 = "s'\<lparr>functions := AList.update (fn_user_id fn)
      (AList.update (fn_function_id fn') fn' (user_funcs s (fn_user_id fn))) (functions s)\<rparr>"
  have "abs_functions ?s2 = apply_event (abs_functions s) ?e"
    using abs_functions_put[where s = s' and u = "fn_user_id fn" and f = "fn_function_id fn'" and fn = fn'] s'
      numbered_parts[OF n] by (simp add: apply_event_def function_event_def)
  then have "emitted [?e] s (emitLocked ?e ?s2)"
    using s' req(3) by (intro emitted_one) auto
  moreover have "emitted [] s s'"
    using s' by (intro emitted_none)
  ultimately show ?thesis
    unfolding req(1) CreateFunction_accepted[OF req(2-4) n] by (auto split: if_splits)
qed (auto simp: CreateFunction_refused(1) intro!: exI[of _ "[]"] emitted_none)

lemma UpdateFunction_emits: "\<exists>es. emitted es s (snd (UpdateFunction now req s))"
proof -
  let ?e = "\<lambda>fn. function_event FUNCTION_EVENT_TYPE_UPDATED now fn"
  have "emitted [?e fn] s (emitLocked (?e fn) (s\<lparr>functions := AList.update (fn_user_id fn)
      (AList.update (fn_function_id fn) fn m) (functions s)\<rparr>))"
    if "map_of (functions s) (fn_user_id fn) = Some m" "\<not> store_closed s" for fn m
    using that abs_functions_put[where s = s and u = "fn_user_id fn" and f = "fn_function_id fn" and fn = fn]
    by (intro emitted_one) (auto simp: apply_event_def function_event_def user_funcs_Some)
  moreover have "emitted [] s s"
    by (rule emitted_none) auto
  ultimately show ?thesis
    by (auto simp: UpdateFunction_def Let_def split: option.splits)
qed

lemma DeleteFunction_emits: "\<exists>es. emitted es s (snd (DeleteFunction now u f s))"
proof -
  let ?e = "deleted_event now u f"
  have "emitted [?e] s (emitLocked ?e (s\<lparr>functions := (if AList.delete f m = [] then AList.delete u (functions s)
                                 else AList.update u (AList.delete f m) (functions s))\<rparr>))"
    if m: "map_of (functions s) u = Some m" and "\<not> store_closed s" for m
    using that(2) abs_delete_function[OF m, of f]
    by (intro emitted_one) (auto simp: apply_event_def deleted_event_def abs_store_def)
  moreover have "emitted [] s s"
    by (rule emitted_none) auto
  ultimately show ?thesis
    by (auto simp: DeleteFunction_def Let_def split: option.splits)
qed

lemma op_emits: "\<exists>es. emitted es s (snd (store_exec now order op s))"
proof (cases op)
  case (OpCreateUser u)
  then show ?thesis
    by (intro exI[of _ "[]"] emitted_none) (auto simp: map_prod_snd CreateUser_def Let_def split: option.splits)
next
  case (OpUpdateUser u)
  then show ?thesis
    by (intro exI[of _ "[]"] emitted_none) (auto simp: map_prod_snd UpdateUser_def split: option.splits)
next
  case (OpPutConfig c v)
  then show ?thesis
    by (intro exI[of _ "[]"] emitted_none)
      (auto simp: map_prod_snd PutPlatformConfig_def Let_def frame_simps abs_functions_def user_funcs_def split: option.splits)
qed (auto simp: map_prod_snd DeleteUser_emits CreateFunction_emits UpdateFunction_emits DeleteFunction_emits
    intro!: exI[of _ "[]"] emitted_none)

lemma watchers_exec [simp]: "watchers (snd (store_exec now order op s)) = watchers s"
  "length (chans (snd (store_exec now order op s))) = length (chans s)"
  "store_closed (snd (store_exec now order op s)) = store_closed s"
  using op_emits[of s now order op] by (auto simp: emitted_def)

definition watchers_ok :: "Store \<Rightarrow> bool" where
  "watchers_ok s \<longleftrightarrow> distinct (watchers s) \<and> (\<forall>w \<in> set (watchers s). w < length (chans s))"

lemma watchers_ok_step: "watchers_ok s \<Longrightarrow> watchers_ok (store_step now order e s)"
  by (cases e) (auto simp: watchers_ok_def WatchFunctions_def WatchPlatformConfig_def on_mailbox_def CloseStore_def
      Let_def less_Suc_eq)

lemma watchers_ok_run: "watchers_ok (store_run evs New)"
  by (rule store_run_keeps) (auto simp: watchers_ok_step, simp add: watchers_ok_def New_def)

lemma recv_chan [simp]: "sent (recv c) = sent c" "lost (recv c) = lost c"
  by (simp_all add: recv_def)

lemma abs_functions_cong: "functions s = functions t \<Longrightarrow> abs_functions s = abs_functions t"
  by (simp add: abs_functions_def user_funcs_def)

lemma replays_step:
  assumes ok: "watchers_ok s" and rep: "replays base w s"
  shows "replays base w (store_step now order e s)"
proof (cases e)
  case (SvOp op)
  obtain es where "emitted es s (snd (store_exec now order op s))"
    using op_emits by blast
  then show ?thesis
    using emitted_replays[OF _ _ rep] ok by (simp add: SvOp watchers_ok_def)
next
  case SvWatch
  then show ?thesis
    using rep by (auto simp: replays_def WatchFunctions_def nth_append abs_functions_def user_funcs_def)
next
  case (SvRecv v)
  have "sent ((chans s)[v := recv (chans s ! v)] ! w) = sent (chans s ! w)"
    "lost ((chans s)[v := recv (chans s ! v)] ! w) = lost (chans s ! w)"
    using rep by (cases "v = w"; simp add: replays_def)+
  then show ?thesis
    using rep by (simp add: SvRecv replays_def abs_functions_def user_funcs_def)
next
  case SvClose
  then show ?thesis
    using rep ok
    by (auto simp: replays_def CloseStore_def nth_update_all watchers_ok_def abs_functions_def user_funcs_def)
qed (use rep in \<open>auto simp: replays_def WatchPlatformConfig_def on_mailbox_def Let_def abs_functions_def user_funcs_def\<close>)

lemma replays_run: "watchers_ok s \<Longrightarrow> replays base w s \<Longrightarrow> replays base w (store_run evs s)"
  by (rule conjunct2[OF store_run_keeps[where P = "\<lambda>s. watchers_ok s \<and> replays base w s"]])
    (auto simp: watchers_ok_step replays_step)

lemma replays_start:
  "WatchFunctions s = (Inr w, s') \<Longrightarrow> replays (abs_functions s) w s'"
  by (auto simp: WatchFunctions_def replays_def new_chan_def abs_functions_def user_funcs_def split: if_splits)

subsection \<open>Delivery of the configuration\<close>

text \<open>
  What a subscriber got, is about to get, and has in its mailbox: the documents of a watch in the
  order of their delivery.
\<close>

definition hist :: "configWatcher \<Rightarrow> PlatformConfig list" where
  "hist m = sent (out m) @ (case pc m of Sending c \<Rightarrow> [c] | _ \<Rightarrow> []) @ (case latest m of None \<Rightarrow> [] | Some c \<Rightarrow> [c])"

definition mailbox_fresh :: "PlatformConfig option \<Rightarrow> configWatcher \<Rightarrow> bool" where
  "mailbox_fresh current m \<longleftrightarrow>
     pc m \<noteq> Returned \<and> \<not> cw_closed m \<and> (latest m \<noteq> None \<longrightarrow> token m \<or> pc m = Taking) \<and>
     (if hist m = [] then None else Some (last (hist m))) = current"

definition out_ok :: "configWatcher \<Rightarrow> bool" where
  "out_ok m \<longleftrightarrow> received (out m) \<le> length (sent (out m)) \<and> length (chan_buffer (out m)) \<le> 8"

text \<open>The watches in \<open>C\<close> may have been cancelled; the goroutines of the others run.\<close>

definition config_inv :: "nat set \<Rightarrow> Store \<Rightarrow> bool" where
  "config_inv C s \<longleftrightarrow>
     distinct (configWatchers s) \<and> (\<forall>m \<in> set (mailboxes s). out_ok m) \<and>
     (\<forall>w \<in> set (configWatchers s). w < length (mailboxes s) \<and> (w \<notin> C \<longrightarrow> mailbox_fresh (platformConfig s) (mailboxes s ! w)))"

lemma mailbox_fresh_set: "mailbox_fresh current m \<Longrightarrow> mailbox_fresh (Some cfg) (set_mailbox cfg m)"
  by (auto simp: mailbox_fresh_def set_mailbox_def hist_def)

lemma hist_steps:
  "hist (watch_wake m) = hist m" "\<not> cw_closed m \<Longrightarrow> hist (watch_take m) = hist m" "hist (watch_send m) = hist m"
  by (auto simp: hist_def watch_wake_def watch_take_def take_mailbox_def watch_send_def split: option.splits watch_pc.splits)

lemma mailbox_fresh_wake: "mailbox_fresh current m \<Longrightarrow> mailbox_fresh current (watch_wake m)"
  unfolding mailbox_fresh_def hist_steps by (auto simp: watch_wake_def)

lemma mailbox_fresh_take: "mailbox_fresh current m \<Longrightarrow> mailbox_fresh current (watch_take m)"
  using hist_steps(2)[of m] by (auto simp: mailbox_fresh_def) (auto simp: watch_take_def take_mailbox_def split: option.splits if_splits)

lemma mailbox_fresh_send: "mailbox_fresh current m \<Longrightarrow> mailbox_fresh current (watch_send m)"
  unfolding mailbox_fresh_def hist_steps by (auto simp: watch_send_def split: watch_pc.splits)

lemma hist_recv [simp]: "hist (watch_recv m) = hist m"
  by (simp add: hist_def watch_recv_def)

lemma mailbox_fresh_recv: "mailbox_fresh current m \<Longrightarrow> mailbox_fresh current (watch_recv m)"
  unfolding mailbox_fresh_def hist_recv by (simp add: watch_recv_def)

lemmas mailbox_fresh_steps = mailbox_fresh_wake mailbox_fresh_take mailbox_fresh_send mailbox_fresh_recv

lemma out_ok_steps:
  assumes "out_ok m"
  shows "out_ok (watch_wake m)" "out_ok (watch_take m)" "out_ok (watch_send m)" "out_ok (watch_cancel m)" "out_ok (watch_recv m)"
    "out_ok (set_mailbox cfg m)" "out_ok (close_mailbox m)"
  using assms
  by (auto simp: out_ok_def watch_wake_def watch_take_def take_mailbox_def watch_send_def watch_cancel_def watch_recv_def
      set_mailbox_def close_mailbox_def chan_buffer_def recv_def split: option.splits watch_pc.splits)

lemma config_inv_mailbox:
  assumes inv: "config_inv C s" and "\<And>m. out_ok m \<Longrightarrow> out_ok (f m)"
    and "\<And>m c. w \<notin> C \<Longrightarrow> mailbox_fresh c m \<Longrightarrow> mailbox_fresh c (f m)"
  shows "config_inv C (on_mailbox f w s)"
proof (cases "w < length (mailboxes s)")
  case True
  then have "out_ok (f (mailboxes s ! w))"
    using inv assms(2) by (simp add: config_inv_def)
  then have "\<forall>m \<in> set ((mailboxes s)[w := f (mailboxes s ! w)]). out_ok m"
    using inv set_update_subset_insert[of "mailboxes s" w] by (fastforce simp: config_inv_def)
  then show ?thesis
    using inv assms(3) True by (auto simp: config_inv_def on_mailbox_def nth_list_update)
next
  case False
  then show ?thesis
    using inv by (simp add: on_mailbox_def list_update_beyond)
qed

lemma config_inv_frame:
  "config_inv C s \<Longrightarrow> configWatchers t = configWatchers s \<Longrightarrow> mailboxes t = mailboxes s \<Longrightarrow>
     platformConfig t = platformConfig s \<Longrightarrow> config_inv C t"
  by (simp add: config_inv_def)

lemma out_ok_update_all:
  assumes "\<forall>m \<in> set ms. out_ok m" "\<And>m. out_ok m \<Longrightarrow> out_ok (f m)" "distinct ws"
  shows "\<forall>m \<in> set (update_all f ws ms). out_ok m"
  using assms by (auto simp: all_set_conv_all_nth nth_update_all)

lemma config_inv_Put:
  assumes "config_inv C s"
  shows "config_inv C (snd (PutPlatformConfig req v s))"
proof -
  have "config_inv C (emitConfigLocked c (s\<lparr>configVersion := n, platformConfig := Some c\<rparr>))" for c n
    using assms out_ok_update_all[of "mailboxes s" "set_mailbox c" "configWatchers s"]
    by (auto simp: config_inv_def emitConfigLocked_def nth_update_all out_ok_steps intro: mailbox_fresh_set)
  then show ?thesis
    using assms by (auto simp: PutPlatformConfig_def Let_def split: option.splits)
qed

definition same_config :: "Store \<Rightarrow> Store \<Rightarrow> bool" where
  "same_config s t \<longleftrightarrow>
     configWatchers t = configWatchers s \<and> mailboxes t = mailboxes s \<and>
     platformConfig t = platformConfig s \<and> configVersion t = configVersion s"

lemma same_config_emit [simp]: "same_config s (emitLocked e t) = same_config s t"
  by (simp add: same_config_def frame_simps)

lemma same_config_fold_emit [simp]: "same_config s (fold (\<lambda>k. emitLocked (g k)) ks t) = same_config s t"
  by (induction ks arbitrary: t) auto

lemma same_config_calls:
  "same_config s (snd (CreateUser u s))" "same_config s (snd (UpdateUser u s))"
  "same_config s (snd (DeleteUser now order n s))" "same_config s (snd (CreateFunction now f s))"
  "same_config s (snd (UpdateFunction now f s))" "same_config s (snd (DeleteFunction now n k s))"
proof -
  have eq: "same_config s t" if "configWatchers t = configWatchers s" "mailboxes t = mailboxes s"
      "platformConfig t = platformConfig s" "configVersion t = configVersion s" for t
    using that by (simp add: same_config_def)
  show "same_config s (snd (CreateUser u s))" "same_config s (snd (UpdateUser u s))"
    "same_config s (snd (DeleteUser now order n s))"
    by (auto simp: CreateUser_def UpdateUser_def DeleteUser_def Let_def intro: eq split: option.splits)
  show "same_config s (snd (CreateFunction now f s))"
    by (auto simp: CreateFunction_def Let_def intro: eq split: option.splits)
  show "same_config s (snd (UpdateFunction now f s))" "same_config s (snd (DeleteFunction now n k s))"
    by (auto simp: UpdateFunction_def DeleteFunction_def Let_def intro: eq split: option.splits)
qed

lemma same_config_exec: "(\<And>c v. op \<noteq> OpPutConfig c v) \<Longrightarrow> same_config s (snd (store_exec now order op s))"
  by (cases op) (auto simp: map_prod_snd same_config_calls, auto simp: same_config_def)

lemma config_inv_push:
  assumes inv: "config_inv C s" and m: "out_ok m" "mailbox_fresh (platformConfig s) m"
  shows "config_inv C (s\<lparr>mailboxes := mailboxes s @ [m], configWatchers := configWatchers s @ [length (mailboxes s)]\<rparr>)"
proof -
  have "length (mailboxes s) \<notin> set (configWatchers s)"
    using inv by (auto simp: config_inv_def)
  then show ?thesis
    using inv m by (auto simp: config_inv_def nth_append)
qed

definition ends_watch :: "store_event \<Rightarrow> nat set" where
  "ends_watch e = (case e of SvCancel w \<Rightarrow> {w} | _ \<Rightarrow> {})"

lemma config_inv_more: "config_inv C s \<Longrightarrow> C \<subseteq> D \<Longrightarrow> config_inv D s"
  by (auto simp: config_inv_def)

lemma config_inv_step:
  assumes inv: "config_inv C s"
  shows "config_inv (C \<union> ends_watch e) (store_step now order e s)"
proof (cases e)
  case (SvOp op)
  show ?thesis
  proof (cases "\<exists>c v. op = OpPutConfig c v")
    case True
    then show ?thesis
      using inv config_inv_Put by (auto simp: SvOp map_prod_snd ends_watch_def)
  next
    case False
    then show ?thesis
      using inv same_config_exec[of op s now order] by (auto simp: SvOp ends_watch_def same_config_def intro: config_inv_frame)
  qed
next
  case SvWatch
  then show ?thesis
    using inv by (auto simp: ends_watch_def WatchFunctions_def config_inv_def)
next
  case (SvRecv w)
  then show ?thesis
    using inv by (auto simp: ends_watch_def config_inv_def)
next
  case SvWatchConfig
  show ?thesis
  proof (cases "platformConfig s")
    case None
    have "out_ok newConfigWatcher" "mailbox_fresh None newConfigWatcher"
      by (auto simp: out_ok_def mailbox_fresh_def newConfigWatcher_def new_chan_def chan_buffer_def hist_def)
    then show ?thesis
      using config_inv_push[OF inv] None inv by (simp add: SvWatchConfig WatchPlatformConfig_def ends_watch_def)
  next
    case (Some c)
    have "out_ok (set_mailbox c newConfigWatcher)" "mailbox_fresh (Some c) (set_mailbox c newConfigWatcher)"
      by (auto simp: out_ok_def mailbox_fresh_def set_mailbox_def newConfigWatcher_def new_chan_def chan_buffer_def hist_def)
    then show ?thesis
      using config_inv_push[OF inv] Some inv by (simp add: SvWatchConfig WatchPlatformConfig_def ends_watch_def)
  qed
next
  case SvClose
  show ?thesis
    using inv out_ok_update_all[of "mailboxes s" close_mailbox "configWatchers s"] out_ok_steps(7)
    by (simp add: SvClose CloseStore_def config_inv_def ends_watch_def)
next
  case (SvCancel w)
  have "config_inv (insert w C) s"
    using config_inv_more[OF inv] by blast
  then show ?thesis
    by (auto simp: SvCancel ends_watch_def out_ok_steps intro!: config_inv_mailbox)
qed (use inv in \<open>auto intro!: config_inv_mailbox mailbox_fresh_steps simp: out_ok_steps ends_watch_def\<close>)

definition cancelled :: "(int \<times> u64 list \<times> store_event) list \<Rightarrow> nat set" where
  "cancelled evs = (\<Union>x \<in> set evs. ends_watch (snd (snd x)))"

lemma config_inv_run: "config_inv (cancelled evs) (store_run evs New)"
proof (induction evs rule: rev_induct)
  case (snoc x evs)
  obtain now order e where x: "x = (now, order, e)"
    by (cases x)
  have "cancelled (evs @ [x]) = cancelled evs \<union> ends_watch e"
    by (auto simp: cancelled_def x)
  then show ?case
    using config_inv_step[OF snoc.IH, of e now order] by (simp add: x)
qed (simp add: config_inv_def New_def)

text \<open>When the subscriber reads and the goroutine runs, the newest document reaches the channel.\<close>

lemma recv_send:
  assumes "out_ok m" "pc m \<noteq> Returned"
  shows "pc (watch_send (watch_recv m)) = (if pc m = Taking then Taking else AwaitNotify)" "latest (watch_send (watch_recv m)) = latest m"
    "token (watch_send (watch_recv m)) = token m" "cw_closed (watch_send (watch_recv m)) = cw_closed m"
    "hist (watch_send (watch_recv m)) = hist m"
proof -
  have room: "length (chan_buffer (recv (out m))) < 8"
    using assms by (auto simp: out_ok_def recv_def chan_buffer_def)
  show "pc (watch_send (watch_recv m)) = (if pc m = Taking then Taking else AwaitNotify)" "latest (watch_send (watch_recv m)) = latest m"
    "token (watch_send (watch_recv m)) = token m" "cw_closed (watch_send (watch_recv m)) = cw_closed m"
    "hist (watch_send (watch_recv m)) = hist m"
    using assms(2) room by (auto simp: watch_send_def watch_recv_def hist_def split: watch_pc.splits)
qed

lemma take_keeps:
  assumes "mailbox_fresh current m"
  shows "hist (watch_take m) = hist m" "pc (watch_take m) \<noteq> Taking" "mailbox_fresh current (watch_take m)"
proof -
  show "mailbox_fresh current (watch_take m)" "hist (watch_take m) = hist m"
    using mailbox_fresh_take[OF assms] hist_steps(2)[of m] assms by (simp_all add: mailbox_fresh_def)
  show "pc (watch_take m) \<noteq> Taking"
    by (auto simp: watch_take_def take_mailbox_def split: option.splits)
qed

text \<open>After a wakeup and a take, the mailbox of a goroutine that was not about to take is empty.\<close>

lemma wake_take_empties:
  assumes "mailbox_fresh current m" "pc m \<noteq> Taking" "pc m = AwaitNotify \<or> latest m = None"
  shows "latest (watch_take (watch_wake m)) = None"
  using assms by (auto simp: mailbox_fresh_def watch_wake_def watch_take_def take_mailbox_def split: option.splits)

lemma take_empties: "pc m = Taking \<Longrightarrow> latest (watch_take m) = None"
  by (auto simp: watch_take_def take_mailbox_def split: option.splits)

definition deliver :: "configWatcher \<Rightarrow> configWatcher" where
  "deliver m = watch_send (watch_recv (watch_take (watch_wake (watch_take (watch_send (watch_recv m))))))"

lemma deliver_newest:
  assumes ok: "out_ok m" and fresh: "mailbox_fresh current m"
  shows "sent (out (deliver m)) = hist m" "pc (deliver m) = AwaitNotify"
proof -
  let ?m1 = "watch_send (watch_recv m)"
  let ?m2 = "watch_take ?m1"
  let ?m3 = "watch_take (watch_wake ?m2)"
  have m1: "mailbox_fresh current ?m1" "hist ?m1 = hist m" "pc ?m1 = AwaitNotify \<or> pc ?m1 = Taking"
    using recv_send[OF ok] fresh mailbox_fresh_send[OF mailbox_fresh_recv[OF fresh]] by (auto simp: mailbox_fresh_def)
  note m2 = take_keeps[OF m1(1)]
  have "pc ?m2 = AwaitNotify \<or> latest ?m2 = None"
    using m1(3) take_empties[of ?m1] by (auto simp: watch_take_def)
  then have m3: "latest ?m3 = None" "hist ?m3 = hist m" "pc ?m3 \<noteq> Taking" "mailbox_fresh current ?m3"
    using wake_take_empties[OF m2(3,2)] take_keeps[OF mailbox_fresh_wake[OF m2(3)]] m2(1) m1(2) by (auto simp: hist_steps)
  have ok3: "out_ok ?m3"
    by (intro out_ok_steps ok)
  have run: "pc ?m3 \<noteq> Returned"
    using m3(4) by (simp add: mailbox_fresh_def)
  note D = recv_send[OF ok3 run]
  show pc: "pc (deliver m) = AwaitNotify"
    using D(1) m3(3) by (simp add: deliver_def)
  have "hist (deliver m) = hist m" "latest (deliver m) = None"
    using D(2,5) m3 by (auto simp: deliver_def)
  then show "sent (out (deliver m)) = hist m"
    using pc by (simp add: hist_def)
qed

definition deliver_events :: "nat \<Rightarrow> (int \<times> u64 list \<times> store_event) list" where
  "deliver_events w =
     map (\<lambda>e. (0, [], e)) [SvRecvConfig w, SvSend w, SvTake w, SvWake w, SvTake w, SvRecvConfig w, SvSend w]"

lemma run_deliver:
  assumes "w < length (mailboxes s)"
  shows "store_run (deliver_events w) s = s\<lparr>mailboxes := (mailboxes s)[w := deliver (mailboxes s ! w)]\<rparr>"
  using assms by (simp add: deliver_events_def on_mailbox_def deliver_def)

lemma newest_known:
  assumes "w \<in> set (configWatchers (store_run evs New))" "w \<notin> cancelled evs"
  defines "m \<equiv> mailboxes (store_run evs New) ! w"
  shows "out_ok m" "mailbox_fresh (platformConfig (store_run evs New)) m" "w < length (mailboxes (store_run evs New))"
  using config_inv_run[of evs] assms(1,2) by (auto simp: config_inv_def m_def)

subsection \<open>Versions of the configuration\<close>

lemma configVersion_step:
  "configVersion (store_step now order e s) = configVersion s \<or>
   configVersion (store_step now order e s) = configVersion s + 1"
proof (cases e)
  case (SvOp op)
  show ?thesis
  proof (cases "\<exists>c v. op = OpPutConfig c v")
    case True
    then show ?thesis
      by (auto simp: SvOp map_prod_snd PutPlatformConfig_def Let_def frame_simps split: option.splits)
  next
    case False
    then show ?thesis
      using same_config_exec[of op s now order] by (auto simp: SvOp same_config_def)
  qed
qed (auto simp: WatchFunctions_def WatchPlatformConfig_def on_mailbox_def CloseStore_def Let_def)

lemma configVersion_mono:
  "unat (configVersion s) + length evs < 2 ^ 64 \<Longrightarrow>
     unat (configVersion s) \<le> unat (configVersion (store_run evs s)) \<and>
     unat (configVersion (store_run evs s)) \<le> unat (configVersion s) + length evs"
proof (induction evs arbitrary: s)
  case (Cons x evs)
  obtain now order e where x: "x = (now, order, e)"
    by (cases x)
  let ?s = "store_step now order e s"
  have "unat (configVersion s + 1) = unat (configVersion s) + 1"
    using Cons.prems by (subst unat_add_lem[THEN iffD1]) auto
  then have v: "unat (configVersion s) \<le> unat (configVersion ?s) \<and> unat (configVersion ?s) \<le> unat (configVersion s) + 1"
    using configVersion_step[of now order e s] by auto
  then show ?case
    using Cons.IH[of ?s] Cons.prems by (simp add: x)
qed simp

text \<open>The versions of a watch ascend, and none is ahead of the counter.\<close>

definition ascending_versions :: "u64 \<Rightarrow> configWatcher \<Rightarrow> bool" where
  "ascending_versions v m \<longleftrightarrow> sorted_wrt (<) (map version (hist m)) \<and> (\<forall>c \<in> set (hist m). version c \<le> v)"

definition versions_inv :: "Store \<Rightarrow> bool" where
  "versions_inv s \<longleftrightarrow>
     (\<forall>m \<in> set (mailboxes s). ascending_versions (configVersion s) m) \<and>
     (\<forall>c. platformConfig s = Some c \<longrightarrow> version c = configVersion s)"

lemma ascending_versions_steps:
  assumes "ascending_versions v m"
  shows "ascending_versions v (watch_wake m)" "ascending_versions v (watch_take m)" "ascending_versions v (watch_send m)"
    "ascending_versions v (watch_cancel m)" "ascending_versions v (watch_recv m)" "ascending_versions v (close_mailbox m)"
  using assms
  by (auto simp: ascending_versions_def hist_def watch_wake_def watch_take_def take_mailbox_def watch_send_def watch_cancel_def
      watch_recv_def close_mailbox_def sorted_wrt_append split: option.splits watch_pc.splits if_splits)

lemma ascending_versions_set:
  assumes "ascending_versions v m" "v < version c"
  shows "ascending_versions (version c) (set_mailbox c m)"
proof -
  have "sorted_wrt (<) (map version (hist m)) \<and> (\<forall>d \<in> set (hist m). version d < version c)"
    using assms by (auto simp: ascending_versions_def)
  then show ?thesis
    by (auto simp: ascending_versions_def hist_def set_mailbox_def sorted_wrt_append less_imp_le
        split: option.splits watch_pc.splits if_splits)
qed

lemma ascending_versions_mono: "ascending_versions v m \<Longrightarrow> v \<le> v' \<Longrightarrow> ascending_versions v' m"
  by (auto simp: ascending_versions_def)

lemma versions_inv_mailbox:
  assumes inv: "versions_inv s" and f: "\<And>m v. ascending_versions v m \<Longrightarrow> ascending_versions v (f m)"
  shows "versions_inv (on_mailbox f w s)"
proof (cases "w < length (mailboxes s)")
  case True
  then have "ascending_versions (configVersion s) (f (mailboxes s ! w))"
    using inv f by (simp add: versions_inv_def)
  then show ?thesis
    using inv set_update_subset_insert[of "mailboxes s" w] by (fastforce simp: versions_inv_def on_mailbox_def)
next
  case False
  then show ?thesis
    using inv by (simp add: on_mailbox_def list_update_beyond)
qed

text \<open>Every index of the heap is updated at most once, so it holds of the new heap what \<open>f\<close> establishes.\<close>

lemma update_all_all:
  assumes "distinct ws" "\<And>m. m \<in> set ms \<Longrightarrow> P m \<and> P (f m)"
  shows "\<forall>m \<in> set (update_all f ws ms). P m"
  using assms by (auto simp: all_set_conv_all_nth nth_update_all)

lemma versions_inv_Put:
  assumes inv: "versions_inv s" and ws: "distinct (configWatchers s)" and v: "configVersion s < configVersion s + 1"
  shows "versions_inv (snd (PutPlatformConfig req e s))"
proof -
  let ?c = "\<lambda>cfg. cfg\<lparr>version := configVersion s + 1\<rparr>"
  have "\<forall>m \<in> set (update_all (set_mailbox (?c cfg)) (configWatchers s) (mailboxes s)).
      ascending_versions (configVersion s + 1) m" for cfg
  proof (rule update_all_all[OF ws])
    fix m assume "m \<in> set (mailboxes s)"
    then have "ascending_versions (configVersion s) m"
      using inv by (simp add: versions_inv_def)
    then show "ascending_versions (configVersion s + 1) m \<and> ascending_versions (configVersion s + 1) (set_mailbox (?c cfg) m)"
      using v ascending_versions_set[of "configVersion s" m "?c cfg"] by (auto intro: ascending_versions_mono)
  qed
  then show ?thesis
    using inv by (auto simp: PutPlatformConfig_def Let_def versions_inv_def emitConfigLocked_def split: option.splits)
qed

lemma versions_inv_frame: "versions_inv s \<Longrightarrow> same_config s t \<Longrightarrow> versions_inv t"
  by (simp add: versions_inv_def same_config_def)

lemma versions_inv_step:
  assumes inv: "versions_inv s" and cinv: "config_inv C s" and v: "configVersion s < configVersion s + 1"
  shows "versions_inv (store_step now order e s)"
proof (cases e)
  case (SvOp op)
  show ?thesis
  proof (cases "\<exists>c v. op = OpPutConfig c v")
    case True
    then show ?thesis
      using versions_inv_Put[OF inv _ v] cinv by (auto simp: SvOp map_prod_snd config_inv_def)
  next
    case False
    then show ?thesis
      using versions_inv_frame[OF inv] same_config_exec[of op s now order] by (simp add: SvOp)
  qed
next
  case SvWatchConfig
  have "ascending_versions (configVersion s) newConfigWatcher"
    by (simp add: ascending_versions_def newConfigWatcher_def hist_def new_chan_def)
  moreover have "ascending_versions (configVersion s) (set_mailbox c newConfigWatcher)" if "platformConfig s = Some c" for c
    using that inv by (simp add: versions_inv_def ascending_versions_def newConfigWatcher_def hist_def new_chan_def set_mailbox_def)
  ultimately show ?thesis
    using inv by (auto simp: SvWatchConfig WatchPlatformConfig_def versions_inv_def Let_def split: option.splits)
next
  case SvClose
  have "\<forall>m \<in> set (update_all close_mailbox (configWatchers s) (mailboxes s)). ascending_versions (configVersion s) m"
    by (rule update_all_all) (use inv cinv in \<open>auto simp: config_inv_def versions_inv_def ascending_versions_steps\<close>)
  then show ?thesis
    using inv by (simp add: SvClose CloseStore_def versions_inv_def)
next
  case SvWatch
  then show ?thesis
    by (auto simp: WatchFunctions_def same_config_def intro!: versions_inv_frame[OF inv])
next
  case (SvRecv w)
  then show ?thesis
    by (auto simp: same_config_def intro!: versions_inv_frame[OF inv])
qed (use inv in \<open>auto intro!: versions_inv_mailbox ascending_versions_steps\<close>)

lemma versions_inv_run: "length evs < 2 ^ 64 \<Longrightarrow> versions_inv (store_run evs New)"
proof (induction evs rule: rev_induct)
  case (snoc x evs)
  obtain now order e where x: "x = (now, order, e)"
    by (cases x)
  have "unat (configVersion (store_run evs New)) + 1 < 2 ^ 64"
    using configVersion_mono[of New evs] snoc.prems by (simp add: New_def)
  then have "configVersion (store_run evs New) < configVersion (store_run evs New) + 1"
    by (simp add: word_less_nat_alt unat_word_ariths)
  then show ?case
    using snoc versions_inv_step[OF _ config_inv_run] by (simp add: x)
qed (simp add: versions_inv_def New_def)

subsection \<open>Example runs\<close>

definition alice :: UserSpec where
  "alice = \<lparr>user_id = 0, user_name = ''alice''\<rparr>"

definition echo_runtime :: RuntimeSpec where
  "echo_runtime = \<lparr>rt_image = ''echo'', rt_command = [], rt_args = [], rt_env = [], rt_isolation = ISOLATION_KIND_FAKE,
     rt_resources = None, rt_execution_timeout = None, rt_protocol = ''http''\<rparr>"

definition echo :: FunctionSpec where
  "echo = \<lparr>fn_user_id = 1, fn_function_id = 0, fn_runtime = Some echo_runtime, fn_scale = None\<rparr>"

definition setup_run :: "(int \<times> u64 list \<times> store_event) list" where
  "setup_run = [(1, [], SvOp (OpCreateUser (Some alice))), (2, [], SvOp (OpCreateFunction (Some echo))),
     (3, [], SvOp (OpPutConfig (Some DefaultPlatformConfig) 0)), (4, [], SvWatchConfig)]"

definition churn_run :: "(int \<times> u64 list \<times> store_event) list" where
  "churn_run = [(5, [], SvOp (OpCreateFunction (Some echo))), (6, [], SvRecv 0),
     (7, [2, 1], SvOp (OpDeleteUser 1))]"

subsection \<open>Properties\<close>

text \<open>
  Property C16.  The in-memory store implements two finite maps with a configuration document: after
  every run of calls, subscriptions, deliveries and closes, its abstract state is the one the
  specification reaches, and the next call returns the result of the specification, whatever order
  the loops over Go maps take.
\<close>

theorem store_refines_maps:
  "abs_store (store_run evs New) = spec_run evs (abs_store New) \<and>
   map_prod id abs_store (store_exec now order op (store_run evs New)) = spec_exec op (spec_run evs (abs_store New))"
  using store_run_refines[OF store_inv_New, of evs]
    store_exec_refines[OF store_run_inv[OF store_inv_New], of now order op evs]
  by simp

text \<open>
  Property C19.  A function that the store returns belongs to a stored user, is stored under its own
  IDs and passes the validation of \<^verbatim>\<open>CreateFunction\<close>.
\<close>

theorem functions_have_owner:
  assumes "GetFunction u f (store_run evs New) = Inr fn"
  shows "(\<exists>user. GetUser u (store_run evs New) = Inr user) \<and> fn_user_id fn = u \<and> fn_function_id fn = f \<and>
         validateFunction (Some fn) = None"
proof -
  let ?s = "store_run evs New"
  have inv: "store_inv ?s"
    by (rule store_run_inv[OF store_inv_New])
  have fn: "map_of (user_funcs ?s u) f = Some fn"
    using assms by (simp add: GetFunction_def split: option.splits)
  then obtain m where "map_of (functions ?s) u = Some m"
    by (auto simp: user_funcs_def split: option.splits)
  then have "map_of (users ?s) u \<noteq> None"
    using inner_okD(3)[OF store_inv_functionsD[OF inv]] by blast
  then show ?thesis
    using function_okI[OF inv fn] by (auto simp: function_ok_def GetUser_def)
qed

theorem functions_have_owner_witness:
  "GetFunction 1 1 (store_run setup_run New) = Inr (echo\<lparr>fn_function_id := 1\<rparr>) \<and>
   (\<exists>user. GetUser 1 (store_run setup_run New) = Inr user)"
proof -
  have "GetFunction 1 1 (store_run setup_run New) = Inr (echo\<lparr>fn_function_id := 1\<rparr>)"
    by code_simp
  with functions_have_owner[OF this] show ?thesis
    by simp
qed

text \<open>
  Property C17.  A watcher of functions that has lost no event can replay the events it was sent on top
  of the functions at the time it subscribed, and obtains the functions the store has now.
\<close>

theorem watch_replays:
  assumes "WatchFunctions (store_run evs New) = (Inr w, s)"
    and "lost (chans (store_run evs' s) ! w) = 0"
  shows "foldl apply_event (abs_functions (store_run evs New)) (sent (chans (store_run evs' s) ! w)) =
         abs_functions (store_run evs' s)"
proof -
  have "watchers_ok s"
    using watchers_ok_step[OF watchers_ok_run, of 0 "[]" SvWatch evs] assms(1) by simp
  then have "replays (abs_functions (store_run evs New)) w (store_run evs' s)"
    by (rule replays_run[OF _ replays_start[OF assms(1)]])
  then show ?thesis
    using assms(2) by (simp add: replays_def)
qed

theorem watch_replays_witness:
  "\<exists>s. WatchFunctions (store_run setup_run New) = (Inr 0, s) \<and> length (sent (chans (store_run churn_run s) ! 0)) = 3 \<and>
     foldl apply_event (abs_functions (store_run setup_run New)) (sent (chans (store_run churn_run s) ! 0)) =
     abs_functions (store_run churn_run s)"
proof -
  let ?s = "snd (WatchFunctions (store_run setup_run New))"
  have "fst (WatchFunctions (store_run setup_run New)) = Inr 0"
    by code_simp
  then have w: "WatchFunctions (store_run setup_run New) = (Inr 0, ?s)"
    by (metis prod.collapse)
  have "lost (chans (store_run churn_run ?s) ! 0) = 0" "length (sent (chans (store_run churn_run ?s) ! 0)) = 3"
    by code_simp+
  then show ?thesis
    using w watch_replays[OF w, of churn_run] by blast
qed

text \<open>
  Property C18.  A configuration watch never loses the newest document.  As long as the store is open and the
  subscriber's context has not ended, the goroutine of a registered watch does not return; when it waits with no
  wakeup pending it has already sent the stored document; and wherever it is, seven steps of the subscriber and
  the goroutine put the stored document at the end of the channel.  A document may arrive between the wakeup and
  the reading of the mailbox.
\<close>

theorem config_never_lost:
  assumes "w \<in> set (configWatchers (store_run evs New))"
    and "\<forall>now order. (now, order, SvCancel w) \<notin> set evs"
    and "platformConfig (store_run evs New) = Some c"
  shows "pc (mailboxes (store_run evs New) ! w) \<noteq> Returned \<and>
         (pc (mailboxes (store_run evs New) ! w) = AwaitNotify \<and> \<not> token (mailboxes (store_run evs New) ! w) \<longrightarrow>
            (\<exists>cs. sent (out (mailboxes (store_run evs New) ! w)) = cs @ [c])) \<and>
         (\<exists>cs. sent (out (mailboxes (store_run (evs @ deliver_events w) New) ! w)) = cs @ [c])"
proof -
  let ?m = "mailboxes (store_run evs New) ! w"
  have "w \<notin> cancelled evs"
    using assms(2) by (auto simp: cancelled_def ends_watch_def split: store_event.splits)
  note known = newest_known[OF assms(1) this]
  have run: "pc ?m \<noteq> Returned" and newest: "hist ?m \<noteq> []" "last (hist ?m) = c"
    using known(2) assms(3) by (auto simp: mailbox_fresh_def split: if_splits)
  then have ends: "\<exists>cs. hist ?m = cs @ [c]"
    by (metis append_butlast_last_id)
  have "sent (out ?m) = hist ?m" if "pc ?m = AwaitNotify" "\<not> token ?m"
    using that known(2) by (auto simp: mailbox_fresh_def hist_def split: option.splits)
  moreover have "sent (out (mailboxes (store_run (evs @ deliver_events w) New) ! w)) = hist ?m"
    using run_deliver[OF known(3)] known(3) deliver_newest(1)[OF known(1,2)] by simp
  ultimately show ?thesis
    using ends run by auto
qed

text \<open>A document is stored between the wakeup and the reading of the mailbox.\<close>

definition race_run :: "(int \<times> u64 list \<times> store_event) list" where
  "race_run = setup_run @ [(5, [], SvWake 0), (6, [], SvOp (OpPutConfig (Some DefaultPlatformConfig) 1)), (7, [], SvTake 0)]"

theorem config_never_lost_witness:
  "token (mailboxes (store_run race_run New) ! 0) \<and> latest (mailboxes (store_run race_run New) ! 0) = None \<and>
   (\<exists>cs. sent (out (mailboxes (store_run (race_run @ deliver_events 0) New) ! 0)) = cs @ [DefaultPlatformConfig\<lparr>version := 2\<rparr>])"
proof -
  have "0 \<in> set (configWatchers (store_run race_run New))" "token (mailboxes (store_run race_run New) ! 0)"
    "latest (mailboxes (store_run race_run New) ! 0) = None"
    "platformConfig (store_run race_run New) = Some (DefaultPlatformConfig\<lparr>version := 2\<rparr>)"
    by code_simp+
  moreover have "\<forall>now order. (now, order, SvCancel 0) \<notin> set race_run"
    by (simp add: race_run_def setup_run_def)
  ultimately show ?thesis
    using config_never_lost[of 0 race_run "DefaultPlatformConfig\<lparr>version := 2\<rparr>"] by blast
qed

text \<open>
  Property C20.  The versions a configuration watch delivers ascend strictly, in every run of fewer
  than \<open>2 ^ 64\<close> steps: no document is delivered twice and none after a newer one.
\<close>

theorem config_versions_ascend:
  assumes "length evs < 2 ^ 64" and "w < length (mailboxes (store_run evs New))"
  shows "sorted_wrt (<) (map version (sent (out (mailboxes (store_run evs New) ! w))))"
proof -
  have "ascending_versions (configVersion (store_run evs New)) (mailboxes (store_run evs New) ! w)"
    using versions_inv_run[OF assms(1)] assms(2) by (simp add: versions_inv_def)
  then show ?thesis
    by (auto simp: ascending_versions_def hist_def sorted_wrt_append)
qed

theorem config_versions_ascend_witness:
  "length (setup_run @ deliver_events 0) < 2 ^ 64 \<and>
   sorted_wrt (<) (map version (sent (out (mailboxes (store_run (setup_run @ deliver_events 0) New) ! 0))))"
proof -
  have "length (setup_run @ deliver_events 0) < 2 ^ 64" "0 < length (mailboxes (store_run (setup_run @ deliver_events 0) New))"
    by (simp add: setup_run_def deliver_events_def) code_simp
  then show ?thesis
    using config_versions_ascend[of "setup_run @ deliver_events 0" 0] by blast
qed

text \<open>
  \<^verbatim>\<open>PutPlatformConfig\<close> is a compare-and-swap: of two writers that both expect the version
  \<open>v\<close>, the second is refused, whatever happens between the two calls, in runs of fewer than \<open>2 ^ 64\<close>
  steps.
\<close>

lemma put_compare_and_swap:
  assumes "length evs + length evs' + 1 < 2 ^ 64" and "v \<noteq> 0"
    and "PutPlatformConfig (Some c) v (store_run evs New) = (Inr stored, s)"
  shows "version stored = v + 1 \<and>
         fst (PutPlatformConfig (Some c') v (store_run evs' s)) \<in> {Inl (StatusError Aborted), Inl (StatusError FailedPrecondition)}"
proof -
  have put: "configVersion (store_run evs New) = v" "version stored = v + 1" "configVersion s = v + 1"
    using assms(2,3) by (auto simp: PutPlatformConfig_def Let_def frame_simps split: if_splits)
  have "unat v \<le> length evs"
    using configVersion_mono[of New evs] assms(1) put(1) by (simp add: New_def)
  then have "unat (v + 1) = unat v + 1" "unat (v + 1) + length evs' < 2 ^ 64"
    using assms(1) by (auto simp: unat_word_ariths)
  then have "unat v < unat (configVersion (store_run evs' s))"
    using configVersion_mono[of s evs'] put(3) by simp
  then have "v \<noteq> configVersion (store_run evs' s)"
    by auto
  then show ?thesis
    using assms(2) put(2) by (auto simp: PutPlatformConfig_def)
qed

text \<open>
  Property C24.  A user created with an explicit ID does not move the counter: once a client has taken
  the ID the counter points to, the next request without an ID fails with \<^const>\<open>AlreadyExists\<close>, although
  the caller asked for a fresh ID.
\<close>

theorem explicit_id_blocks_creation:
  assumes "user_id user = nextUserID s" "user_id user \<noteq> 0"
    and "CreateUser (Some user) s = (Inr stored, s')" and "user_name user' \<noteq> ''''" "user_id user' = 0"
  shows "fst (CreateUser (Some user') s') = Inl (StatusError AlreadyExists)"
  using assms by (auto simp: CreateUser_def map_of_update_iff Let_def split: if_splits)

theorem explicit_id_blocks_creation_witness:
  "\<exists>s'. CreateUser (Some (alice\<lparr>user_id := 1\<rparr>)) New = (Inr (alice\<lparr>user_id := 1\<rparr>), s') \<and>
        fst (CreateUser (Some alice) s') = Inl (StatusError AlreadyExists)"
proof -
  let ?s = "snd (CreateUser (Some (alice\<lparr>user_id := 1\<rparr>)) New)"
  have "fst (CreateUser (Some (alice\<lparr>user_id := 1\<rparr>)) New) = Inr (alice\<lparr>user_id := 1\<rparr>)"
    by code_simp
  then have c: "CreateUser (Some (alice\<lparr>user_id := 1\<rparr>)) New = (Inr (alice\<lparr>user_id := 1\<rparr>), ?s)"
    by (metis prod.collapse)
  have "fst (CreateUser (Some alice) ?s) = Inl (StatusError AlreadyExists)"
    by (rule explicit_id_blocks_creation[OF _ _ c]) (simp_all add: alice_def New_def)
  then show ?thesis
    using c by blast
qed

end
