(* ===== verification/Control_API.thy ===== *)
theory Control_API
  imports Memory_Watch Go_Lib
begin

text \<open>
  The public interface of the control plane: the HTTP handlers of \<^verbatim>\<open>pkg/controlplane/http_api.go\<close>, the
  gRPC methods of \<^verbatim>\<open>grpc_api.go\<close> and the seeding of the configuration in \<^verbatim>\<open>server.go\<close>.  They call the
  interface \<^verbatim>\<open>store.Backend\<close>, which is a record of operations on a state type; the contract that the
  handlers rely on is a locale, interpreted by the in-memory store.

  A request has a method, the segments of its path after unescaping, and a body, which is an error when
  it cannot be read.  The JSON decoder is a third-party package and a parameter (\<open>codec\<close>): \<^const>\<open>None\<close>
  is a text it refuses.  A response has a status and the message that is marshalled into its body.
\<close>

subsection \<open>The backend\<close>

record 's Backend =
  b_CreateUser :: "UserSpec option \<Rightarrow> 's \<Rightarrow> (go_error + UserSpec) \<times> 's"
  b_UpdateUser :: "UserSpec option \<Rightarrow> 's \<Rightarrow> (go_error + UserSpec) \<times> 's"
  b_DeleteUser :: "u64 \<Rightarrow> 's \<Rightarrow> (go_error + unit) \<times> 's"
  b_GetUser :: "u64 \<Rightarrow> 's \<Rightarrow> go_error + UserSpec"
  b_ListUsers :: "'s \<Rightarrow> go_error + UserSpec list"
  b_CreateFunction :: "FunctionSpec option \<Rightarrow> 's \<Rightarrow> (go_error + FunctionSpec) \<times> 's"
  b_UpdateFunction :: "FunctionSpec option \<Rightarrow> 's \<Rightarrow> (go_error + FunctionSpec) \<times> 's"
  b_DeleteFunction :: "u64 \<Rightarrow> u64 \<Rightarrow> 's \<Rightarrow> (go_error + unit) \<times> 's"
  b_GetFunction :: "u64 \<Rightarrow> u64 \<Rightarrow> 's \<Rightarrow> go_error + FunctionSpec"
  b_ListFunctions :: "u64 \<Rightarrow> 's \<Rightarrow> go_error + FunctionSpec list"
  b_GetPlatformConfig :: "'s \<Rightarrow> go_error + PlatformConfig"
  b_PutPlatformConfig :: "PlatformConfig option \<Rightarrow> u64 \<Rightarrow> 's \<Rightarrow> (go_error + PlatformConfig) \<times> 's"

text \<open>The in-memory store never fails to list.\<close>

definition memory_ListUsers :: "Store \<Rightarrow> go_error + UserSpec list" where
  "memory_ListUsers s = Inr (ListUsers s)"

definition memory_ListFunctions :: "u64 \<Rightarrow> Store \<Rightarrow> go_error + FunctionSpec list" where
  "memory_ListFunctions u s = Inr (ListFunctions u s)"

text \<open>The in-memory store as a backend; \<open>now\<close> is the clock and \<open>order\<close> the order of loops over maps.\<close>

definition memory_backend :: "int \<Rightarrow> u64 list \<Rightarrow> Store Backend" where
  "memory_backend now order =
     \<lparr>b_CreateUser = CreateUser, b_UpdateUser = UpdateUser, b_DeleteUser = DeleteUser now order,
      b_GetUser = GetUser, b_ListUsers = memory_ListUsers,
      b_CreateFunction = CreateFunction now, b_UpdateFunction = UpdateFunction now,
      b_DeleteFunction = DeleteFunction now, b_GetFunction = GetFunction,
      b_ListFunctions = memory_ListFunctions,
      b_GetPlatformConfig = GetPlatformConfig, b_PutPlatformConfig = PutPlatformConfig\<rparr>"

subsection \<open>Errors and responses\<close>

definition grpcCodeToHTTP :: "code \<Rightarrow> int" where
  "grpcCodeToHTTP c =
     (if c \<in> {InvalidArgument, FailedPrecondition, OutOfRange} then 400
      else if c = NotFound then 404
      else if c \<in> {AlreadyExists, Aborted} then 409
      else if c = PermissionDenied then 403
      else if c = Unauthenticated then 401
      else if c = Unimplemented then 501
      else 500)"

datatype payload =
    JUser UserSpec | JUsers "UserSpec list" | JFunction FunctionSpec | JFunctions "FunctionSpec list"
  | JConfig PlatformConfig | NoContent | Redirect | ErrorText

record http_response =
  status :: int
  payload :: payload

definition writeJSON :: "int \<Rightarrow> payload \<Rightarrow> http_response" where
  "writeJSON statusCode p = \<lparr>status = statusCode, payload = p\<rparr>"

fun writeHTTPError :: "go_error \<Rightarrow> http_response" where
  "writeHTTPError PlainError = \<lparr>status = 500, payload = ErrorText\<rparr>"
| "writeHTTPError (StatusError c) = \<lparr>status = grpcCodeToHTTP c, payload = ErrorText\<rparr>"

subsection \<open>Requests\<close>

record PutPlatformConfigRequest =
  put_config :: "PlatformConfig option"
  expected_version :: u64

record codec =
  unmarshal_user :: "string \<Rightarrow> UserSpec option"
  unmarshal_function :: "string \<Rightarrow> FunctionSpec option"
  unmarshal_put :: "string \<Rightarrow> PutPlatformConfigRequest option"

record http_request =
  req_method :: string
  req_path :: "string list"
  req_body :: "go_error + string"

definition decodeUser :: "codec \<Rightarrow> go_error + string \<Rightarrow> go_error + UserSpec" where
  "decodeUser cd body =
     (case body of Inl e \<Rightarrow> Inl e
      | Inr data \<Rightarrow> (case unmarshal_user cd data of None \<Rightarrow> Inl (StatusError InvalidArgument) | Some u \<Rightarrow> Inr u))"

definition decodeFunction :: "codec \<Rightarrow> go_error + string \<Rightarrow> go_error + FunctionSpec" where
  "decodeFunction cd body =
     (case body of Inl e \<Rightarrow> Inl e
      | Inr data \<Rightarrow> (case unmarshal_function cd data of None \<Rightarrow> Inl (StatusError InvalidArgument) | Some f \<Rightarrow> Inr f))"

definition decodePutPlatformConfig :: "codec \<Rightarrow> go_error + string \<Rightarrow> go_error + PutPlatformConfigRequest" where
  "decodePutPlatformConfig cd body =
     (case body of Inl e \<Rightarrow> Inl e
      | Inr data \<Rightarrow> (case unmarshal_put cd data of None \<Rightarrow> Inl (StatusError InvalidArgument) | Some r \<Rightarrow> Inr r))"

definition parsePathUint :: "string \<Rightarrow> go_error + u64" where
  "parsePathUint pathValue =
     (let value = TrimSpace pathValue in
      if value = '''' then Inl (StatusError InvalidArgument)
      else case ParseUint value of None \<Rightarrow> Inl (StatusError InvalidArgument) | Some n \<Rightarrow> Inr n)"

subsection \<open>Handlers\<close>

definition listUsers :: "'s Backend \<Rightarrow> 's \<Rightarrow> http_response \<times> 's" where
  "listUsers b s = (case b_ListUsers b s of Inl e \<Rightarrow> (writeHTTPError e, s) | Inr us \<Rightarrow> (writeJSON 200 (JUsers us), s))"

definition createUser :: "codec \<Rightarrow> 's Backend \<Rightarrow> go_error + string \<Rightarrow> 's \<Rightarrow> http_response \<times> 's" where
  "createUser cd b body s =
     (case decodeUser cd body of
        Inl e \<Rightarrow> (writeHTTPError e, s)
      | Inr user \<Rightarrow>
          (case b_CreateUser b (Some user) s of
             (Inl e, s') \<Rightarrow> (writeHTTPError e, s')
           | (Inr user', s') \<Rightarrow> (writeJSON 201 (JUser user'), s')))"

definition getUser :: "'s Backend \<Rightarrow> string \<Rightarrow> 's \<Rightarrow> http_response \<times> 's" where
  "getUser b uid s =
     (case parsePathUint uid of
        Inl e \<Rightarrow> (writeHTTPError e, s)
      | Inr userID \<Rightarrow>
          (case b_GetUser b userID s of Inl e \<Rightarrow> (writeHTTPError e, s) | Inr u \<Rightarrow> (writeJSON 200 (JUser u), s)))"

definition updateUser :: "codec \<Rightarrow> 's Backend \<Rightarrow> string \<Rightarrow> go_error + string \<Rightarrow> 's \<Rightarrow> http_response \<times> 's" where
  "updateUser cd b uid body s =
     (case parsePathUint uid of
        Inl e \<Rightarrow> (writeHTTPError e, s)
      | Inr userID \<Rightarrow>
          (case decodeUser cd body of
             Inl e \<Rightarrow> (writeHTTPError e, s)
           | Inr user \<Rightarrow>
               (case b_UpdateUser b (Some (user\<lparr>user_id := userID\<rparr>)) s of
                  (Inl e, s') \<Rightarrow> (writeHTTPError e, s')
                | (Inr user', s') \<Rightarrow> (writeJSON 200 (JUser user'), s'))))"

definition deleteUser :: "'s Backend \<Rightarrow> string \<Rightarrow> 's \<Rightarrow> http_response \<times> 's" where
  "deleteUser b uid s =
     (case parsePathUint uid of
        Inl e \<Rightarrow> (writeHTTPError e, s)
      | Inr userID \<Rightarrow>
          (case b_DeleteUser b userID s of
             (Inl e, s') \<Rightarrow> (writeHTTPError e, s')
           | (Inr _, s') \<Rightarrow> (writeJSON 204 NoContent, s')))"

definition listFunctions :: "'s Backend \<Rightarrow> string \<Rightarrow> 's \<Rightarrow> http_response \<times> 's" where
  "listFunctions b uid s =
     (case parsePathUint uid of
        Inl e \<Rightarrow> (writeHTTPError e, s)
      | Inr userID \<Rightarrow>
          (case b_ListFunctions b userID s of
             Inl e \<Rightarrow> (writeHTTPError e, s) | Inr fs \<Rightarrow> (writeJSON 200 (JFunctions fs), s)))"

definition createFunction :: "codec \<Rightarrow> 's Backend \<Rightarrow> string \<Rightarrow> go_error + string \<Rightarrow> 's \<Rightarrow> http_response \<times> 's" where
  "createFunction cd b uid body s =
     (case parsePathUint uid of
        Inl e \<Rightarrow> (writeHTTPError e, s)
      | Inr userID \<Rightarrow>
          (case decodeFunction cd body of
             Inl e \<Rightarrow> (writeHTTPError e, s)
           | Inr function \<Rightarrow>
               (case b_CreateFunction b (Some (function\<lparr>fn_user_id := userID\<rparr>)) s of
                  (Inl e, s') \<Rightarrow> (writeHTTPError e, s')
                | (Inr function', s') \<Rightarrow> (writeJSON 201 (JFunction function'), s'))))"

definition getFunction :: "'s Backend \<Rightarrow> string \<Rightarrow> string \<Rightarrow> 's \<Rightarrow> http_response \<times> 's" where
  "getFunction b uid fid s =
     (case parsePathUint uid of
        Inl e \<Rightarrow> (writeHTTPError e, s)
      | Inr userID \<Rightarrow>
          (case parsePathUint fid of
             Inl e \<Rightarrow> (writeHTTPError e, s)
           | Inr functionID \<Rightarrow>
               (case b_GetFunction b userID functionID s of
                  Inl e \<Rightarrow> (writeHTTPError e, s) | Inr f \<Rightarrow> (writeJSON 200 (JFunction f), s))))"

definition updateFunction ::
  "codec \<Rightarrow> 's Backend \<Rightarrow> string \<Rightarrow> string \<Rightarrow> go_error + string \<Rightarrow> 's \<Rightarrow> http_response \<times> 's" where
  "updateFunction cd b uid fid body s =
     (case parsePathUint uid of
        Inl e \<Rightarrow> (writeHTTPError e, s)
      | Inr userID \<Rightarrow>
          (case parsePathUint fid of
             Inl e \<Rightarrow> (writeHTTPError e, s)
           | Inr functionID \<Rightarrow>
               (case decodeFunction cd body of
                  Inl e \<Rightarrow> (writeHTTPError e, s)
                | Inr function \<Rightarrow>
                    (case b_UpdateFunction b (Some (function\<lparr>fn_user_id := userID, fn_function_id := functionID\<rparr>)) s of
                       (Inl e, s') \<Rightarrow> (writeHTTPError e, s')
                     | (Inr function', s') \<Rightarrow> (writeJSON 200 (JFunction function'), s')))))"

definition deleteFunction :: "'s Backend \<Rightarrow> string \<Rightarrow> string \<Rightarrow> 's \<Rightarrow> http_response \<times> 's" where
  "deleteFunction b uid fid s =
     (case parsePathUint uid of
        Inl e \<Rightarrow> (writeHTTPError e, s)
      | Inr userID \<Rightarrow>
          (case parsePathUint fid of
             Inl e \<Rightarrow> (writeHTTPError e, s)
           | Inr functionID \<Rightarrow>
               (case b_DeleteFunction b userID functionID s of
                  (Inl e, s') \<Rightarrow> (writeHTTPError e, s')
                | (Inr _, s') \<Rightarrow> (writeJSON 204 NoContent, s'))))"

definition getPlatformConfig :: "'s Backend \<Rightarrow> 's \<Rightarrow> http_response \<times> 's" where
  "getPlatformConfig b s =
     (case b_GetPlatformConfig b s of Inl e \<Rightarrow> (writeHTTPError e, s) | Inr c \<Rightarrow> (writeJSON 200 (JConfig c), s))"

definition putPlatformConfig :: "codec \<Rightarrow> 's Backend \<Rightarrow> go_error + string \<Rightarrow> 's \<Rightarrow> http_response \<times> 's" where
  "putPlatformConfig cd b body s =
     (case decodePutPlatformConfig cd body of
        Inl e \<Rightarrow> (writeHTTPError e, s)
      | Inr req \<Rightarrow>
          (case ValidatePlatformConfig (put_config req) of
             Some _ \<Rightarrow> (writeHTTPError (StatusError InvalidArgument), s)
           | None \<Rightarrow>
               (case b_PutPlatformConfig b (put_config req) (expected_version req) s of
                  (Inl e, s') \<Rightarrow> (writeHTTPError e, s')
                | (Inr stored, s') \<Rightarrow> (writeJSON 200 (JConfig stored), s'))))"

text \<open>
  The paths of \<^verbatim>\<open>http.ServeMux\<close>.  \<open>req_path\<close> holds the segments of the escaped path after its leading
  slash, so a trailing slash is an empty last segment and the root is one empty segment.
  \<open>path_Clean\<close> drops empty and dot segments and resolves dot-dot segments, \<open>cleanPath\<close> puts a trailing slash
  back, and each segment is unescaped on its own once the path is split.
\<close>

fun path_Clean :: "string list \<Rightarrow> string list \<Rightarrow> string list" where
  "path_Clean acc [] = acc"
| "path_Clean acc (seg # segs) =
     (if seg = '''' \<or> seg = ''.'' then path_Clean acc segs
      else if seg = ''..'' then path_Clean (butlast acc) segs
      else path_Clean (acc @ [seg]) segs)"

definition cleanPath :: "string list \<Rightarrow> string list" where
  "cleanPath p =
     (let np = path_Clean [] p in
      if np = [] then [''''] else if last p = '''' then np @ [''''] else np)"

definition unhex :: "char \<Rightarrow> nat option" where
  "unhex ch =
     (let n = of_char ch :: nat in
      if 48 \<le> n \<and> n \<le> 57 then Some (n - 48)
      else if 97 \<le> n \<and> n \<le> 102 then Some (n - 97 + 10)
      else if 65 \<le> n \<and> n \<le> 70 then Some (n - 65 + 10)
      else None)"

fun unescape :: "string \<Rightarrow> string option" where
  "unescape [] = Some []"
| "unescape (ch # rest) =
     (if ch \<noteq> CHR 0x25 then map_option ((#) ch) (unescape rest)
      else case rest of
             hi # lo # rest' \<Rightarrow>
               (case (unhex hi, unhex lo) of
                  (Some m, Some n) \<Rightarrow> map_option ((#) (char_of (16 * m + n))) (unescape rest')
                | _ \<Rightarrow> None)
           | _ \<Rightarrow> None)"

definition pathUnescape :: "string \<Rightarrow> string" where
  "pathUnescape seg = (case unescape seg of None \<Rightarrow> seg | Some u \<Rightarrow> u)"

text \<open>
  The routes.  A GET pattern also serves HEAD, a path with patterns for other methods only is answered
  with 405 and any other path with 404.  A wildcard matches one segment other than a slash, which is
  what a trailing slash and an escaped one read as.
\<close>

definition is_get :: "http_request \<Rightarrow> bool" where
  "is_get r \<longleftrightarrow> req_method r = ''GET'' \<or> req_method r = ''HEAD''"

definition serveRoute :: "codec \<Rightarrow> 's Backend \<Rightarrow> http_request \<Rightarrow> 's \<Rightarrow> http_response \<times> 's" where
  "serveRoute cd b r s =
     (let m = req_method r;
          segs = map pathUnescape (req_path r);
          notFound = (\<lparr>status = 404, payload = ErrorText\<rparr>, s);
          notAllowed = (\<lparr>status = 405, payload = ErrorText\<rparr>, s)
      in if take 2 segs = [''v1'', ''users''] then
           (case drop 2 segs of
              [] \<Rightarrow>
                if is_get r then listUsers b s
                else if m = ''POST'' then createUser cd b (req_body r) s else notAllowed
            | [uid] \<Rightarrow>
                if uid = '''' \<or> uid = ''/'' then notFound
                else if is_get r then getUser b uid s
                else if m = ''PUT'' then updateUser cd b uid (req_body r) s
                else if m = ''DELETE'' then deleteUser b uid s else notAllowed
            | [uid, fns] \<Rightarrow>
                if uid = ''/'' \<or> fns \<noteq> ''functions'' then notFound
                else if is_get r then listFunctions b uid s
                else if m = ''POST'' then createFunction cd b uid (req_body r) s else notAllowed
            | [uid, fns, fid] \<Rightarrow>
                if uid = ''/'' \<or> fns \<noteq> ''functions'' \<or> fid = '''' \<or> fid = ''/'' then notFound
                else if is_get r then getFunction b uid fid s
                else if m = ''PUT'' then updateFunction cd b uid fid (req_body r) s
                else if m = ''DELETE'' then deleteFunction b uid fid s else notAllowed
            | _ \<Rightarrow> notFound)
         else if segs = [''v1'', ''platform'', ''config''] then
           (if is_get r then getPlatformConfig b s
            else if m = ''PUT'' then putPlatformConfig cd b (req_body r) s else notAllowed)
         else notFound)"

text \<open>
  A request whose path is not clean is redirected to the clean path before any handler runs, with 307
  as of the Go release the module names; only CONNECT requests are matched as they are.
\<close>

definition newHTTPAPI :: "codec \<Rightarrow> 's Backend \<Rightarrow> http_request \<Rightarrow> 's \<Rightarrow> http_response \<times> 's" where
  "newHTTPAPI cd b r s =
     (if req_method r \<noteq> ''CONNECT'' \<and> cleanPath (req_path r) \<noteq> req_path r
      then (\<lparr>status = 307, payload = Redirect\<rparr>, s)
      else serveRoute cd b r s)"

subsection \<open>The gRPC methods\<close>

text \<open>A unary method returns the error of the backend or a response; the response of a write is empty.\<close>

definition grpcStatus :: "go_error \<Rightarrow> go_error" where
  "grpcStatus e = (case e of StatusError c \<Rightarrow> StatusError c | PlainError \<Rightarrow> StatusError Internal)"

definition dropped :: "(go_error + 'a) \<times> 's \<Rightarrow> (go_error + unit) \<times> 's" where
  "dropped r = (case r of (Inl e, s) \<Rightarrow> (Inl e, s) | (Inr _, s) \<Rightarrow> (Inr (), s))"

definition grpc_CreateFunction :: "'s Backend \<Rightarrow> FunctionSpec option \<Rightarrow> 's \<Rightarrow> (go_error + unit) \<times> 's" where
  "grpc_CreateFunction b function s = dropped (b_CreateFunction b function s)"

definition grpc_UpdateFunction :: "'s Backend \<Rightarrow> FunctionSpec option \<Rightarrow> 's \<Rightarrow> (go_error + unit) \<times> 's" where
  "grpc_UpdateFunction b function s = dropped (b_UpdateFunction b function s)"

definition grpc_DeleteFunction :: "'s Backend \<Rightarrow> u64 \<Rightarrow> u64 \<Rightarrow> 's \<Rightarrow> (go_error + unit) \<times> 's" where
  "grpc_DeleteFunction b userID functionID s = dropped (b_DeleteFunction b userID functionID s)"

definition grpc_GetFunction :: "'s Backend \<Rightarrow> u64 \<Rightarrow> u64 \<Rightarrow> 's \<Rightarrow> go_error + FunctionSpec" where
  "grpc_GetFunction b userID functionID s = b_GetFunction b userID functionID s"

definition grpc_ListFunctions :: "'s Backend \<Rightarrow> u64 \<Rightarrow> 's \<Rightarrow> go_error + FunctionSpec list" where
  "grpc_ListFunctions b userID s = b_ListFunctions b userID s"

definition grpc_CreateUser :: "'s Backend \<Rightarrow> UserSpec option \<Rightarrow> 's \<Rightarrow> (go_error + unit) \<times> 's" where
  "grpc_CreateUser b user s = dropped (b_CreateUser b user s)"

definition grpc_UpdateUser :: "'s Backend \<Rightarrow> UserSpec option \<Rightarrow> 's \<Rightarrow> (go_error + unit) \<times> 's" where
  "grpc_UpdateUser b user s = dropped (b_UpdateUser b user s)"

definition grpc_DeleteUser :: "'s Backend \<Rightarrow> u64 \<Rightarrow> 's \<Rightarrow> (go_error + unit) \<times> 's" where
  "grpc_DeleteUser b userID s = dropped (b_DeleteUser b userID s)"

definition grpc_GetUser :: "'s Backend \<Rightarrow> u64 \<Rightarrow> 's \<Rightarrow> go_error + UserSpec" where
  "grpc_GetUser b userID s = b_GetUser b userID s"

definition grpc_ListUsers :: "'s Backend \<Rightarrow> 's \<Rightarrow> go_error + UserSpec list" where
  "grpc_ListUsers b s = b_ListUsers b s"

definition grpc_GetPlatformConfig :: "'s Backend \<Rightarrow> 's \<Rightarrow> go_error + PlatformConfig" where
  "grpc_GetPlatformConfig b s = (case b_GetPlatformConfig b s of Inl e \<Rightarrow> Inl (grpcStatus e) | Inr c \<Rightarrow> Inr c)"

definition grpc_PutPlatformConfig ::
  "'s Backend \<Rightarrow> PlatformConfig option \<Rightarrow> u64 \<Rightarrow> 's \<Rightarrow> (go_error + PlatformConfig) \<times> 's" where
  "grpc_PutPlatformConfig b config expected s =
     (case ValidatePlatformConfig config of
        Some _ \<Rightarrow> (Inl (StatusError InvalidArgument), s)
      | None \<Rightarrow>
          (case b_PutPlatformConfig b config expected s of
             (Inl e, s') \<Rightarrow> (Inl (grpcStatus e), s') | (Inr stored, s') \<Rightarrow> (Inr stored, s')))"

text \<open>
  The loop of the streaming methods.  An iteration receives from one of the three channels; \<open>StreamItem\<close>
  carries an element and the error of sending it to the client.  The result is the list of elements
  sent and, once the method has returned, its error.
\<close>

datatype 'a stream_input = StreamDone | StreamErr "go_error option" | StreamItem 'a "go_error option" | StreamEnd

fun stream_loop :: "'a stream_input list \<Rightarrow> 'a list \<times> go_error option option" where
  "stream_loop [] = ([], None)"
| "stream_loop (StreamDone # is) = ([], Some (Some PlainError))"
| "stream_loop (StreamErr (Some e) # is) = ([], Some (Some e))"
| "stream_loop (StreamErr None # is) = stream_loop is"
| "stream_loop (StreamEnd # is) = ([], Some None)"
| "stream_loop (StreamItem x (Some e) # is) = ([], Some (Some e))"
| "stream_loop (StreamItem x None # is) = map_prod ((#) x) id (stream_loop is)"

subsection \<open>Seeding\<close>

definition seedPlatformConfig :: "'s Backend \<Rightarrow> 's \<Rightarrow> go_error option \<times> 's" where
  "seedPlatformConfig b s =
     (case b_GetPlatformConfig b s of
        Inr _ \<Rightarrow> (None, s)
      | Inl e \<Rightarrow>
          if e \<noteq> StatusError NotFound then (Some e, s)
          else (case b_PutPlatformConfig b (Some DefaultPlatformConfig) 0 s of
                  (Inl e', s') \<Rightarrow> (Some e', s') | (Inr _, s') \<Rightarrow> (None, s')))"

subsection \<open>Calls of the control plane\<close>

datatype grpc_request =
    GCreateFunction "FunctionSpec option" | GUpdateFunction "FunctionSpec option" | GDeleteFunction u64 u64
  | GCreateUser "UserSpec option" | GUpdateUser "UserSpec option" | GDeleteUser u64
  | GPutConfig "PlatformConfig option" u64

fun grpc_call :: "'s Backend \<Rightarrow> grpc_request \<Rightarrow> 's \<Rightarrow> 's" where
  "grpc_call b (GCreateFunction f) s = snd (grpc_CreateFunction b f s)"
| "grpc_call b (GUpdateFunction f) s = snd (grpc_UpdateFunction b f s)"
| "grpc_call b (GDeleteFunction u f) s = snd (grpc_DeleteFunction b u f s)"
| "grpc_call b (GCreateUser u) s = snd (grpc_CreateUser b u s)"
| "grpc_call b (GUpdateUser u) s = snd (grpc_UpdateUser b u s)"
| "grpc_call b (GDeleteUser u) s = snd (grpc_DeleteUser b u s)"
| "grpc_call b (GPutConfig c v) s = snd (grpc_PutPlatformConfig b c v s)"

datatype api_call = ApiHTTP http_request | ApiGRPC grpc_request | ApiSeed

fun api_step :: "codec \<Rightarrow> 's Backend \<Rightarrow> api_call \<Rightarrow> 's \<Rightarrow> 's" where
  "api_step cd b (ApiHTTP r) s = snd (newHTTPAPI cd b r s)"
| "api_step cd b (ApiGRPC g) s = grpc_call b g s"
| "api_step cd b ApiSeed s = snd (seedPlatformConfig b s)"

text \<open>A run of the control plane over the in-memory store: each call has its own clock and loop order.\<close>

definition api_run :: "codec \<Rightarrow> (int \<times> u64 list \<times> api_call) list \<Rightarrow> Store \<Rightarrow> Store" where
  "api_run cd calls s = fold (\<lambda>(now, order, c). api_step cd (memory_backend now order) c) calls s"

subsection \<open>The contract of a backend\<close>

lemma config_ok_version [simp]: "config_ok (c\<lparr>version := n\<rparr>) = config_ok c"
  by (simp add: config_ok_def)

lemma parsePathUint_dec_nat [simp]: "parsePathUint (dec_nat (unat x)) = Inr x"
  using dec_nat_digits[of "unat x"] by (simp add: parsePathUint_def)

text \<open>
  What the handlers rely on: reads return what the last successful write returned, a deleted entry is
  not found, writes of users and functions keep the configuration, and a successful write of the
  configuration stores the given document under a version of its own.
\<close>

lemma error_status: "status (writeHTTPError e) \<ge> 400" "payload (writeHTTPError e) = ErrorText"
  by (cases e; simp add: grpcCodeToHTTP_def)+

definition config_valid :: "'s Backend \<Rightarrow> 's \<Rightarrow> bool" where
  "config_valid b s \<longleftrightarrow> (\<forall>c. b_GetPlatformConfig b s = Inr c \<longrightarrow> config_ok c)"

locale backend_contract =
  fixes b :: "'s Backend"
  assumes get_created_user: "b_CreateUser b req s = (Inr user, s') \<Longrightarrow> b_GetUser b (user_id user) s' = Inr user"
    and get_updated_user: "b_UpdateUser b req s = (Inr user, s') \<Longrightarrow> b_GetUser b (user_id user) s' = Inr user"
    and get_deleted_user: "b_DeleteUser b u s = (Inr x, s') \<Longrightarrow> b_GetUser b u s' = Inl (StatusError NotFound)"
    and get_created_function: "b_CreateFunction b freq s = (Inr fn, s') \<Longrightarrow>
      b_GetFunction b (fn_user_id fn) (fn_function_id fn) s' = Inr fn"
    and get_updated_function: "b_UpdateFunction b freq s = (Inr fn, s') \<Longrightarrow>
      b_GetFunction b (fn_user_id fn) (fn_function_id fn) s' = Inr fn"
    and get_deleted_function: "b_DeleteFunction b u f s = (Inr x, s') \<Longrightarrow>
      b_GetFunction b u f s' = Inl (StatusError NotFound)"
    and created_for: "b_CreateFunction b (Some fn0) s = (Inr fn, s') \<Longrightarrow> fn_user_id fn = fn_user_id fn0"
    and updated_for: "b_UpdateFunction b (Some fn0) s = (Inr fn, s') \<Longrightarrow> fn = fn0"
    and updated_user: "b_UpdateUser b (Some user0) s = (Inr user, s') \<Longrightarrow> user = user0"
    and put_config: "b_PutPlatformConfig b (Some c) v s = (Inr stored, s') \<Longrightarrow>
      (\<exists>n. stored = c\<lparr>version := n\<rparr>) \<and> b_GetPlatformConfig b s' = Inr stored"
    and put_refused: "b_PutPlatformConfig b creq v s = (Inl e, s') \<Longrightarrow> b_GetPlatformConfig b s' = b_GetPlatformConfig b s"
    and config_kept: "b_GetPlatformConfig b (snd (b_CreateUser b req s)) = b_GetPlatformConfig b s"
      "b_GetPlatformConfig b (snd (b_UpdateUser b req s)) = b_GetPlatformConfig b s"
      "b_GetPlatformConfig b (snd (b_DeleteUser b u s)) = b_GetPlatformConfig b s"
      "b_GetPlatformConfig b (snd (b_CreateFunction b freq s)) = b_GetPlatformConfig b s"
      "b_GetPlatformConfig b (snd (b_UpdateFunction b freq s)) = b_GetPlatformConfig b s"
      "b_GetPlatformConfig b (snd (b_DeleteFunction b u f s)) = b_GetPlatformConfig b s"
begin

lemma post_user_get:
  assumes "createUser cd b body s = (r, s')" "status r = 201"
  shows "\<exists>user. payload r = JUser user \<and> getUser b (dec_nat (unat (user_id user))) s' = (writeJSON 200 (JUser user), s')"
proof -
  have no_error: "status (writeHTTPError e) \<noteq> 201" for e
    using error_status(1)[of e] by simp
  obtain user0 where "decodeUser cd body = Inr user0"
    using assms no_error by (auto simp: createUser_def split: sum.splits)
  then obtain user where user: "b_CreateUser b (Some user0) s = (Inr user, s')" "r = writeJSON 201 (JUser user)"
    using assms no_error by (auto simp: createUser_def split: sum.splits prod.splits)
  then show ?thesis
    using get_created_user[OF user(1)] by (simp add: writeJSON_def getUser_def)
qed

lemma post_function_get:
  assumes "createFunction cd b uid body s = (r, s')" "status r = 201" "parsePathUint uid = Inr u"
  shows "\<exists>fn. payload r = JFunction fn \<and> fn_user_id fn = u \<and>
           getFunction b uid (dec_nat (unat (fn_function_id fn))) s' = (writeJSON 200 (JFunction fn), s')"
proof -
  have no_error: "status (writeHTTPError e) \<noteq> 201" for e
    using error_status(1)[of e] by simp
  obtain fn0 where "decodeFunction cd body = Inr fn0"
    using assms no_error by (auto simp: createFunction_def split: sum.splits)
  then obtain fn where fn: "b_CreateFunction b (Some (fn0\<lparr>fn_user_id := u\<rparr>)) s = (Inr fn, s')"
      "r = writeJSON 201 (JFunction fn)"
    using assms no_error by (auto simp: createFunction_def split: sum.splits prod.splits)
  then show ?thesis
    using created_for[OF fn(1)] get_created_function[OF fn(1)] assms(3) by (simp add: writeJSON_def getFunction_def)
qed

lemma put_function_get:
  assumes "updateFunction cd b uid fid body s = (r, s')" "status r = 200"
  shows "\<exists>fn. payload r = JFunction fn \<and> getFunction b uid fid s' = (writeJSON 200 (JFunction fn), s')"
proof -
  have no_error: "status (writeHTTPError e) \<noteq> 200" for e
    using error_status(1)[of e] by simp
  obtain u f fn0 where parsed: "parsePathUint uid = Inr u" "parsePathUint fid = Inr f" "decodeFunction cd body = Inr fn0"
    using assms no_error by (auto simp: updateFunction_def split: sum.splits)
  then obtain fn where fn: "b_UpdateFunction b (Some (fn0\<lparr>fn_user_id := u, fn_function_id := f\<rparr>)) s = (Inr fn, s')"
      "r = writeJSON 200 (JFunction fn)"
    using assms no_error by (auto simp: updateFunction_def split: sum.splits prod.splits)
  then show ?thesis
    using updated_for[OF fn(1)] get_updated_function[OF fn(1)] parsed by (simp add: writeJSON_def getFunction_def)
qed

lemma delete_function_get:
  assumes "deleteFunction b uid fid s = (r, s')" "status r = 204"
  shows "status (fst (getFunction b uid fid s')) = 404"
proof -
  have no_error: "status (writeHTTPError e) \<noteq> 204" for e
    using error_status(1)[of e] by simp
  obtain u f where parsed: "parsePathUint uid = Inr u" "parsePathUint fid = Inr f"
    using assms no_error by (auto simp: deleteFunction_def split: sum.splits)
  then obtain x where "b_DeleteFunction b u f s = (Inr x, s')"
    using assms no_error by (auto simp: deleteFunction_def split: sum.splits prod.splits)
  then show ?thesis
    using get_deleted_function parsed by (simp add: getFunction_def grpcCodeToHTTP_def)
qed

lemma config_valid_kept:
  "b_GetPlatformConfig b s' = b_GetPlatformConfig b s \<Longrightarrow> config_valid b s \<Longrightarrow> config_valid b s'"
  by (simp add: config_valid_def)

lemma config_valid_put:
  assumes "config_valid b s" "ValidatePlatformConfig c = None" "b_PutPlatformConfig b c v s = (x, s')"
  shows "config_valid b s'"
proof (cases x)
  case (Inl e)
  then show ?thesis
    using assms put_refused by (auto simp: config_valid_def)
next
  case (Inr stored)
  obtain cfg where c: "c = Some cfg" "config_ok cfg"
    using assms(2) by (auto simp: ValidatePlatformConfig_None)
  obtain n where "stored = cfg\<lparr>version := n\<rparr>" "b_GetPlatformConfig b s' = Inr stored"
    using put_config assms(3) Inr c(1) by blast
  then show ?thesis
    using c(2) by (simp add: config_valid_def)
qed

lemma config_kept_fst:
  "b_CreateUser b req s = (x1, s') \<Longrightarrow> b_GetPlatformConfig b s' = b_GetPlatformConfig b s"
  "b_UpdateUser b req s = (x1, s') \<Longrightarrow> b_GetPlatformConfig b s' = b_GetPlatformConfig b s"
  "b_DeleteUser b u s = (x2, s') \<Longrightarrow> b_GetPlatformConfig b s' = b_GetPlatformConfig b s"
  "b_CreateFunction b freq s = (x3, s') \<Longrightarrow> b_GetPlatformConfig b s' = b_GetPlatformConfig b s"
  "b_UpdateFunction b freq s = (x3, s') \<Longrightarrow> b_GetPlatformConfig b s' = b_GetPlatformConfig b s"
  "b_DeleteFunction b u f s = (x2, s') \<Longrightarrow> b_GetPlatformConfig b s' = b_GetPlatformConfig b s"
  using config_kept by (metis snd_conv)+

lemma user_handlers_keep_config:
  "b_GetPlatformConfig b (snd (createUser cd b body s)) = b_GetPlatformConfig b s"
  "b_GetPlatformConfig b (snd (updateUser cd b uid body s)) = b_GetPlatformConfig b s"
  "b_GetPlatformConfig b (snd (deleteUser b uid s)) = b_GetPlatformConfig b s"
  by (auto simp: createUser_def updateUser_def deleteUser_def split: sum.splits prod.splits dest: config_kept_fst)

lemma function_handlers_keep_config:
  "b_GetPlatformConfig b (snd (createFunction cd b uid body s)) = b_GetPlatformConfig b s"
  "b_GetPlatformConfig b (snd (updateFunction cd b uid fid body s)) = b_GetPlatformConfig b s"
  "b_GetPlatformConfig b (snd (deleteFunction b uid fid s)) = b_GetPlatformConfig b s"
  by (auto simp: createFunction_def updateFunction_def deleteFunction_def split: sum.splits prod.splits dest: config_kept_fst)

lemma readers_keep_state:
  "snd (listUsers b s) = s" "snd (getUser b uid s) = s" "snd (listFunctions b uid s) = s"
  "snd (getFunction b uid fid s) = s" "snd (getPlatformConfig b s) = s"
  by (auto simp: listUsers_def getUser_def listFunctions_def getFunction_def getPlatformConfig_def split: sum.splits)

lemma put_handler_valid: "config_valid b s \<Longrightarrow> config_valid b (snd (putPlatformConfig cd b body s))"
  using config_valid_put by (auto simp: putPlatformConfig_def split: sum.splits option.splits prod.splits)

lemma http_config_valid: "config_valid b s \<Longrightarrow> config_valid b (snd (newHTTPAPI cd b r s))"
  by (auto simp: newHTTPAPI_def serveRoute_def Let_def readers_keep_state put_handler_valid
      intro: config_valid_kept user_handlers_keep_config function_handlers_keep_config split: list.splits)

lemma grpc_config_valid: "config_valid b s \<Longrightarrow> config_valid b (grpc_call b g s)"
proof (cases g)
  case (GPutConfig c v)
  assume "config_valid b s" then show ?thesis
    using config_valid_put by (auto simp: GPutConfig grpc_PutPlatformConfig_def split: option.splits sum.splits prod.splits)
qed (auto simp: grpc_CreateFunction_def grpc_UpdateFunction_def grpc_DeleteFunction_def grpc_CreateUser_def
    grpc_UpdateUser_def grpc_DeleteUser_def dropped_def split: sum.splits prod.splits
    intro: config_valid_kept dest: config_kept_fst)

lemma seed_config_valid: "config_valid b s \<Longrightarrow> config_valid b (snd (seedPlatformConfig b s))"
  using config_valid_put[of s "Some DefaultPlatformConfig" 0] DefaultPlatformConfig_ok
  by (auto simp: seedPlatformConfig_def ValidatePlatformConfig_None split: sum.splits prod.splits)

lemma api_config_valid: "config_valid b s \<Longrightarrow> config_valid b (api_step cd b c s)"
  by (cases c) (simp_all add: http_config_valid grpc_config_valid seed_config_valid)

end

subsection \<open>The in-memory store keeps the contract\<close>

lemma GetFunction_abs: "GetFunction u f s = found (m_functions (abs_store s) (u, f))"
  by (simp add: GetFunction_def found_def abs_lookup split: option.splits)

lemma GetUser_abs: "GetUser u s = found (m_users (abs_store s) u)"
  by (simp add: GetUser_def found_def abs_lookup split: option.splits)

lemma GetPlatformConfig_abs: "GetPlatformConfig s = found (m_config (abs_store s))"
  by (simp add: GetPlatformConfig_def found_def abs_store_def split: option.splits)

lemma refined: "map_prod id abs_store (f s) = g (abs_store s) \<Longrightarrow> f s = (x, s') \<Longrightarrow> g (abs_store s) = (x, abs_store s')"
  by auto



interpretation mem: backend_contract "memory_backend now order" for now order
proof unfold_locales
  fix req s user s' assume "b_CreateUser (memory_backend now order) req s = (Inr user, s')"
  then have "spec_create_user req (abs_store s) = (Inr user, abs_store s')"
    by (intro refined[where f = "CreateUser req"] CreateUser_refines) (simp add: memory_backend_def)
  then show "b_GetUser (memory_backend now order) (user_id user) s' = Inr user"
    by (auto simp: memory_backend_def GetUser_abs spec_create_user_def found_def Let_def split: option.splits if_splits
        dest!: sym[of _ "abs_store s'"])
next
  fix req s user s' assume "b_UpdateUser (memory_backend now order) req s = (Inr user, s')"
  then have "spec_update_user req (abs_store s) = (Inr user, abs_store s')"
    by (intro refined[where f = "UpdateUser req"] UpdateUser_refines) (simp add: memory_backend_def)
  then show "b_GetUser (memory_backend now order) (user_id user) s' = Inr user"
    by (auto simp: memory_backend_def GetUser_abs spec_update_user_def found_def split: option.splits if_splits
        dest!: sym[of _ "abs_store s'"])
next
  fix u s x s' assume "b_DeleteUser (memory_backend now order) u s = (Inr x, s')"
  then have "spec_delete_user u (abs_store s) = (Inr x, abs_store s')"
    by (intro refined[where f = "DeleteUser now order u"] DeleteUser_refines) (simp add: memory_backend_def)
  then show "b_GetUser (memory_backend now order) u s' = Inl (StatusError NotFound)"
    by (auto simp: memory_backend_def GetUser_abs spec_delete_user_def found_def split: if_splits
        dest!: sym[of _ "abs_store s'"])
next
  fix freq s fn s' assume "b_CreateFunction (memory_backend now order) freq s = (Inr fn, s')"
  then have "spec_create_function freq (abs_store s) = (Inr fn, abs_store s')"
    by (intro refined[where f = "CreateFunction now freq"] CreateFunction_refines) (simp add: memory_backend_def)
  then show "b_GetFunction (memory_backend now order) (fn_user_id fn) (fn_function_id fn) s' = Inr fn"
    by (auto simp: memory_backend_def GetFunction_abs spec_create_function_def found_def Let_def split: option.splits if_splits
        dest!: sym[of _ "abs_store s'"])
next
  fix freq s fn s' assume "b_UpdateFunction (memory_backend now order) freq s = (Inr fn, s')"
  then have "spec_update_function freq (abs_store s) = (Inr fn, abs_store s')"
    by (intro refined[where f = "UpdateFunction now freq"] UpdateFunction_refines) (simp add: memory_backend_def)
  then show "b_GetFunction (memory_backend now order) (fn_user_id fn) (fn_function_id fn) s' = Inr fn"
    by (auto simp: memory_backend_def GetFunction_abs spec_update_function_def found_def Let_def split: option.splits if_splits
        dest!: sym[of _ "abs_store s'"])
next
  fix u f s x s' assume "b_DeleteFunction (memory_backend now order) u f s = (Inr x, s')"
  then have "spec_delete_function u f (abs_store s) = (Inr x, abs_store s')"
    by (intro refined[where f = "DeleteFunction now u f"] DeleteFunction_refines) (simp add: memory_backend_def)
  then show "b_GetFunction (memory_backend now order) u f s' = Inl (StatusError NotFound)"
    by (auto simp: memory_backend_def GetFunction_abs spec_delete_function_def found_def split: if_splits
        dest!: sym[of _ "abs_store s'"])
qed (auto simp: memory_backend_def CreateFunction_def UpdateFunction_def UpdateUser_def PutPlatformConfig_def
    GetPlatformConfig_def Let_def frame_simps same_config_calls[unfolded same_config_def]
    split: option.splits if_splits prod.splits)

lemma api_run_config_valid: "config_valid (memory_backend 0 []) s \<Longrightarrow> config_valid (memory_backend 0 []) (api_run cd calls s)"
proof (induction calls arbitrary: s)
  case (Cons x calls)
  obtain now order c where x: "x = (now, order, c)"
    by (cases x)
  have same: "config_valid (memory_backend now order) t = config_valid (memory_backend 0 []) t" for t
    by (simp add: config_valid_def memory_backend_def)
  have "config_valid (memory_backend 0 []) (api_step cd (memory_backend now order) c s)"
    using mem.api_config_valid[of now order s cd c] Cons.prems by (simp add: same)
  then show ?case
    using Cons.IH by (simp add: api_run_def x)
qed (simp add: api_run_def)

text \<open>The data of the store without its counters, which a refused call may have moved.\<close>

definition stored_data :: "Store \<Rightarrow> (u64 \<rightharpoonup> UserSpec) \<times> (u64 \<times> u64 \<rightharpoonup> FunctionSpec) \<times> PlatformConfig option" where
  "stored_data s = (m_users (abs_store s), m_functions (abs_store s), m_config (abs_store s))"

definition ok_statuses :: "int set" where
  "ok_statuses = {200, 201, 204}"

definition client_errors :: "int set" where
  "client_errors = {400, 404, 405, 409}"

text \<open>A response of a route: a success, or a client error that left the data alone.\<close>

definition sound_response :: "Store \<Rightarrow> http_response \<times> Store \<Rightarrow> bool" where
  "sound_response s rs \<longleftrightarrow>
     status (fst rs) \<in> ok_statuses \<or> (status (fst rs) \<in> client_errors \<and> stored_data (snd rs) = stored_data s)"

lemma sound_ok: "n \<in> ok_statuses \<Longrightarrow> sound_response s (writeJSON n p, s')"
  by (simp add: sound_response_def writeJSON_def)

text \<open>A refused call of the store returns one of five codes and keeps the data.\<close>

definition store_codes :: "code set" where
  "store_codes = {InvalidArgument, FailedPrecondition, NotFound, AlreadyExists, Aborted}"

lemma store_codes_http: "c \<in> store_codes \<Longrightarrow> grpcCodeToHTTP c \<in> client_errors"
  by (auto simp: store_codes_def grpcCodeToHTTP_def client_errors_def)

lemma validate_code: "validateFunction req = Some e \<Longrightarrow> e = StatusError InvalidArgument"
  by (auto simp: validateFunction_def split: option.splits if_splits)

lemma refused_calls:
  "CreateUser u s = (Inl e, s') \<Longrightarrow> e \<in> StatusError ` store_codes \<and> stored_data s' = stored_data s"
  "UpdateUser u s = (Inl e, s') \<Longrightarrow> e \<in> StatusError ` store_codes \<and> stored_data s' = stored_data s"
  "DeleteUser now order uid s = (Inl e, s') \<Longrightarrow> e \<in> StatusError ` store_codes \<and> stored_data s' = stored_data s"
  "CreateFunction now f s = (Inl e, s') \<Longrightarrow> e \<in> StatusError ` store_codes \<and> stored_data s' = stored_data s"
  "UpdateFunction now f s = (Inl e, s') \<Longrightarrow> e \<in> StatusError ` store_codes \<and> stored_data s' = stored_data s"
  "DeleteFunction now uid fid s = (Inl e, s') \<Longrightarrow> e \<in> StatusError ` store_codes \<and> stored_data s' = stored_data s"
  "PutPlatformConfig c v s = (Inl e, s') \<Longrightarrow> e \<in> StatusError ` store_codes \<and> stored_data s' = stored_data s"
proof -
  assume "CreateUser u s = (Inl e, s')"
  then have "spec_create_user u (abs_store s) = (Inl e, abs_store s')"
    by (intro refined[where f = "CreateUser u"] CreateUser_refines)
  then show "e \<in> StatusError ` store_codes \<and> stored_data s' = stored_data s"
    by (auto simp: spec_create_user_def store_codes_def stored_data_def Let_def split: option.splits if_splits
        dest!: sym[of _ "abs_store s'"])
next
  assume "UpdateUser u s = (Inl e, s')"
  then show "e \<in> StatusError ` store_codes \<and> stored_data s' = stored_data s"
    by (auto simp: UpdateUser_def store_codes_def split: option.splits if_splits)
next
  assume "DeleteUser now order uid s = (Inl e, s')"
  then show "e \<in> StatusError ` store_codes \<and> stored_data s' = stored_data s"
    by (auto simp: DeleteUser_def store_codes_def Let_def split: option.splits if_splits)
next
  assume "CreateFunction now f s = (Inl e, s')"
  then have "spec_create_function f (abs_store s) = (Inl e, abs_store s')"
    by (intro refined[where f = "CreateFunction now f"] CreateFunction_refines)
  then show "e \<in> StatusError ` store_codes \<and> stored_data s' = stored_data s"
    by (auto simp: spec_create_function_def store_codes_def stored_data_def Let_def split: option.splits if_splits
        dest!: sym[of _ "abs_store s'"] validate_code)
next
  assume "UpdateFunction now f s = (Inl e, s')"
  then show "e \<in> StatusError ` store_codes \<and> stored_data s' = stored_data s"
    by (auto simp: UpdateFunction_def store_codes_def Let_def split: option.splits if_splits dest: validate_code)
next
  assume "DeleteFunction now uid fid s = (Inl e, s')"
  then show "e \<in> StatusError ` store_codes \<and> stored_data s' = stored_data s"
    by (auto simp: DeleteFunction_def store_codes_def Let_def split: option.splits if_splits)
next
  assume "PutPlatformConfig c v s = (Inl e, s')"
  then show "e \<in> StatusError ` store_codes \<and> stored_data s' = stored_data s"
    by (auto simp: PutPlatformConfig_def store_codes_def Let_def split: option.splits if_splits)
qed

lemma store_codes_in [simp]: "InvalidArgument \<in> store_codes" "NotFound \<in> store_codes"
  by (simp_all add: store_codes_def)

lemma bad_requests:
  "parsePathUint p = Inl e \<Longrightarrow> e \<in> StatusError ` store_codes"
  "decodeUser cd (Inr d) = Inl e \<Longrightarrow> e \<in> StatusError ` store_codes"
  "decodeFunction cd (Inr d) = Inl e \<Longrightarrow> e \<in> StatusError ` store_codes"
  "decodePutPlatformConfig cd (Inr d) = Inl e \<Longrightarrow> e \<in> StatusError ` store_codes"
  by (auto simp: parsePathUint_def decodeUser_def decodeFunction_def decodePutPlatformConfig_def Let_def
      split: option.splits if_splits)

lemma sound_store_error:
  "e \<in> StatusError ` store_codes \<and> stored_data s' = stored_data s \<Longrightarrow> sound_response s (writeHTTPError e, s')"
  using store_codes_http by (auto simp: sound_response_def)

lemma sound_users:
  "sound_response s (listUsers (memory_backend now order) s)"
  "sound_response s (createUser cd (memory_backend now order) (Inr d) s)"
  "sound_response s (getUser (memory_backend now order) uid s)"
  "sound_response s (updateUser cd (memory_backend now order) uid (Inr d) s)"
  "sound_response s (deleteUser (memory_backend now order) uid s)"
  by (auto simp: listUsers_def createUser_def getUser_def updateUser_def deleteUser_def memory_backend_def GetUser_def
      memory_ListUsers_def ok_statuses_def simp del: writeHTTPError.simps intro!: sound_ok sound_store_error dest: refused_calls bad_requests split: sum.splits prod.splits option.splits)

lemma sound_functions:
  "sound_response s (listFunctions (memory_backend now order) uid s)"
  "sound_response s (createFunction cd (memory_backend now order) uid (Inr d) s)"
  "sound_response s (getFunction (memory_backend now order) uid fid s)"
  "sound_response s (updateFunction cd (memory_backend now order) uid fid (Inr d) s)"
  "sound_response s (deleteFunction (memory_backend now order) uid fid s)"
  by (auto simp: listFunctions_def createFunction_def getFunction_def updateFunction_def deleteFunction_def
      memory_backend_def GetFunction_def memory_ListFunctions_def ok_statuses_def
      simp del: writeHTTPError.simps intro!: sound_ok sound_store_error dest: refused_calls bad_requests split: sum.splits prod.splits option.splits)

lemma sound_config:
  "sound_response s (getPlatformConfig (memory_backend now order) s)"
  "sound_response s (putPlatformConfig cd (memory_backend now order) (Inr d) s)"
  by (auto simp: getPlatformConfig_def putPlatformConfig_def memory_backend_def GetPlatformConfig_def ok_statuses_def
      simp del: writeHTTPError.simps intro!: sound_ok sound_store_error dest: refused_calls bad_requests split: sum.splits prod.splits option.splits)

lemma sound_route: "n \<in> client_errors \<Longrightarrow> sound_response s (\<lparr>status = n, payload = ErrorText\<rparr>, s)"
  by (simp add: sound_response_def)

lemma route_sound:
  assumes "req_body r = Inr d"
  shows "sound_response s (serveRoute cd (memory_backend now order) r s)"
proof -
  have "sound_response s (\<lparr>status = 404, payload = ErrorText\<rparr>, s)" "sound_response s (\<lparr>status = 405, payload = ErrorText\<rparr>, s)"
    by (simp_all add: sound_route client_errors_def)
  then show ?thesis
    using assms by (auto simp: serveRoute_def Let_def sound_users sound_functions sound_config split: list.splits)
qed

text \<open>The decimal text of an ID is a clean segment.\<close>

lemma unescape_plain: "CHR 0x25 \<notin> set t \<Longrightarrow> unescape t = Some t"
  by (induction t) auto

lemma pathUnescape_plain: "CHR 0x25 \<notin> set t \<Longrightarrow> pathUnescape t = t"
  by (simp add: pathUnescape_def unescape_plain)

lemma dec_nat_segment:
  "pathUnescape (dec_nat n) = dec_nat n" "dec_nat n \<noteq> ''''" "dec_nat n \<noteq> ''.''" "dec_nat n \<noteq> ''..''" "dec_nat n \<noteq> ''/''"
proof -
  have digits: "dec_nat n \<noteq> ''''" "list_all is_digit (dec_nat n)"
    using dec_nat_digits by blast+
  show "pathUnescape (dec_nat n) = dec_nat n"
    using digits(2) by (intro pathUnescape_plain) (auto simp: list_all_iff is_digit_def)
  show "dec_nat n \<noteq> ''''" "dec_nat n \<noteq> ''.''" "dec_nat n \<noteq> ''..''" "dec_nat n \<noteq> ''/''"
    using digits by (auto simp: is_digit_def)
qed

definition functions_path :: "u64 \<Rightarrow> string list" where
  "functions_path userID = [''v1'', ''users'', dec_nat (unat userID), ''functions'']"

definition function_path :: "u64 \<Rightarrow> u64 \<Rightarrow> string list" where
  "function_path userID functionID = functions_path userID @ [dec_nat (unat functionID)]"

lemma function_paths_clean: "cleanPath (functions_path u) = functions_path u" "cleanPath (function_path u f) = function_path u f"
  by (simp_all add: cleanPath_def functions_path_def function_path_def dec_nat_segment)

lemma route_create_function:
  "newHTTPAPI cd b \<lparr>req_method = ''POST'', req_path = functions_path u, req_body = body\<rparr> s =
     createFunction cd b (dec_nat (unat u)) body s"
  by (simp add: newHTTPAPI_def function_paths_clean)
    (simp add: serveRoute_def functions_path_def is_get_def Let_def dec_nat_segment pathUnescape_plain)

lemma route_get_function:
  "newHTTPAPI cd b \<lparr>req_method = ''GET'', req_path = function_path u f, req_body = body\<rparr> s =
     getFunction b (dec_nat (unat u)) (dec_nat (unat f)) s"
  by (simp add: newHTTPAPI_def function_paths_clean)
    (simp add: serveRoute_def function_path_def functions_path_def is_get_def Let_def dec_nat_segment pathUnescape_plain)

lemma getFunction_any: "getFunction (memory_backend now order) = getFunction (memory_backend now' order')"
proof -
  have reads: "b_GetFunction (memory_backend n p) = GetFunction" for n p
    by (simp add: memory_backend_def)
  show ?thesis
    by (intro ext) (simp only: getFunction_def reads)
qed

text \<open>A codec for examples: the text names the message.\<close>

definition example_codec :: codec where
  "example_codec =
     \<lparr>unmarshal_user = (\<lambda>t. if t = ''alice'' then Some alice else None),
      unmarshal_function = (\<lambda>t. if t = ''echo'' then Some echo else None),
      unmarshal_put = (\<lambda>t. if t = ''default'' then Some \<lparr>put_config = Some DefaultPlatformConfig, expected_version = 0\<rparr>
         else if t = ''stale'' then Some \<lparr>put_config = Some DefaultPlatformConfig, expected_version = 7\<rparr> else None)\<rparr>"

definition create_alice :: http_request where
  "create_alice = \<lparr>req_method = ''POST'', req_path = [''v1'', ''users''], req_body = Inr ''alice''\<rparr>"

definition api_example :: "(int \<times> u64 list \<times> api_call) list" where
  "api_example = [(1, [], ApiSeed), (2, [], ApiHTTP create_alice)]"

subsection \<open>Properties of the interface\<close>

text \<open>
  Property C21.  A function created with POST can be read back with GET: the response to the creation
  carries the stored function with its ID, and a GET on the path built from the decimal IDs answers
  200 with the same function.
\<close>

theorem http_function_roundtrip:
  assumes "newHTTPAPI cd (memory_backend now order) \<lparr>req_method = ''POST'', req_path = functions_path u, req_body = body\<rparr> s = (r, s')"
    and "status r = 201"
  shows "\<exists>fn. payload r = JFunction fn \<and> fn_user_id fn = u \<and>
    newHTTPAPI cd (memory_backend now' order')
      \<lparr>req_method = ''GET'', req_path = function_path u (fn_function_id fn), req_body = body'\<rparr> s' =
    (\<lparr>status = 200, payload = JFunction fn\<rparr>, s')"
  using mem.post_function_get[OF assms(1)[unfolded route_create_function] assms(2) parsePathUint_dec_nat]
  unfolding route_get_function getFunction_any[of now' order' now order] writeJSON_def by blast

theorem http_function_roundtrip_witness:
  "\<exists>r s' fn. newHTTPAPI example_codec (memory_backend 3 []) \<lparr>req_method = ''POST'', req_path = functions_path 1, req_body = Inr ''echo''\<rparr>
        (api_run example_codec api_example New) = (r, s') \<and> payload r = JFunction fn \<and>
     newHTTPAPI example_codec (memory_backend 4 [])
       \<lparr>req_method = ''GET'', req_path = function_path 1 (fn_function_id fn), req_body = Inr ''''\<rparr> s' =
     (\<lparr>status = 200, payload = JFunction fn\<rparr>, s')"
proof -
  let ?x = "newHTTPAPI example_codec (memory_backend 3 []) \<lparr>req_method = ''POST'', req_path = functions_path 1, req_body = Inr ''echo''\<rparr>
    (api_run example_codec api_example New)"
  have "status (fst ?x) = 201"
    unfolding route_create_function createFunction_def parsePathUint_dec_nat sum.case by code_simp
  from http_function_roundtrip[OF prod.collapse[symmetric] this, where now' = 4 and order' = "[]" and body' = "Inr ''''"]
  show ?thesis
    by (metis prod.collapse)
qed

text \<open>
  Property C22.  A request whose body can be read has one of three answers: a success with 200, 201 or
  204, one of the client errors 400, 404, 405 and 409, or a redirect with 307.  An error and a redirect
  leave users, functions and configuration as they were before the request, and a redirect is the
  answer exactly when the path is not clean and the method is not CONNECT.
\<close>

theorem http_errors_keep_data:
  assumes "req_body r = Inr d"
    and "newHTTPAPI cd (memory_backend now order) r s = (resp, s')"
  shows "status resp \<in> ok_statuses \<union> client_errors \<union> {307} \<and>
    (status resp \<notin> ok_statuses \<longrightarrow> stored_data s' = stored_data s) \<and>
    (status resp = 307 \<longleftrightarrow> req_method r \<noteq> ''CONNECT'' \<and> cleanPath (req_path r) \<noteq> req_path r)"
proof (cases "req_method r \<noteq> ''CONNECT'' \<and> cleanPath (req_path r) \<noteq> req_path r")
  case True
  then show ?thesis
    using assms(2) by (auto simp: newHTTPAPI_def)
next
  case False
  then have "sound_response s (resp, s')"
    using route_sound[OF assms(1), of s cd now order] assms(2) by (auto simp: newHTTPAPI_def)
  then show ?thesis
    using False by (auto simp: sound_response_def ok_statuses_def client_errors_def)
qed

text \<open>
  A write of the configuration under a stale version is refused with 409, and a path with a doubled
  slash is redirected; both leave the data of a seeded store with one user alone.
\<close>

theorem http_errors_keep_data_witness:
  "let s = api_run example_codec api_example New;
       stale = \<lparr>req_method = ''PUT'', req_path = [''v1'', ''platform'', ''config''], req_body = Inr ''stale''\<rparr>;
       unclean = \<lparr>req_method = ''POST'', req_path = [''v1'', ''users'', '''', ''functions''], req_body = Inr ''echo''\<rparr>
   in status (fst (newHTTPAPI example_codec (memory_backend 3 []) stale s)) = 409 \<and>
      stored_data (snd (newHTTPAPI example_codec (memory_backend 3 []) stale s)) = stored_data s \<and>
      status (fst (newHTTPAPI example_codec (memory_backend 3 []) unclean s)) = 307 \<and>
      stored_data (snd (newHTTPAPI example_codec (memory_backend 3 []) unclean s)) = stored_data s"
proof -
  let ?s = "api_run example_codec api_example New"
  let ?stale = "\<lparr>req_method = ''PUT'', req_path = [''v1'', ''platform'', ''config''], req_body = Inr ''stale''\<rparr> :: http_request"
  let ?unclean = "\<lparr>req_method = ''POST'', req_path = [''v1'', ''users'', '''', ''functions''], req_body = Inr ''echo''\<rparr> :: http_request"
  have bodies: "req_body ?stale = Inr ''stale''" "req_body ?unclean = Inr ''echo''"
    by simp_all
  have conflict: "status (fst (newHTTPAPI example_codec (memory_backend 3 []) ?stale ?s)) = 409"
    by code_simp
  have moved: "status (fst (newHTTPAPI example_codec (memory_backend 3 []) ?unclean ?s)) = 307"
    by code_simp
  show ?thesis
    using conflict moved http_errors_keep_data[OF bodies(1) prod.collapse[symmetric], where cd = example_codec and now = 3 and order = "[]" and s = ?s]
      http_errors_keep_data[OF bodies(2) prod.collapse[symmetric], where cd = example_codec and now = 3 and order = "[]" and s = ?s]
    by (simp add: Let_def ok_statuses_def)
qed

text \<open>
  Property C23.  Whatever HTTP and gRPC calls the control plane has served and however often it has
  seeded its store, a stored platform configuration selects a routing and a placement policy and has
  no negative bound, chain length or refresh interval.
\<close>

theorem stored_config_valid:
  assumes "platformConfig (api_run cd calls New) = Some c"
  shows "config_ok c"
proof -
  have "config_valid (memory_backend 0 []) New"
    by (simp add: config_valid_def memory_backend_def GetPlatformConfig_def New_def)
  from api_run_config_valid[OF this, of cd calls] show ?thesis
    using assms by (simp add: config_valid_def memory_backend_def GetPlatformConfig_def)
qed

theorem stored_config_valid_witness:
  "platformConfig (api_run example_codec api_example New) = Some (DefaultPlatformConfig\<lparr>version := 1\<rparr>) \<and>
   config_ok (DefaultPlatformConfig\<lparr>version := 1\<rparr>)"
proof -
  have "platformConfig (api_run example_codec api_example New) = Some (DefaultPlatformConfig\<lparr>version := 1\<rparr>)"
    by code_simp
  from this stored_config_valid[OF this] show ?thesis
    by blast
qed

end
