(* ===== verification/Core_State.thy ===== *)
theory Core_State
  imports Core_Types
begin

text \<open>
  The messages of \<^verbatim>\<open>proto/core.proto\<close> that carry the state of workers, sandboxes and functions between
  the tiers, and the decisions of schedulers and autoscalers.
\<close>

record ResourceUsage =
  used_cpu_units :: u64
  used_memory_bytes :: u64
  used_disk_bytes :: u64

record InstanceState =
  is_instance_id :: u64
  is_function_id :: u64
  is_worker_id :: u64
  is_address :: string
  is_protocol :: string
  is_ready :: bool
  is_stopping :: bool
  is_in_flight :: u64
  is_available_concurrency :: u64
  is_max_concurrency :: u64
  is_started_at :: "int option"
  is_last_used_at :: "int option"
  is_usage :: "ResourceUsage option"
  is_worker_state_revision :: u64

record CachedImage =
  ci_image :: string
  ci_digest :: string
  ci_size_bytes :: u64
  ci_cached_at :: "int option"

record WorkerState =
  worker_id :: u64
  schedulable :: bool
  healthy :: bool
  capacity :: "ResourceSpec option"
  allocated :: "ResourceUsage option"
  instances :: u64
  cold_starts_in_flight :: u32
  sandbox_states :: "InstanceState list"
  cached_images :: "CachedImage option list"
  load_average_norm :: float64
  sandbox_revision :: u64

definition emptyWorkerState :: WorkerState where
  "emptyWorkerState =
     \<lparr>worker_id = 0, schedulable = False, healthy = False, capacity = None, allocated = None, instances = 0,
      cold_starts_in_flight = 0, sandbox_states = [], cached_images = [], load_average_norm = 0, sandbox_revision = 0\<rparr>"

datatype CapacityStatus =
    CAPACITY_STATUS_UNSPECIFIED | CAPACITY_STATUS_AVAILABLE | CAPACITY_STATUS_COLD
  | CAPACITY_STATUS_SATURATED | CAPACITY_STATUS_UNKNOWN

record FunctionCapacity =
  fc_function_id :: u64
  fc_ready_instances :: u32
  fc_available_concurrency :: u64
  fc_in_flight :: u64
  fc_queue_depth :: u64
  fc_cold_starts_in_flight :: u32
  fc_ewm_latency :: "int option"
  fc_error_rate :: float64
  fc_status :: CapacityStatus
  fc_observed_at :: "int option"
  fc_deleted :: bool

record PlacementDecision =
  pd_worker_id :: u64
  pd_reason :: string
  pd_score :: float64

record ScaleDemand =
  sd_function_id :: u64
  sd_desired_instances :: u64
  sd_delta :: int
  sd_reason :: string
  sd_max_concurrent_starts :: u64

record ScaleDecision =
  dc_function_id :: u64
  dc_desired_instances :: u64
  dc_reason :: string
  dc_stable :: bool

end
