(* ===== verification/Float64.thy ===== *)
theory Float64
  imports Prelude
begin

text \<open>
  Arithmetic of Go's \<^verbatim>\<open>float64\<close> on the values the source computes with: conversions from \<^verbatim>\<open>uint64\<close>,
  sums, products and quotients.  A \<^verbatim>\<open>float64\<close> is a rational number and \<open>rnd64\<close> rounds to 53 significant
  bits, to even in the middle, as IEEE 754 prescribes.  Overflow to an infinity and subnormal numbers
  need exponents that counts of requests and byte sizes do not reach; they are not modelled.
\<close>

fun blog :: "nat \<Rightarrow> nat" where
  "blog n = (if n < 2 then 0 else blog (n div 2) + 1)"

declare blog.simps [simp del]

text \<open>The exponent of a positive number: the power of two below it.\<close>

definition expo :: "rat \<Rightarrow> int" where
  "expo x =
     (let (n, d) = quotient_of x; e = int (blog (nat n)) - int (blog (nat d))
      in if 2 powi e \<le> x then e else e - 1)"

definition round_even :: "rat \<Rightarrow> int" where
  "round_even y =
     (let k = \<lfloor>y\<rfloor>; f = y - of_int k
      in if f < 1 / 2 then k else if f > 1 / 2 then k + 1 else if even k then k else k + 1)"

definition rnd64 :: "rat \<Rightarrow> float64" where
  "rnd64 x =
     (if x = 0 then 0
      else let u = 2 powi (expo \<bar>x\<bar> - 52) in of_int (round_even (x / u)) * u)"

definition float_of_u64 :: "u64 \<Rightarrow> float64" where
  "float_of_u64 x = rnd64 (of_nat (unat x))"

definition fadd :: "float64 \<Rightarrow> float64 \<Rightarrow> float64" where "fadd x y = rnd64 (x + y)"
definition fmul :: "float64 \<Rightarrow> float64 \<Rightarrow> float64" where "fmul x y = rnd64 (x * y)"
definition fdiv :: "float64 \<Rightarrow> float64 \<Rightarrow> float64" where "fdiv x y = rnd64 (x / y)"

subsection \<open>Exponents\<close>

lemma blog_bounds: "0 < n \<Longrightarrow> 2 ^ blog n \<le> n \<and> n < 2 ^ (blog n + 1)"
proof (induction n rule: blog.induct)
  case (1 n)
  show ?case
  proof (cases "n < 2")
    case True
    then have "n = 1"
      using 1 by simp
    then show ?thesis
      by (simp add: blog.simps)
  next
    case False
    have IH: "2 ^ blog (n div 2) \<le> n div 2" "n div 2 < 2 ^ (blog (n div 2) + 1)"
      using 1 False by auto
    have b: "blog n = blog (n div 2) + 1"
      using False by (simp add: blog.simps[of n])
    have "2 * 2 ^ blog (n div 2) \<le> 2 * (n div 2)" "2 * (n div 2) \<le> n" "n < 2 * (n div 2 + 1)"
      using IH(1) by auto
    moreover have "2 * (n div 2 + 1) \<le> 2 * 2 ^ (blog (n div 2) + 1)"
      using IH(2) by auto
    ultimately have "2 * 2 ^ blog (n div 2) \<le> n" "n < 2 * 2 ^ (blog (n div 2) + 1)"
      by linarith+
    then show ?thesis
      by (simp add: b)
  qed
qed

lemma powi_pos: "(0 :: rat) < 2 powi e"
  by simp

lemma expo_bounds:
  assumes "0 < x"
  shows "2 powi expo x \<le> x \<and> x < 2 powi (expo x + 1)"
proof -
  obtain n d where q: "quotient_of x = (n, d)"
    by fastforce
  have d: "0 < d"
    using q quotient_of_denom_pos by blast
  have x: "x = of_int n / of_int d"
    using q quotient_of_div by blast
  have n: "0 < n"
    using assms d by (simp add: x zero_less_divide_iff)
  define e where "e = int (blog (nat n)) - int (blog (nat d))"
  have N: "(2 :: rat) ^ blog (nat n) \<le> of_int n" "of_int n < (2 :: rat) ^ (blog (nat n) + 1)"
  proof -
    have "2 ^ blog (nat n) \<le> nat n" "nat n < 2 ^ (blog (nat n) + 1)"
      using blog_bounds[of "nat n"] n by auto
    then have "of_nat (2 ^ blog (nat n)) \<le> (of_nat (nat n) :: rat)" "(of_nat (nat n) :: rat) < of_nat (2 ^ (blog (nat n) + 1))"
      using of_nat_le_iff of_nat_less_iff by blast+
    then show "(2 :: rat) ^ blog (nat n) \<le> of_int n" "of_int n < (2 :: rat) ^ (blog (nat n) + 1)"
      using n by simp_all
  qed
  have D: "(2 :: rat) ^ blog (nat d) \<le> of_int d" "of_int d < (2 :: rat) ^ (blog (nat d) + 1)"
  proof -
    have "2 ^ blog (nat d) \<le> nat d" "nat d < 2 ^ (blog (nat d) + 1)"
      using blog_bounds[of "nat d"] d by auto
    then have "of_nat (2 ^ blog (nat d)) \<le> (of_nat (nat d) :: rat)" "(of_nat (nat d) :: rat) < of_nat (2 ^ (blog (nat d) + 1))"
      using of_nat_le_iff of_nat_less_iff by blast+
    then show "(2 :: rat) ^ blog (nat d) \<le> of_int d" "of_int d < (2 :: rat) ^ (blog (nat d) + 1)"
      using d by simp_all
  qed
  have e: "(2 :: rat) powi e = 2 ^ blog (nat n) / 2 ^ blog (nat d)"
    by (simp add: e_def power_int_diff)
  have "x < 2 ^ (blog (nat n) + 1) / 2 ^ blog (nat d)"
  proof -
    have "x \<le> of_int n / 2 ^ blog (nat d)"
      unfolding x using D(1) n d by (intro divide_left_mono) auto
    also have "\<dots> < 2 ^ (blog (nat n) + 1) / 2 ^ blog (nat d)"
      using N(2) by (intro divide_strict_right_mono) auto
    finally show ?thesis .
  qed
  then have upper: "x < 2 powi (e + 1)"
    by (simp add: power_int_add e mult.commute)
  have "2 ^ blog (nat n) / 2 ^ (blog (nat d) + 1) \<le> x"
  proof -
    have "(2 :: rat) ^ blog (nat n) / 2 ^ (blog (nat d) + 1) \<le> of_int n / 2 ^ (blog (nat d) + 1)"
      using N(1) by (intro divide_right_mono) auto
    also have "\<dots> \<le> x"
      unfolding x using D(2) n d by (intro divide_left_mono) auto
    finally show ?thesis .
  qed
  then have lower: "2 powi (e - 1) \<le> x"
    by (simp add: power_int_diff e)
  have "expo x = (if 2 powi e \<le> x then e else e - 1)"
    by (simp add: expo_def q e_def)
  then show ?thesis
    using upper lower by auto
qed

subsection \<open>Rounding\<close>

lemma round_even_error: "\<bar>of_int (round_even y) - y\<bar> \<le> 1 / 2"
proof -
  have "of_int \<lfloor>y\<rfloor> \<le> y" "y < of_int \<lfloor>y\<rfloor> + 1"
    by linarith+
  then show ?thesis
    by (auto simp: round_even_def Let_def abs_le_iff)
qed

lemma round_even_int [simp]: "round_even (of_int k) = k"
  by (simp add: round_even_def)

text \<open>The relative error of one rounding is at most \<open>2 ^ -53\<close>.\<close>

lemma rnd64_error: "\<bar>rnd64 x - x\<bar> \<le> \<bar>x\<bar> / 2 ^ 53"
proof (cases "x = 0")
  case False
  define u :: rat where "u = 2 powi (expo \<bar>x\<bar> - 52)"
  have u: "0 < u"
    by (simp add: u_def)
  have "u \<le> \<bar>x\<bar> / 2 ^ 52"
    using expo_bounds[of "\<bar>x\<bar>"] False by (simp add: u_def power_int_diff divide_right_mono)
  moreover have "\<bar>of_int (round_even (x / u)) * u - x\<bar> = \<bar>of_int (round_even (x / u)) - x / u\<bar> * u"
  proof -
    have "of_int (round_even (x / u)) * u - x = (of_int (round_even (x / u)) - x / u) * u"
      using u by (simp add: left_diff_distrib)
    then show ?thesis
      using u by (simp add: abs_mult)
  qed
  moreover have "\<bar>of_int (round_even (x / u)) - x / u\<bar> * u \<le> 1 / 2 * u"
    using u round_even_error by (intro mult_right_mono) auto
  ultimately show ?thesis
    using False by (simp add: rnd64_def Let_def flip: u_def)
qed (simp add: rnd64_def)

lemma rnd64_0 [simp]: "rnd64 0 = 0"
  by (simp add: rnd64_def)

text \<open>Integers of up to 53 bits are exact.\<close>

lemma rnd64_int:
  assumes "\<bar>n\<bar> < 2 ^ 53"
  shows "rnd64 (of_int n) = of_int n"
proof (cases "n = 0")
  case False
  have "(2 :: rat) powi expo \<bar>of_int n\<bar> \<le> \<bar>of_int n\<bar>"
    using expo_bounds[of "\<bar>of_int n\<bar> :: rat"] False by simp
  also have "\<bar>of_int n\<bar> < (2 :: rat) powi 53"
    using assms by (simp add: power_int_def)
  finally have "expo \<bar>of_int n\<bar> < 53"
    using power_int_increasing[of 53 "expo \<bar>of_int n\<bar>" "2 :: rat"] by (force simp: not_less)
  then have "0 \<le> 52 - expo \<bar>of_int n\<bar>"
    by simp
  then obtain k where k: "52 - expo \<bar>of_int n\<bar> = int k"
    using nonneg_int_cases by blast
  have u: "(2 :: rat) powi (expo \<bar>of_int n\<bar> - 52) = 1 / 2 ^ k"
  proof -
    have "expo \<bar>of_int n\<bar> - 52 = - int k"
      using k by simp
    then show ?thesis
      by (simp only: power_int_minus power_int_of_nat) (simp add: divide_inverse)
  qed
  have "(of_int n :: rat) / (1 / 2 ^ k) = of_int (n * 2 ^ k)"
    by simp
  then show ?thesis
    using False by (simp only: rnd64_def u Let_def round_even_int) simp
qed simp

lemma float_of_u64_exact: "unat x < 2 ^ 53 \<Longrightarrow> float_of_u64 x = of_nat (unat x)"
proof -
  assume "unat x < 2 ^ 53"
  then have "\<bar>int (unat x)\<bar> < 2 ^ 53"
    by (metis abs_of_nat of_nat_less_iff of_nat_numeral of_nat_power)
  then show ?thesis
    using rnd64_int[of "int (unat x)"] unfolding float_of_u64_def of_int_of_nat_eq by blast
qed

subsection \<open>Rounding is monotone\<close>

lemma round_even_mono:
  assumes "x \<le> y"
  shows "round_even x \<le> round_even y"
proof (cases "\<lfloor>x\<rfloor> = \<lfloor>y\<rfloor>")
  case True
  then show ?thesis
    using assms by (auto simp: round_even_def Let_def)
next
  case False
  then have "\<lfloor>x\<rfloor> + 1 \<le> \<lfloor>y\<rfloor>"
    using floor_mono[OF assms] by simp
  moreover have "round_even x \<le> \<lfloor>x\<rfloor> + 1" "\<lfloor>y\<rfloor> \<le> round_even y"
    by (auto simp: round_even_def Let_def)
  ultimately show ?thesis
    by linarith
qed

text \<open>A positive number is rounded within its binade.\<close>

lemma rnd64_binade:
  assumes "0 < x"
  shows "2 powi expo x \<le> rnd64 x" "rnd64 x \<le> 2 powi (expo x + 1)"
proof -
  define u :: rat where "u = 2 powi (expo x - 52)"
  have u: "0 < u"
    by (simp add: u_def)
  have e: "2 powi expo x = of_int (2 ^ 52) * u" "2 powi (expo x + 1) = of_int (2 ^ 53) * u"
    by (simp_all add: u_def power_int_diff power_int_add)
  have r: "rnd64 x = of_int (round_even (x / u)) * u"
    using assms by (simp add: rnd64_def Let_def u_def)
  have "of_int (2 ^ 52) \<le> x / u" "x / u \<le> of_int (2 ^ 53)"
    using expo_bounds[OF assms] u unfolding e by (simp_all add: pos_le_divide_eq pos_divide_le_eq)
  then have "(2 :: int) ^ 52 \<le> round_even (x / u)" "round_even (x / u) \<le> 2 ^ 53"
    using round_even_mono[of "of_int (2 ^ 52)" "x / u"] round_even_mono[of "x / u" "of_int (2 ^ 53)"]
    by (simp_all only: round_even_int)
  then show "2 powi expo x \<le> rnd64 x" "rnd64 x \<le> 2 powi (expo x + 1)"
    unfolding r e using u by (simp_all only: mult_right_mono of_int_le_iff less_imp_le)
qed

lemma expo_mono:
  assumes "0 < x" "x \<le> y"
  shows "expo x \<le> expo y"
proof (rule ccontr)
  assume "\<not> expo x \<le> expo y"
  then have "(2 :: rat) powi (expo y + 1) \<le> 2 powi expo x"
    by (intro power_int_increasing) auto
  then show False
    using expo_bounds[of x] expo_bounds[of y] assms by auto
qed

lemma rnd64_mono:
  assumes "0 < x" "x \<le> y"
  shows "rnd64 x \<le> rnd64 y"
proof (cases "expo x = expo y")
  case True
  define u :: rat where "u = 2 powi (expo y - 52)"
  have "0 < u"
    by (simp add: u_def)
  then have "round_even (x / u) \<le> round_even (y / u)"
    using assms by (intro round_even_mono divide_right_mono) auto
  then have "of_int (round_even (x / u)) * u \<le> of_int (round_even (y / u)) * u"
    using \<open>0 < u\<close> by (intro mult_right_mono) auto
  then show ?thesis
    using assms True by (simp add: rnd64_def Let_def u_def)
next
  case False
  then have "(2 :: rat) powi (expo x + 1) \<le> 2 powi expo y"
    using expo_mono[OF assms] by (intro power_int_increasing) auto
  then show ?thesis
    using rnd64_binade(2)[OF assms(1)] rnd64_binade(1)[of y] assms by auto
qed

subsection \<open>Crude bounds\<close>

lemma rnd64_le: "0 \<le> x \<Longrightarrow> rnd64 x \<le> 2 * x"
proof -
  assume x: "0 \<le> x"
  have "rnd64 x - x \<le> x / 2 ^ 53"
    using rnd64_error[of x] x by (metis abs_ge_self abs_of_nonneg order_trans)
  moreover have "x / 2 ^ 53 \<le> x"
    using x by (simp add: divide_le_eq)
  ultimately show ?thesis
    by linarith
qed

lemma rnd64_ge: "0 \<le> x \<Longrightarrow> x / 2 \<le> rnd64 x"
proof -
  assume x: "0 \<le> x"
  have "x - rnd64 x \<le> x / 2 ^ 53"
    using rnd64_error[of x] x by (metis abs_ge_self abs_minus_commute abs_of_nonneg order_trans)
  moreover have "x / 2 ^ 53 \<le> x / 2"
    using x by (intro divide_left_mono) auto
  ultimately show ?thesis
    by linarith
qed

lemma rnd64_nat_le:
  assumes "n < 2 ^ 64"
  shows "rnd64 (of_nat n) \<le> 2 ^ 65"
proof -
  have "(of_nat n :: rat) \<le> of_nat (2 ^ 64)"
    using assms of_nat_mono[of n "2 ^ 64"] by simp
  then have "(of_nat n :: rat) \<le> 2 ^ 64"
    by simp
  then show ?thesis
    using rnd64_le[of "of_nat n"] by simp
qed

lemma float_of_u64_bounds: "of_nat (unat x) / 2 \<le> float_of_u64 x" "float_of_u64 x \<le> 2 ^ 65"
proof -
  have "unat x < 2 ^ 64"
    using unsigned_less[of x] by simp
  then show "float_of_u64 x \<le> 2 ^ 65"
    unfolding float_of_u64_def by (rule rnd64_nat_le)
  show "of_nat (unat x) / 2 \<le> float_of_u64 x"
    unfolding float_of_u64_def by (rule rnd64_ge) (rule of_nat_0_le_iff)
qed

lemma float_of_u64_nonneg: "0 \<le> float_of_u64 x"
proof -
  have "(0 :: rat) \<le> of_nat (unat x) / 2"
    by (intro divide_nonneg_nonneg of_nat_0_le_iff) simp
  then show ?thesis
    using float_of_u64_bounds(1)[of x] by (rule order_trans)
qed

end
