(* ===== verification/Scheduler.thy ===== *)
theory Scheduler
  imports Core_State Chbl Float64
begin

text \<open>
  The placement policies of \<^verbatim>\<open>pkg/leaf/scheduler\<close>: each one picks a worker for a new sandbox from a
  snapshot of the workers.

  A policy is a state and an operation \<open>PickWorker\<close> that returns the decision and the new state, or
  \<^const>\<open>None\<close> if it does not return; only the reservation policy, which draws random numbers until it
  has two different ones, has such a loop.  A worker in the snapshot may be nil.  The decision to place
  nowhere has the worker ID 0.  The contract that the placement state relies on is a locale; the six
  policies interpret it.
\<close>

subsection \<open>Eligibility and scores\<close>

text \<open>The conversion of the counter to a Go \<^verbatim>\<open>int\<close> reads the 64 bits as a signed number.\<close>

definition eligibleByInstanceCount :: "WorkerState option \<Rightarrow> int \<Rightarrow> bool" where
  "eligibleByInstanceCount worker maxInstances =
     (case worker of None \<Rightarrow> False
      | Some w \<Rightarrow>
          if worker_id w = 0 \<or> \<not> healthy w \<or> \<not> schedulable w then False
          else if maxInstances \<le> 0 then True
          else sint (instances w) < maxInstances)"

definition ratio :: "u64 \<Rightarrow> u64 \<Rightarrow> float64" where
  "ratio used cap = (if cap = 0 then 0 else fdiv (float_of_u64 used) (float_of_u64 cap))"

definition maxRatio :: "float64 \<Rightarrow> float64 \<Rightarrow> float64 \<Rightarrow> float64" where
  "maxRatio a b c = (let a' = (if b > a then b else a) in if c > a' then c else a')"

definition observedPressure :: "WorkerState \<Rightarrow> float64" where
  "observedPressure w =
     (case (capacity w, allocated w) of
        (Some cap, Some used) \<Rightarrow>
          maxRatio (ratio (used_cpu_units used) (cpu_units cap))
            (ratio (used_memory_bytes used) (memory_bytes cap))
            (ratio (used_disk_bytes used) (disk_bytes cap))
      | _ \<Rightarrow> float_of_u64 (instances w))"

record coldStartPlacementScore =
  coldStarts :: u32
  pressure :: float64
  score_instances :: u64

definition maxFloat64 :: float64 where
  "maxFloat64 = of_int ((2 ^ 53 - 1) * 2 ^ 971)"

definition coldStartScore :: "WorkerState option \<Rightarrow> coldStartPlacementScore" where
  "coldStartScore worker =
     (case worker of
        None \<Rightarrow> \<lparr>coldStarts = 0, pressure = maxFloat64, score_instances = 0\<rparr>
      | Some w \<Rightarrow> \<lparr>coldStarts = cold_starts_in_flight w, pressure = observedPressure w, score_instances = instances w\<rparr>)"

definition score_less :: "coldStartPlacementScore \<Rightarrow> coldStartPlacementScore \<Rightarrow> bool" where
  "score_less s other =
     (if coldStarts s \<noteq> coldStarts other then coldStarts s < coldStarts other
      else if pressure s \<noteq> pressure other then pressure s < pressure other
      else score_instances s < score_instances other)"

subsection \<open>Images\<close>

definition HasPrefix :: "string \<Rightarrow> string \<Rightarrow> bool" where
  "HasPrefix s p \<longleftrightarrow> take (length p) s = p"

definition HasSuffix :: "string \<Rightarrow> string \<Rightarrow> bool" where
  "HasSuffix s p \<longleftrightarrow> HasPrefix (rev s) (rev p)"

text \<open>The part after the last \<^verbatim>\<open>@\<close>, if there is one and it is not empty.\<close>

definition after_at :: "string \<Rightarrow> string option" where
  "after_at ref =
     (if CHR ''@'' \<in> set ref then
        let d = rev (takeWhile (\<lambda>c. c \<noteq> CHR ''@'') (rev ref)) in if d = '''' then None else Some d
      else None)"

definition digestFromRef :: "string \<Rightarrow> string" where
  "digestFromRef ref0 =
     (let ref = TrimSpace ref0 in
      if ref = '''' then ''''
      else if HasPrefix ref ''sha256:'' then ref
      else case after_at ref of None \<Rightarrow> '''' | Some d \<Rightarrow> if HasPrefix d ''sha256:'' then d else '''')"

definition image_matches :: "string \<Rightarrow> CachedImage option \<Rightarrow> bool" where
  "image_matches want img =
     (case img of None \<Rightarrow> False
      | Some im \<Rightarrow>
          let dig = TrimSpace (ci_digest im); ref = TrimSpace (ci_image im); wantDigest = digestFromRef want
          in (dig \<noteq> '''' \<and> (dig = want \<or> dig = wantDigest \<or> HasSuffix want (''@'' @ dig))) \<or>
             (ref \<noteq> '''' \<and> (ref = want \<or> (wantDigest \<noteq> '''' \<and> (ref = wantDigest \<or> digestFromRef ref = wantDigest)))))"

definition WorkerHasCachedImage :: "WorkerState option \<Rightarrow> string \<Rightarrow> bool" where
  "WorkerHasCachedImage worker want0 =
     (let want = TrimSpace want0 in
      case worker of None \<Rightarrow> False
      | Some w \<Rightarrow> want \<noteq> '''' \<and> list_ex (image_matches want) (cached_images w))"

definition FunctionImageRef :: "FunctionSpec option \<Rightarrow> string" where
  "FunctionImageRef function =
     (case function of None \<Rightarrow> ''''
      | Some f \<Rightarrow> (case fn_runtime f of None \<Rightarrow> '''' | Some rt \<Rightarrow> TrimSpace (rt_image rt)))"

subsection \<open>Decisions\<close>

definition nowhere :: "string \<Rightarrow> PlacementDecision" where
  "nowhere reason = \<lparr>pd_worker_id = 0, pd_reason = reason, pd_score = 0\<rparr>"

definition place :: "WorkerState option \<Rightarrow> string \<Rightarrow> PlacementDecision" where
  "place worker reason =
     \<lparr>pd_worker_id = (case worker of None \<Rightarrow> 0 | Some w \<Rightarrow> worker_id w), pd_reason = reason, pd_score = 0\<rparr>"

text \<open>The indices of the workers in the order of a scan that starts at a cursor.\<close>

definition rotated :: "nat \<Rightarrow> nat \<Rightarrow> nat list" where
  "rotated start n = map (\<lambda>i. (start + i) mod n) [0..<n]"

subsection \<open>Balanced round robin\<close>

record BalancedRoundRobin =
  nextScale :: u64
  br_maxInstances :: int

text \<open>The atomic counter is advanced even when no worker is found.\<close>

definition NextWorkerIndex :: "nat \<Rightarrow> BalancedRoundRobin \<Rightarrow> nat \<times> BalancedRoundRobin" where
  "NextWorkerIndex workerCount b =
     (if workerCount = 0 then (0, b)
      else (unat (nextScale b mod of_nat workerCount), b\<lparr>nextScale := nextScale b + 1\<rparr>))"

definition PickBalanced ::
  "FunctionSpec option \<Rightarrow> WorkerState option list \<Rightarrow> BalancedRoundRobin \<Rightarrow> PlacementDecision \<times> BalancedRoundRobin" where
  "PickBalanced function workers b =
     (let n = length workers in
      if n = 0 then (nowhere ''no workers'', b)
      else let (start, b') = NextWorkerIndex n b in
           (case find (\<lambda>idx. eligibleByInstanceCount (workers ! idx) (br_maxInstances b)) (rotated start n) of
              None \<Rightarrow> (nowhere ''no worker capacity'', b')
            | Some idx \<Rightarrow> (place (workers ! idx) ''balanced-round-robin'', b')))"

subsection \<open>Resource aware\<close>

record ResourceAware =
  ra_next :: nat
  ra_maxInstances :: int

definition resource_step ::
  "int \<Rightarrow> WorkerState option list \<Rightarrow> nat option \<times> float64 \<Rightarrow> nat \<Rightarrow> nat option \<times> float64" where
  "resource_step maxInstances workers acc idx =
     (case acc of (best, bestScore) \<Rightarrow>
        if \<not> eligibleByInstanceCount (workers ! idx) maxInstances then acc
        else let score = observedPressure (the (workers ! idx))
             in if score < bestScore then (Some idx, score) else acc)"

definition PickResource ::
  "FunctionSpec option \<Rightarrow> WorkerState option list \<Rightarrow> ResourceAware \<Rightarrow> PlacementDecision \<times> ResourceAware" where
  "PickResource function workers r =
     (let n = length workers in
      if n = 0 then (nowhere ''no workers'', r)
      else case fst (foldl (resource_step (ra_maxInstances r) workers) (None, maxFloat64) (rotated (ra_next r) n)) of
        None \<Rightarrow> (nowhere ''no worker resource capacity'', r)
      | Some best \<Rightarrow> (place (workers ! best) ''resource-aware'', r\<lparr>ra_next := (best + 1) mod n\<rparr>))"

subsection \<open>Cold-start aware\<close>

record ColdStartAware =
  cs_next :: nat
  cs_maxInstances :: int

text \<open>The candidate of a scan that keeps the first worker with the least score.\<close>

definition cold_step ::
  "WorkerState option list \<Rightarrow> (nat \<Rightarrow> bool) \<Rightarrow> nat option \<Rightarrow> nat \<Rightarrow> nat option" where
  "cold_step workers ok best idx =
     (if \<not> ok idx then best
      else case best of
        None \<Rightarrow> Some idx
      | Some b \<Rightarrow> if score_less (coldStartScore (workers ! idx)) (coldStartScore (workers ! b)) then Some idx else best)"

definition PickColdStart ::
  "FunctionSpec option \<Rightarrow> WorkerState option list \<Rightarrow> ColdStartAware \<Rightarrow> PlacementDecision \<times> ColdStartAware" where
  "PickColdStart function workers c =
     (let n = length workers in
      if n = 0 then (nowhere ''no workers'', c)
      else let c1 = (if cs_next c \<ge> n then c\<lparr>cs_next := 0\<rparr> else c);
               ok = (\<lambda>idx. eligibleByInstanceCount (workers ! idx) (cs_maxInstances c))
           in (case foldl (cold_step workers ok) None (rotated (cs_next c1) n) of
                 None \<Rightarrow> (nowhere ''no worker instance capacity'', c1)
               | Some best \<Rightarrow> (place (workers ! best) ''cold-start-aware'', c1\<lparr>cs_next := (best + 1) mod n\<rparr>)))"

subsection \<open>Image aware\<close>

record ImageAware =
  ia_next :: nat
  ia_maxInstances :: int

text \<open>The loop fills two candidates: among the workers that have the image and among the others.\<close>

definition image_step ::
  "WorkerState option list \<Rightarrow> (nat \<Rightarrow> bool) \<Rightarrow> (nat \<Rightarrow> bool) \<Rightarrow> nat option \<times> nat option \<Rightarrow> nat \<Rightarrow> nat option \<times> nat option" where
  "image_step workers ok hit acc idx =
     (case acc of (bestHit, bestMiss) \<Rightarrow>
        if \<not> ok idx then acc
        else if hit idx then (cold_step workers ok bestHit idx, bestMiss)
        else (bestHit, cold_step workers ok bestMiss idx))"

definition PickImage ::
  "FunctionSpec option \<Rightarrow> WorkerState option list \<Rightarrow> ImageAware \<Rightarrow> PlacementDecision \<times> ImageAware" where
  "PickImage function workers s =
     (let n = length workers in
      if n = 0 then (nowhere ''no workers'', s)
      else let image = FunctionImageRef function;
               s1 = (if ia_next s \<ge> n then s\<lparr>ia_next := 0\<rparr> else s);
               ok = (\<lambda>idx. eligibleByInstanceCount (workers ! idx) (ia_maxInstances s));
               hit = (\<lambda>idx. image \<noteq> '''' \<and> WorkerHasCachedImage (workers ! idx) image)
           in (case foldl (image_step workers ok hit) (None, None) (rotated (ia_next s1) n) of
                 (Some best, _) \<Rightarrow> (place (workers ! best) ''image-aware-hit'', s1\<lparr>ia_next := (best + 1) mod n\<rparr>)
               | (None, Some best) \<Rightarrow> (place (workers ! best) ''image-aware-miss'', s1\<lparr>ia_next := (best + 1) mod n\<rparr>)
               | (None, None) \<Rightarrow> (nowhere ''no worker instance capacity'', s1)))"

subsection \<open>Reservation aware\<close>

text \<open>
  \<open>randomIndex k n\<close> is the result of the \<open>k\<close>-th call of the random source with bound \<open>n\<close>; \<open>drawn\<close>
  counts the calls.  The loop that looks for a second index may not end.
\<close>

record ReservationAware =
  rv_maxInstances :: int
  randomIndex :: "nat \<Rightarrow> nat \<Rightarrow> nat"
  drawn :: nat

partial_function (option) draw_second :: "(nat \<Rightarrow> nat \<Rightarrow> nat) \<Rightarrow> nat list \<Rightarrow> nat \<Rightarrow> nat \<Rightarrow> (nat \<times> nat) option" where
  "draw_second rnd idxs one k =
     (let second = idxs ! rnd k (length idxs) in
      if second = one then draw_second rnd idxs one (k + 1) else Some (second, k + 1))"

definition eligibleIndexes :: "int \<Rightarrow> WorkerState option list \<Rightarrow> nat list" where
  "eligibleIndexes maxInstances workers =
     filter (\<lambda>i. eligibleByInstanceCount (workers ! i) maxInstances) [0..<length workers]"

definition PickReservation ::
  "FunctionSpec option \<Rightarrow> WorkerState option list \<Rightarrow> ReservationAware \<Rightarrow> (PlacementDecision \<times> ReservationAware) option" where
  "PickReservation function workers r =
     (if workers = [] then Some (nowhere ''no workers'', r)
      else let idxs = eligibleIndexes (rv_maxInstances r) workers in
           if idxs = [] then Some (nowhere ''no worker instance capacity'', r)
           else let one = idxs ! randomIndex r (drawn r) (length idxs) in
                if length idxs > 1 then
                  (case draw_second (randomIndex r) idxs one (drawn r + 1) of
                     None \<Rightarrow> None
                   | Some (second, k) \<Rightarrow>
                       let best = (if score_less (coldStartScore (workers ! second)) (coldStartScore (workers ! one))
                                   then second else one)
                       in Some (place (workers ! best) ''reservation-aware'', r\<lparr>drawn := k\<rparr>))
                else Some (place (workers ! one) ''reservation-aware'', r\<lparr>drawn := drawn r + 1\<rparr>))"

subsection \<open>Bounded loads\<close>

record BoundedLoads =
  bl_maxInstances :: int
  bound :: float64
  maxChainLen :: int
  ring :: Ring

definition NewBoundedLoads :: "nat \<Rightarrow> int \<Rightarrow> float64 \<Rightarrow> int \<Rightarrow> BoundedLoads" where
  "NewBoundedLoads workerCount maxInstances bd chain =
     \<lparr>bl_maxInstances = maxInstances, bound = NormalizeBound bd, maxChainLen = NormalizeMaxChainLen chain,
      ring = NewRing (map (\<lambda>i. of_nat (i + 1)) [0..<workerCount])\<rparr>"

text \<open>The loop that fills \<^verbatim>\<open>byID\<close> and \<^verbatim>\<open>loads\<close>.\<close>

definition index_step ::
  "int \<Rightarrow> float64 \<Rightarrow> (u64, WorkerState) gomap \<times> (u64, float64) gomap \<Rightarrow> WorkerState option \<Rightarrow>
     (u64, WorkerState) gomap \<times> (u64, float64) gomap" where
  "index_step maxInstances bd acc worker =
     (case (acc, worker) of
        (_, None) \<Rightarrow> acc
      | ((byID, loads), Some w) \<Rightarrow>
          if worker_id w = 0 then acc
          else (AList.update (worker_id w) w byID,
                AList.update (worker_id w)
                  (if \<not> eligibleByInstanceCount worker maxInstances then fadd bd 1 else load_average_norm w) loads))"

definition eligible_step ::
  "(u64, float64) gomap \<Rightarrow> (u64, WorkerState) gomap \<Rightarrow> int \<Rightarrow> u64 option \<Rightarrow> u64 \<Rightarrow> u64 option" where
  "eligible_step loads byID maxInstances best uid =
     (if \<not> eligibleByInstanceCount (map_of byID uid) maxInstances then best
      else case best of
        None \<Rightarrow> Some uid
      | Some b \<Rightarrow> if lighter (load_of loads) uid b then Some uid else best)"

definition leastLoadedEligible ::
  "u64 list \<Rightarrow> (u64, float64) gomap \<Rightarrow> (u64, WorkerState) gomap \<Rightarrow> int \<Rightarrow> u64" where
  "leastLoadedEligible is loads byID maxInstances =
     (case foldl (eligible_step loads byID maxInstances) None is of None \<Rightarrow> 0 | Some b \<Rightarrow> b)"

fun reason_string :: "Reason \<Rightarrow> string" where
  "reason_string ReasonHome = ''bounded-loads-home''"
| "reason_string ReasonForwarded = ''bounded-loads-forwarded''"
| "reason_string ReasonLeastLoaded = ''bounded-loads-least-loaded''"

definition PickBounded ::
  "FunctionSpec option \<Rightarrow> WorkerState option list \<Rightarrow> BoundedLoads \<Rightarrow> PlacementDecision" where
  "PickBounded function workers s =
     (let (byID, loads) = foldl (index_step (bl_maxInstances s) (bound s)) ([], []) workers in
      if byID = [] then nowhere ''no workers''
      else
        let functionID = (case function of None \<Rightarrow> 0 | Some f \<Rightarrow> fn_function_id f);
            ok = (\<lambda>uid. eligibleByInstanceCount (map_of byID uid) (bl_maxInstances s));
            (uid, reason) = Forward (Some (ring s)) loads (bound s) (maxChainLen s) (Home (ring s) functionID);
            (uid', reason') =
              (if ok uid then (uid, reason)
               else (leastLoadedEligible (ids (ring s)) loads byID (bl_maxInstances s), ReasonLeastLoaded))
        in if \<not> ok uid' then nowhere ''no worker capacity''
           else \<lparr>pd_worker_id = uid', pd_reason = reason_string reason',
                 pd_score = load_average_norm (the (map_of byID uid'))\<rparr>)"

subsection \<open>The configured policy\<close>

datatype scheduler =
    SBalanced BalancedRoundRobin | SResource ResourceAware | SColdStart ColdStartAware
  | SReservation ReservationAware | SImage ImageAware | SBounded BoundedLoads

datatype factory_error = PolicyNotSet | WorkerCountPanic

text \<open>\<open>rnd\<close> is the random source of the process.\<close>

definition NewFromConfig ::
  "(nat \<Rightarrow> nat \<Rightarrow> nat) \<Rightarrow> PlacementPolicyConfig option \<Rightarrow> nat \<Rightarrow> int \<Rightarrow> factory_error + scheduler" where
  "NewFromConfig rnd cfg workerCount maxInstances =
     (case Option.bind cfg placement_policy of
        None \<Rightarrow> Inl PolicyNotSet
      | Some BalancedRoundRobin \<Rightarrow>
          if workerCount = 0 then Inl WorkerCountPanic
          else Inr (SBalanced \<lparr>nextScale = 0, br_maxInstances = maxInstances\<rparr>)
      | Some ResourceAware \<Rightarrow> Inr (SResource \<lparr>ra_next = 0, ra_maxInstances = maxInstances\<rparr>)
      | Some ColdStartAware \<Rightarrow> Inr (SColdStart \<lparr>cs_next = 0, cs_maxInstances = maxInstances\<rparr>)
      | Some ReservationAware \<Rightarrow> Inr (SReservation \<lparr>rv_maxInstances = maxInstances, randomIndex = rnd, drawn = 0\<rparr>)
      | Some ImageAware \<Rightarrow> Inr (SImage \<lparr>ia_next = 0, ia_maxInstances = maxInstances\<rparr>)
      | Some (BoundedLoadsPlacement bl) \<Rightarrow>
          Inr (SBounded (NewBoundedLoads workerCount maxInstances (bl_bound bl) (bl_max_chain_len bl))))"

fun PickWorker ::
  "FunctionSpec option \<Rightarrow> WorkerState option list \<Rightarrow> scheduler \<Rightarrow> (PlacementDecision \<times> scheduler) option" where
  "PickWorker f ws (SBalanced b) = Some (map_prod id SBalanced (PickBalanced f ws b))"
| "PickWorker f ws (SResource r) = Some (map_prod id SResource (PickResource f ws r))"
| "PickWorker f ws (SColdStart c) = Some (map_prod id SColdStart (PickColdStart f ws c))"
| "PickWorker f ws (SReservation r) = map_option (map_prod id SReservation) (PickReservation f ws r)"
| "PickWorker f ws (SImage i) = Some (map_prod id SImage (PickImage f ws i))"
| "PickWorker f ws (SBounded b) = Some (PickBounded f ws b, SBounded b)"

subsection \<open>Signals a policy needs\<close>

text \<open>\<^verbatim>\<open>NeedWorkerLoad PlacementNeeds = 1 << iota\<close>: the first constant of the block is \<open>1\<close>, the next \<open>2\<close>.\<close>

type_synonym PlacementNeeds = u32

definition NeedWorkerLoad :: PlacementNeeds where "NeedWorkerLoad = 1"

definition NeedWorkerImages :: PlacementNeeds where "NeedWorkerImages = 2"

definition Has :: "PlacementNeeds \<Rightarrow> PlacementNeeds \<Rightarrow> bool" where
  "Has n x \<longleftrightarrow> and n x = x"

definition NeedsFor :: "PlacementPolicyConfig option \<Rightarrow> PlacementNeeds option" where
  "NeedsFor cfg =
     (case Option.bind cfg placement_policy of
        None \<Rightarrow> None
      | Some BalancedRoundRobin \<Rightarrow> Some 0
      | Some ResourceAware \<Rightarrow> Some 0
      | Some ColdStartAware \<Rightarrow> Some 0
      | Some ReservationAware \<Rightarrow> Some 0
      | Some ImageAware \<Rightarrow> Some NeedWorkerImages
      | Some (BoundedLoadsPlacement bl) \<Rightarrow> Some NeedWorkerLoad)"

text \<open>A snapshot in which the signals that were not requested are missing.\<close>

definition project :: "PlacementNeeds \<Rightarrow> WorkerState \<Rightarrow> WorkerState" where
  "project needs w =
     w\<lparr>load_average_norm := (if Has needs NeedWorkerLoad then load_average_norm w else 0),
       cached_images := (if Has needs NeedWorkerImages then cached_images w else [])\<rparr>"

definition PlacementPolicyLabel :: "PlacementPolicyConfig option \<Rightarrow> string" where
  "PlacementPolicyLabel cfg =
     (case Option.bind cfg placement_policy of
        None \<Rightarrow> ''''
      | Some BalancedRoundRobin \<Rightarrow> ''balanced-round-robin''
      | Some ResourceAware \<Rightarrow> ''resource-aware''
      | Some ColdStartAware \<Rightarrow> ''cold-start-aware''
      | Some ReservationAware \<Rightarrow> ''reservation-aware''
      | Some ImageAware \<Rightarrow> ''image-aware''
      | Some (BoundedLoadsPlacement bl) \<Rightarrow> ''bounded-loads'')"

end
