(* ===== verification/Scheduler_Contract.thy ===== *)
theory Scheduler_Contract
  imports Scheduler
begin

text \<open>
  What the placement policies guarantee.  The contract \<open>placement_scheduler\<close> says that a policy picks
  an eligible worker whenever there is one and nothing else, and that it returns; the six policies
  interpret it.  Further lemmas say which eligible worker each policy prefers and that a policy reads
  no signal it did not ask for.
\<close>

subsection \<open>Scans\<close>

lemma set_rotated: "0 < n \<Longrightarrow> set (rotated start n) = {0..<n}"
proof
  assume n: "0 < n"
  show "set (rotated start n) \<subseteq> {0..<n}"
    using n by (auto simp: rotated_def)
  show "{0..<n} \<subseteq> set (rotated start n)"
  proof
    fix j assume "j \<in> {0..<n}"
    then have j: "j < n" by simp
    define i where "i = (j + n - start mod n) mod n"
    have "start mod n \<le> j + n"
      using mod_less_divisor[OF n, of start] by linarith
    have "(start + i) mod n = (start mod n + (j + n - start mod n)) mod n"
      unfolding i_def by (simp add: mod_add_left_eq mod_add_right_eq)
    also have "\<dots> = j"
      using \<open>start mod n \<le> j + n\<close> j by simp
    finally show "j \<in> set (rotated start n)"
      using n by (force simp: rotated_def i_def)
  qed
qed

definition cold_better :: "WorkerState option list \<Rightarrow> nat \<Rightarrow> nat \<Rightarrow> bool" where
  "cold_better workers i j \<longleftrightarrow> score_less (coldStartScore (workers ! i)) (coldStartScore (workers ! j))"

interpretation cold: better_order "cold_better workers" for workers
proof unfold_locales
  fix x y z
  show "cold_better workers x y \<Longrightarrow> \<not> cold_better workers y x"
    by (auto simp: cold_better_def score_less_def split: if_splits)
  show "\<not> cold_better workers x y \<Longrightarrow> \<not> cold_better workers y z \<Longrightarrow> \<not> cold_better workers x z"
    by (auto simp: cold_better_def score_less_def not_less split: if_splits)
qed

text \<open>A scan with a filter is a scan of the filtered list.\<close>

definition filtered_scan :: "('a \<Rightarrow> 'a \<Rightarrow> bool) \<Rightarrow> ('a \<Rightarrow> bool) \<Rightarrow> 'a option \<Rightarrow> 'a \<Rightarrow> 'a option" where
  "filtered_scan better ok best x =
     (if \<not> ok x then best else case best of None \<Rightarrow> Some x | Some b \<Rightarrow> if better x b then Some x else best)"

lemma foldl_filtered_Some:
  "foldl (filtered_scan better ok) (Some b) xs = Some (scan_best better b (filter ok xs))"
  by (induction xs arbitrary: b) (auto simp: filtered_scan_def scan_best_def)

lemma foldl_filtered_None:
  "foldl (filtered_scan better ok) None xs =
     (case filter ok xs of [] \<Rightarrow> None | y # ys \<Rightarrow> Some (scan_best better y ys))"
proof (induction xs)
  case (Cons x xs)
  have "filtered_scan better ok None x = (if ok x then Some x else None)"
    by (simp add: filtered_scan_def)
  then show ?case
    using Cons by (simp add: foldl_filtered_Some)
qed simp

context better_order
begin

lemma filtered_scan_best:
  assumes "foldl (filtered_scan better ok) None xs = Some b"
  shows "b \<in> set xs" "ok b" "y \<in> set xs \<Longrightarrow> ok y \<Longrightarrow> \<not> better y b"
proof -
  obtain z zs where z: "filter ok xs = z # zs" "b = scan_best better z zs"
    using assms by (auto simp: foldl_filtered_None split: list.splits)
  have mem: "u \<in> set (z # zs) \<longleftrightarrow> u \<in> set xs \<and> ok u" for u
    by (simp flip: z(1))
  then show "b \<in> set xs" "ok b"
    using scan_in[of z zs] z(2) by blast+
  show "y \<in> set xs \<Longrightarrow> ok y \<Longrightarrow> \<not> better y b"
    using scan_least[of y z zs] z(2) mem by blast
qed

lemma filtered_scan_none:
  "foldl (filtered_scan better ok) None xs = None \<longleftrightarrow> (\<forall>x \<in> set xs. \<not> ok x)"
proof -
  have "foldl (filtered_scan better ok) None xs = None \<longleftrightarrow> filter ok xs = []"
    by (simp add: foldl_filtered_None split: list.splits)
  then show ?thesis
    by (simp add: filter_empty_conv)
qed

end

lemma cold_step_scan: "cold_step workers ok = filtered_scan (cold_better workers) ok"
  by (auto simp: cold_step_def filtered_scan_def cold_better_def fun_eq_iff split: option.splits)

lemma eligible_step_scan:
  "eligible_step loads byID maxInstances =
     filtered_scan (lighter (load_of loads)) (\<lambda>uid. eligibleByInstanceCount (map_of byID uid) maxInstances)"
  by (auto simp: eligible_step_def filtered_scan_def fun_eq_iff split: option.splits)

lemma image_step_scan:
  "foldl (image_step workers ok hit) (a, b) xs =
     (foldl (cold_step workers (\<lambda>i. ok i \<and> hit i)) a xs, foldl (cold_step workers (\<lambda>i. ok i \<and> \<not> hit i)) b xs)"
proof (induction xs arbitrary: a b)
  case (Cons x xs)
  have "image_step workers ok hit (a, b) x =
      (cold_step workers (\<lambda>i. ok i \<and> hit i) a x, cold_step workers (\<lambda>i. ok i \<and> \<not> hit i) b x)"
    by (auto simp: image_step_def cold_step_def)
  then show ?case
    using Cons by simp
qed simp

subsection \<open>Pressure is finite\<close>

lemma ratio_le: "ratio used cap \<le> 2 ^ 67"
proof (cases "cap = 0")
  case False
  then have "1 \<le> unat cap"
    by (simp add: Suc_leI unat_gt_0)
  then have "(1 :: rat) \<le> of_nat (unat cap)"
    using of_nat_mono[of 1 "unat cap"] by simp
  then have c: "1 / 2 \<le> float_of_u64 cap"
    using float_of_u64_bounds(1)[of cap] by (meson divide_right_mono order_trans zero_le_numeral)
  have "float_of_u64 used / float_of_u64 cap \<le> 2 ^ 65 / (1 / 2)"
    using c float_of_u64_bounds(2)[of used] float_of_u64_nonneg[of used] by (intro frac_le) auto
  moreover have "0 \<le> float_of_u64 used / float_of_u64 cap"
    using float_of_u64_nonneg[of used] float_of_u64_nonneg[of cap] by simp
  ultimately show ?thesis
    using rnd64_le[of "float_of_u64 used / float_of_u64 cap"] False by (simp add: ratio_def fdiv_def)
qed (simp add: ratio_def)

lemma observedPressure_finite: "observedPressure w < maxFloat64"
proof -
  have "observedPressure w \<le> 2 ^ 67"
    using ratio_le float_of_u64_bounds(2)[of "instances w"]
    by (auto simp: observedPressure_def maxRatio_def Let_def split: option.splits)
  also have "(2 :: rat) ^ 67 < maxFloat64"
    by (simp add: maxFloat64_def)
  finally show ?thesis .
qed

subsection \<open>The contract\<close>

text \<open>
  The workers of a leaf: the worker at index \<open>i\<close> has the ID \<open>i + 1\<close>, as in the snapshot of
  \<^verbatim>\<open>PlacementState\<close>.
\<close>

definition leaf_workers :: "WorkerState option list \<Rightarrow> bool" where
  "leaf_workers ws \<longleftrightarrow>
     length ws < 2 ^ 63 \<and> (\<forall>i < length ws. \<exists>w. ws ! i = Some w \<and> worker_id w = of_nat (i + 1))"

text \<open>
  \<open>serves st n\<close> says that the state is one of a policy configured for \<open>n\<close> workers; \<open>cap\<close> is its limit
  of instances per worker.
\<close>

locale placement_scheduler =
  fixes pick :: "FunctionSpec option \<Rightarrow> WorkerState option list \<Rightarrow> 'st \<Rightarrow> (PlacementDecision \<times> 'st) option"
    and cap :: "'st \<Rightarrow> int"
    and serves :: "'st \<Rightarrow> nat \<Rightarrow> bool"
  assumes returns: "leaf_workers ws \<Longrightarrow> serves st (length ws) \<Longrightarrow> \<exists>d st'. pick f ws st = Some (d, st')"
    and picks_eligible: "leaf_workers ws \<Longrightarrow> serves st (length ws) \<Longrightarrow> pick f ws st = Some (d, st') \<Longrightarrow>
      pd_worker_id d \<noteq> 0 \<Longrightarrow> \<exists>i < length ws. eligibleByInstanceCount (ws ! i) (cap st) \<and> pd_worker_id d = of_nat (i + 1)"
    and picks_if_possible: "leaf_workers ws \<Longrightarrow> serves st (length ws) \<Longrightarrow> pick f ws st = Some (d, st') \<Longrightarrow>
      i < length ws \<Longrightarrow> eligibleByInstanceCount (ws ! i) (cap st) \<Longrightarrow> pd_worker_id d \<noteq> 0"
    and keeps_serving: "leaf_workers ws \<Longrightarrow> serves st (length ws) \<Longrightarrow> pick f ws st = Some (d, st') \<Longrightarrow>
      serves st' (length ws) \<and> cap st' = cap st"
begin

lemma index_of_pick:
  assumes "leaf_workers ws" "serves st (length ws)" "pick f ws st = Some (d, st')" "pd_worker_id d \<noteq> 0"
  shows "unat (pd_worker_id d) - 1 < length ws" "eligibleByInstanceCount (ws ! (unat (pd_worker_id d) - 1)) (cap st)"
proof -
  obtain i where i: "i < length ws" "eligibleByInstanceCount (ws ! i) (cap st)" "pd_worker_id d = of_nat (i + 1)"
    using picks_eligible[OF assms] by blast
  have "i + 1 < 2 ^ 64"
    using i(1) assms(1) by (simp add: leaf_workers_def)
  then have "unat (pd_worker_id d) = i + 1"
    unfolding i(3) by (subst unat_of_nat) simp
  then show "unat (pd_worker_id d) - 1 < length ws" "eligibleByInstanceCount (ws ! (unat (pd_worker_id d) - 1)) (cap st)"
    using i by simp_all
qed

lemma places_somewhere_iff:
  assumes "leaf_workers ws" "serves st (length ws)"
  shows "\<exists>d st'. pick f ws st = Some (d, st') \<and>
    (pd_worker_id d \<noteq> 0 \<longleftrightarrow> (\<exists>i < length ws. eligibleByInstanceCount (ws ! i) (cap st)))"
proof -
  obtain d st' where p: "pick f ws st = Some (d, st')"
    using returns[OF assms] by blast
  show ?thesis
    using p picks_eligible[OF assms p] picks_if_possible[OF assms p] by blast
qed

end

lemma eligible_worker: "eligibleByInstanceCount w m \<Longrightarrow> \<exists>x. w = Some x \<and> worker_id x \<noteq> 0"
  by (auto simp: eligibleByInstanceCount_def split: option.splits if_splits)

lemma place_worker:
  assumes "leaf_workers ws" "i < length ws"
  shows "pd_worker_id (place (ws ! i) r) = of_nat (i + 1)"
  using assms by (auto simp: leaf_workers_def place_def)

lemma place_eligible: "eligibleByInstanceCount w m \<Longrightarrow> pd_worker_id (place w r) \<noteq> 0"
  by (auto simp: place_def dest: eligible_worker)

lemma nowhere_worker [simp]: "pd_worker_id (nowhere r) = 0"
  by (simp add: nowhere_def)

text \<open>The decision of a policy that scans for an index.\<close>

definition scan_decision :: "(nat \<Rightarrow> bool) \<Rightarrow> WorkerState option list \<Rightarrow> PlacementDecision \<Rightarrow> bool" where
  "scan_decision ok ws d \<longleftrightarrow>
     (pd_worker_id d \<noteq> 0 \<longrightarrow> (\<exists>i r. i < length ws \<and> ok i \<and> pd_worker_id d = pd_worker_id (place (ws ! i) r))) \<and>
     (pd_worker_id d = 0 \<longrightarrow> (\<forall>i < length ws. \<not> ok i))"

lemma scan_decision_found:
  "i < length ws \<Longrightarrow> eligibleByInstanceCount (ws ! i) m \<Longrightarrow>
     scan_decision (\<lambda>i. eligibleByInstanceCount (ws ! i) m) ws (place (ws ! i) r)"
  by (auto simp: scan_decision_def place_eligible)

lemma scan_decision_none:
  "\<forall>i < length ws. \<not> ok i \<Longrightarrow> scan_decision ok ws (nowhere r)"
  by (auto simp: scan_decision_def)

lemma scan_decision_contract:
  assumes "leaf_workers ws" "scan_decision (\<lambda>i. eligibleByInstanceCount (ws ! i) m) ws d"
  shows "pd_worker_id d \<noteq> 0 \<Longrightarrow> \<exists>i < length ws. eligibleByInstanceCount (ws ! i) m \<and> pd_worker_id d = of_nat (i + 1)"
    and "i < length ws \<Longrightarrow> eligibleByInstanceCount (ws ! i) m \<Longrightarrow> pd_worker_id d \<noteq> 0"
proof -
  show "\<exists>i < length ws. eligibleByInstanceCount (ws ! i) m \<and> pd_worker_id d = of_nat (i + 1)" if "pd_worker_id d \<noteq> 0"
  proof -
    obtain i r where "i < length ws" "eligibleByInstanceCount (ws ! i) m" "pd_worker_id d = pd_worker_id (place (ws ! i) r)"
      using assms(2) \<open>pd_worker_id d \<noteq> 0\<close> unfolding scan_decision_def by blast
    then show ?thesis
      using place_worker[OF assms(1)] by metis
  qed
  show "pd_worker_id d \<noteq> 0" if "i < length ws" "eligibleByInstanceCount (ws ! i) m"
    using assms(2) that unfolding scan_decision_def by blast
qed

text \<open>Four policies scan the workers and always return; for them the contract follows from the scan.\<close>

locale scanning_policy =
  fixes pick :: "FunctionSpec option \<Rightarrow> WorkerState option list \<Rightarrow> 'st \<Rightarrow> PlacementDecision \<times> 'st"
    and cap :: "'st \<Rightarrow> int"
  assumes scans: "scan_decision (\<lambda>i. eligibleByInstanceCount (ws ! i) (cap st)) ws (fst (pick f ws st))"
    and keeps_cap: "cap (snd (pick f ws st)) = cap st"

sublocale scanning_policy \<subseteq> placement_scheduler "\<lambda>f ws st. Some (pick f ws st)" cap "\<lambda>st n. True"
proof unfold_locales
  fix ws st f d st' i
  assume ws: "leaf_workers ws" and p: "Some (pick f ws st) = Some (d, st')"
  have scan: "scan_decision (\<lambda>i. eligibleByInstanceCount (ws ! i) (cap st)) ws d"
    using scans[where ws = ws and st = st and f = f] p by simp
  show "pd_worker_id d \<noteq> 0 \<Longrightarrow> \<exists>i < length ws. eligibleByInstanceCount (ws ! i) (cap st) \<and> pd_worker_id d = of_nat (i + 1)"
    by (rule scan_decision_contract(1)[OF ws scan])
  show "i < length ws \<Longrightarrow> eligibleByInstanceCount (ws ! i) (cap st) \<Longrightarrow> pd_worker_id d \<noteq> 0"
    by (rule scan_decision_contract(2)[OF ws scan])
  show "True \<and> cap st' = cap st"
    using keeps_cap[where ws = ws and st = st and f = f] p by simp
qed fastforce

subsection \<open>Balanced round robin\<close>

lemma PickBalanced_scan:
  "scan_decision (\<lambda>i. eligibleByInstanceCount (ws ! i) (br_maxInstances b)) ws (fst (PickBalanced f ws b))"
  "br_maxInstances (snd (PickBalanced f ws b)) = br_maxInstances b"
proof -
  let ?ok = "\<lambda>i. eligibleByInstanceCount (ws ! i) (br_maxInstances b)"
  have "scan_decision ?ok ws (fst (PickBalanced f ws b)) \<and> br_maxInstances (snd (PickBalanced f ws b)) = br_maxInstances b"
  proof (cases "ws = []")
    case True
    then show ?thesis
      by (simp add: PickBalanced_def scan_decision_none)
  next
    case False
    obtain start b' where s: "NextWorkerIndex (length ws) b = (start, b')"
      by fastforce
    have b': "br_maxInstances b' = br_maxInstances b"
      using s by (auto simp: NextWorkerIndex_def split: if_splits)
    show ?thesis
    proof (cases "find ?ok (rotated start (length ws))")
      case None
      then have "\<forall>i < length ws. \<not> ?ok i"
        using False set_rotated[of "length ws" start] by (auto simp: find_None_iff)
      then show ?thesis
        using False s b' None by (simp add: PickBalanced_def scan_decision_none)
    next
      case (Some i)
      then have "i < length ws" "?ok i"
        using False set_rotated[of "length ws" start] nth_mem by (fastforce simp: find_Some_iff)+
      then show ?thesis
        using False s b' Some by (simp add: PickBalanced_def scan_decision_found)
    qed
  qed
  then show "scan_decision ?ok ws (fst (PickBalanced f ws b))"
    "br_maxInstances (snd (PickBalanced f ws b)) = br_maxInstances b"
    by auto
qed

interpretation balanced: scanning_policy PickBalanced br_maxInstances
  by unfold_locales (rule PickBalanced_scan)+

subsection \<open>Resource aware\<close>

definition least_pressure :: "int \<Rightarrow> WorkerState option list \<Rightarrow> nat set \<Rightarrow> nat option \<times> float64 \<Rightarrow> bool" where
  "least_pressure m ws seen acc \<longleftrightarrow>
     (case acc of
        (None, sc) \<Rightarrow> sc = maxFloat64 \<and> (\<forall>i \<in> seen. \<not> eligibleByInstanceCount (ws ! i) m)
      | (Some b, sc) \<Rightarrow> b \<in> seen \<and> eligibleByInstanceCount (ws ! b) m \<and> sc = observedPressure (the (ws ! b)) \<and>
          (\<forall>i \<in> seen. eligibleByInstanceCount (ws ! i) m \<longrightarrow> sc \<le> observedPressure (the (ws ! i))))"

lemma resource_step_least:
  "least_pressure m ws seen acc \<Longrightarrow> least_pressure m ws (insert i seen) (resource_step m ws acc i)"
  using observedPressure_finite[of "the (ws ! i)"]
  by (cases acc; cases "fst acc") (auto simp: least_pressure_def resource_step_def Let_def)

lemma resource_scan_least:
  "least_pressure m ws seen acc \<Longrightarrow> least_pressure m ws (seen \<union> set is) (foldl (resource_step m ws) acc is)"
proof (induction "is" arbitrary: seen acc)
  case (Cons i js)
  have "least_pressure m ws (insert i seen \<union> set js) (foldl (resource_step m ws) (resource_step m ws acc i) js)"
    by (rule Cons.IH[OF resource_step_least[OF Cons.prems]])
  then show ?case
    by simp
qed simp

lemma resource_best:
  assumes "ws \<noteq> []"
  shows "least_pressure m ws {0..<length ws} (foldl (resource_step m ws) (None, maxFloat64) (rotated start (length ws)))"
  using resource_scan_least[of m ws "{}" "(None, maxFloat64)" "rotated start (length ws)"] assms
  by (simp add: set_rotated least_pressure_def)

lemma PickResource_scan:
  "scan_decision (\<lambda>i. eligibleByInstanceCount (ws ! i) (ra_maxInstances r)) ws (fst (PickResource f ws r))"
  "ra_maxInstances (snd (PickResource f ws r)) = ra_maxInstances r"
proof -
  let ?acc = "foldl (resource_step (ra_maxInstances r) ws) (None, maxFloat64) (rotated (ra_next r) (length ws))"
  have "scan_decision (\<lambda>i. eligibleByInstanceCount (ws ! i) (ra_maxInstances r)) ws (fst (PickResource f ws r)) \<and>
    ra_maxInstances (snd (PickResource f ws r)) = ra_maxInstances r"
  proof (cases "ws = []")
    case True
    then show ?thesis
      by (simp add: PickResource_def scan_decision_none)
  next
    case False
    note best = resource_best[OF False, of "ra_maxInstances r" "ra_next r"]
    show ?thesis
    proof (cases "fst ?acc")
      case None
      then have "\<forall>i < length ws. \<not> eligibleByInstanceCount (ws ! i) (ra_maxInstances r)"
        using best by (cases ?acc) (auto simp: least_pressure_def)
      then show ?thesis
        using False None by (simp add: PickResource_def scan_decision_none)
    next
      case (Some b)
      then have "b < length ws" "eligibleByInstanceCount (ws ! b) (ra_maxInstances r)"
        using best by (cases ?acc; auto simp: least_pressure_def)+
      then show ?thesis
        using False Some by (simp add: PickResource_def scan_decision_found)
    qed
  qed
  then show "scan_decision (\<lambda>i. eligibleByInstanceCount (ws ! i) (ra_maxInstances r)) ws (fst (PickResource f ws r))"
    "ra_maxInstances (snd (PickResource f ws r)) = ra_maxInstances r"
    by auto
qed

interpretation resource: scanning_policy PickResource ra_maxInstances
  by unfold_locales (rule PickResource_scan)+

subsection \<open>Cold-start aware and image aware\<close>

lemma PickColdStart_scan:
  "scan_decision (\<lambda>i. eligibleByInstanceCount (ws ! i) (cs_maxInstances c)) ws (fst (PickColdStart f ws c))"
  "cs_maxInstances (snd (PickColdStart f ws c)) = cs_maxInstances c"
proof -
  let ?ok = "\<lambda>i. eligibleByInstanceCount (ws ! i) (cs_maxInstances c)"
  let ?c = "if cs_next c \<ge> length ws then c\<lparr>cs_next := 0\<rparr> else c"
  let ?xs = "rotated (cs_next ?c) (length ws)"
  have "scan_decision ?ok ws (fst (PickColdStart f ws c)) \<and> cs_maxInstances (snd (PickColdStart f ws c)) = cs_maxInstances c"
  proof (cases "ws = []")
    case True
    then show ?thesis
      by (simp add: PickColdStart_def scan_decision_none)
  next
    case False
    then have xs: "set ?xs = {0..<length ws}"
      by (simp add: set_rotated)
    show ?thesis
    proof (cases "foldl (cold_step ws ?ok) None ?xs")
      case None
      then have "\<forall>i < length ws. \<not> ?ok i"
        unfolding cold_step_scan cold.filtered_scan_none xs by simp
      then show ?thesis
        using False None by (simp add: PickColdStart_def scan_decision_none Let_def)
    next
      case (Some b)
      note best = cold.filtered_scan_best[OF Some[unfolded cold_step_scan]]
      have "b < length ws" "?ok b"
        using best(1,2) xs by auto
      then show ?thesis
        using False Some by (simp add: PickColdStart_def scan_decision_found Let_def)
    qed
  qed
  then show "scan_decision ?ok ws (fst (PickColdStart f ws c))" "cs_maxInstances (snd (PickColdStart f ws c)) = cs_maxInstances c"
    by auto
qed

interpretation cold_start: scanning_policy PickColdStart cs_maxInstances
  by unfold_locales (rule PickColdStart_scan)+

text \<open>The choice of the image-aware policy.\<close>

definition image_choice :: "FunctionSpec option \<Rightarrow> WorkerState option list \<Rightarrow> ImageAware \<Rightarrow> nat option \<times> nat option" where
  "image_choice f ws s =
     (let ok = (\<lambda>i. eligibleByInstanceCount (ws ! i) (ia_maxInstances s));
          hit = (\<lambda>i. FunctionImageRef f \<noteq> '''' \<and> WorkerHasCachedImage (ws ! i) (FunctionImageRef f));
          xs = rotated (if ia_next s \<ge> length ws then 0 else ia_next s) (length ws)
      in (foldl (cold_step ws (\<lambda>i. ok i \<and> hit i)) None xs, foldl (cold_step ws (\<lambda>i. ok i \<and> \<not> hit i)) None xs))"

lemma PickImage_choice:
  assumes "ws \<noteq> []"
  shows "fst (PickImage f ws s) =
    (case image_choice f ws s of
       (Some b, _) \<Rightarrow> place (ws ! b) ''image-aware-hit''
     | (None, Some b) \<Rightarrow> place (ws ! b) ''image-aware-miss''
     | (None, None) \<Rightarrow> nowhere ''no worker instance capacity'')"
    "ia_maxInstances (snd (PickImage f ws s)) = ia_maxInstances s"
  using assms
  by (auto simp: PickImage_def image_choice_def image_step_scan Let_def split: option.splits)

lemma PickImage_scan:
  "scan_decision (\<lambda>i. eligibleByInstanceCount (ws ! i) (ia_maxInstances s)) ws (fst (PickImage f ws s))"
  "ia_maxInstances (snd (PickImage f ws s)) = ia_maxInstances s"
proof -
  let ?ok = "\<lambda>i. eligibleByInstanceCount (ws ! i) (ia_maxInstances s)"
  let ?hit = "\<lambda>i. FunctionImageRef f \<noteq> '''' \<and> WorkerHasCachedImage (ws ! i) (FunctionImageRef f)"
  let ?xs = "rotated (if ia_next s \<ge> length ws then 0 else ia_next s) (length ws)"
  have "scan_decision ?ok ws (fst (PickImage f ws s)) \<and> ia_maxInstances (snd (PickImage f ws s)) = ia_maxInstances s"
  proof (cases "ws = []")
    case True
    then show ?thesis
      by (simp add: PickImage_def scan_decision_none)
  next
    case False
    then have xs: "set ?xs = {0..<length ws}"
      by (simp add: set_rotated)
    have found: "b < length ws \<and> ?ok b" if "foldl (cold_step ws (\<lambda>i. ?ok i \<and> p i)) None ?xs = Some b" for b p
      using cold.filtered_scan_best(1,2)[OF that[unfolded cold_step_scan]] xs by auto
    have none: "\<forall>i < length ws. \<not> (?ok i \<and> p i)" if "foldl (cold_step ws (\<lambda>i. ?ok i \<and> p i)) None ?xs = None" for p
      using that unfolding cold_step_scan cold.filtered_scan_none xs by simp
    show ?thesis
    proof (cases "image_choice f ws s")
      case (Pair hitBest missBest)
      then have h: "foldl (cold_step ws (\<lambda>i. ?ok i \<and> ?hit i)) None ?xs = hitBest"
        and m: "foldl (cold_step ws (\<lambda>i. ?ok i \<and> \<not> ?hit i)) None ?xs = missBest"
        by (auto simp: image_choice_def Let_def)
      have "scan_decision ?ok ws (fst (PickImage f ws s))"
      proof (cases hitBest)
        case (Some b)
        then have "b < length ws" "?ok b"
          using found[of ?hit b] h by auto
        then show ?thesis
          using Some by (simp add: PickImage_choice[OF False] Pair scan_decision_found)
      next
        case None
        note noHit = none[of ?hit, OF h[unfolded None]]
        show ?thesis
        proof (cases missBest)
          case (Some b)
          then have "b < length ws" "?ok b"
            using found[of "\<lambda>i. \<not> ?hit i" b] m by auto
          then show ?thesis
            using Some None by (simp add: PickImage_choice[OF False] Pair scan_decision_found)
        next
          case none2: None
          have "\<forall>i < length ws. \<not> ?ok i"
            using noHit none[of "\<lambda>i. \<not> ?hit i", OF m[unfolded none2]] by blast
          then show ?thesis
            using none2 None by (simp add: PickImage_choice[OF False] Pair scan_decision_none)
        qed
      qed
      then show ?thesis
        using PickImage_choice(2)[OF False] by blast
    qed
  qed
  then show "scan_decision ?ok ws (fst (PickImage f ws s))" "ia_maxInstances (snd (PickImage f ws s)) = ia_maxInstances s"
    by auto
qed

interpretation image_aware: scanning_policy PickImage ia_maxInstances
  by unfold_locales (rule PickImage_scan)+

subsection \<open>Reservation aware\<close>

text \<open>
  What the policy relies on of the random source: an index is below its bound, and a source with at
  least two outcomes does not return the same one forever.
\<close>

definition random_source :: "(nat \<Rightarrow> nat \<Rightarrow> nat) \<Rightarrow> bool" where
  "random_source rnd \<longleftrightarrow>
     (\<forall>k n. 0 < n \<longrightarrow> rnd k n < n) \<and> (\<forall>k n v. 1 < n \<longrightarrow> (\<exists>d. rnd (k + d) n \<noteq> v))"

lemma random_sourceD:
  assumes "random_source rnd"
  shows "0 < n \<Longrightarrow> rnd k n < n" "1 < n \<Longrightarrow> \<exists>d. rnd (k + d) n \<noteq> v"
  using assms unfolding random_source_def by blast+

lemma draw_second_returns:
  "idxs ! rnd (k + d) (length idxs) \<noteq> one \<Longrightarrow>
     \<exists>j \<ge> k. draw_second rnd idxs one k = Some (idxs ! rnd j (length idxs), j + 1) \<and> idxs ! rnd j (length idxs) \<noteq> one"
proof (induction d arbitrary: k)
  case 0
  then show ?case
    by (intro exI[of _ k]) (simp add: draw_second.simps[of rnd idxs one k] Let_def)
next
  case (Suc d)
  show ?case
  proof (cases "idxs ! rnd k (length idxs) = one")
    case True
    obtain j where "j \<ge> k + 1" "draw_second rnd idxs one (k + 1) = Some (idxs ! rnd j (length idxs), j + 1)"
      "idxs ! rnd j (length idxs) \<noteq> one"
      using Suc.IH[of "k + 1"] Suc.prems by auto
    then show ?thesis
      using True by (intro exI[of _ j]) (simp add: draw_second.simps[of rnd idxs one k] Let_def)
  next
    case False
    then show ?thesis
      by (intro exI[of _ k]) (simp add: draw_second.simps[of rnd idxs one k] Let_def)
  qed
qed

lemma eligibleIndexes_set: "set (eligibleIndexes m ws) = {i. i < length ws \<and> eligibleByInstanceCount (ws ! i) m}"
  by (auto simp: eligibleIndexes_def)

lemma eligibleIndexes_distinct: "distinct (eligibleIndexes m ws)"
  by (simp add: eligibleIndexes_def)

text \<open>With such a source the policy returns and picks one of the eligible workers.\<close>

lemma PickReservation_returns:
  assumes rnd: "random_source (randomIndex r)"
  shows "\<exists>d r'. PickReservation f ws r = Some (d, r') \<and>
    scan_decision (\<lambda>i. eligibleByInstanceCount (ws ! i) (rv_maxInstances r)) ws d \<and>
    randomIndex r' = randomIndex r \<and> rv_maxInstances r' = rv_maxInstances r"
proof -
  let ?idxs = "eligibleIndexes (rv_maxInstances r) ws" and ?rnd = "randomIndex r"
  let ?one = "?idxs ! ?rnd (drawn r) (length ?idxs)"
  have picked: "i < length ws \<and> eligibleByInstanceCount (ws ! i) (rv_maxInstances r)" if "i \<in> set ?idxs" for i
    using that by (simp add: eligibleIndexes_set)
  have drawnIn: "?idxs ! ?rnd k (length ?idxs) \<in> set ?idxs" if "?idxs \<noteq> []" for k
    using random_sourceD(1)[OF rnd] that by (intro nth_mem) simp
  show ?thesis
  proof (cases "ws = [] \<or> ?idxs = []")
    case True
    have "?idxs = []"
      using True by (auto simp: eligibleIndexes_def)
    then have none: "\<forall>i < length ws. \<not> eligibleByInstanceCount (ws ! i) (rv_maxInstances r)"
      using eligibleIndexes_set[of "rv_maxInstances r" ws] by simp
    show ?thesis
      using \<open>?idxs = []\<close> scan_decision_none[OF none] by (cases "ws = []") (simp_all add: PickReservation_def scan_decision_def)
  next
    case False
    show ?thesis
    proof (cases "length ?idxs > 1")
      case True
      obtain d where "?rnd (drawn r + 1 + d) (length ?idxs) \<noteq> ?rnd (drawn r) (length ?idxs)"
        using random_sourceD(2)[OF rnd True] by blast
      then have "?idxs ! ?rnd (drawn r + 1 + d) (length ?idxs) \<noteq> ?one"
        using False by (subst nth_eq_iff_index_eq) (simp_all add: eligibleIndexes_distinct random_sourceD(1)[OF rnd])
      then obtain j where j: "draw_second ?rnd ?idxs ?one (drawn r + 1) = Some (?idxs ! ?rnd j (length ?idxs), j + 1)"
        using draw_second_returns by blast
      define best where "best = (if score_less (coldStartScore (ws ! (?idxs ! ?rnd j (length ?idxs)))) (coldStartScore (ws ! ?one))
        then ?idxs ! ?rnd j (length ?idxs) else ?one)"
      have "best \<in> set ?idxs"
        using drawnIn False by (simp add: best_def)
      moreover have "PickReservation f ws r = Some (place (ws ! best) ''reservation-aware'', r\<lparr>drawn := j + 1\<rparr>)"
        using False True j by (simp add: PickReservation_def Let_def best_def)
      ultimately show ?thesis
        using scan_decision_found[of best ws "rv_maxInstances r"] picked[of best] by simp
    next
      case one: False
      have "PickReservation f ws r = Some (place (ws ! ?one) ''reservation-aware'', r\<lparr>drawn := drawn r + 1\<rparr>)"
        using False one by (simp add: PickReservation_def Let_def)
      then show ?thesis
        using scan_decision_found[of ?one ws "rv_maxInstances r"] picked[OF drawnIn] False by simp
    qed
  qed
qed

interpretation reservation: placement_scheduler PickReservation rv_maxInstances "\<lambda>r n. random_source (randomIndex r)"
proof unfold_locales
  fix ws :: "WorkerState option list" and st :: ReservationAware and f
  assume "random_source (randomIndex st)"
  then show "\<exists>d st'. PickReservation f ws st = Some (d, st')"
    using PickReservation_returns by blast
next
  fix ws :: "WorkerState option list" and st st' :: ReservationAware and f d i
  assume ws: "leaf_workers ws" and r: "random_source (randomIndex st)" and p: "PickReservation f ws st = Some (d, st')"
  have scan: "scan_decision (\<lambda>i. eligibleByInstanceCount (ws ! i) (rv_maxInstances st)) ws d"
    and keep: "randomIndex st' = randomIndex st" "rv_maxInstances st' = rv_maxInstances st"
    using PickReservation_returns[OF r, of f ws] p by auto
  show "pd_worker_id d \<noteq> 0 \<Longrightarrow> \<exists>i < length ws. eligibleByInstanceCount (ws ! i) (rv_maxInstances st) \<and> pd_worker_id d = of_nat (i + 1)"
    by (rule scan_decision_contract(1)[OF ws scan])
  show "i < length ws \<Longrightarrow> eligibleByInstanceCount (ws ! i) (rv_maxInstances st) \<Longrightarrow> pd_worker_id d \<noteq> 0"
    by (rule scan_decision_contract(2)[OF ws scan])
  show "random_source (randomIndex st') \<and> rv_maxInstances st' = rv_maxInstances st"
    using keep r by simp
qed

subsection \<open>Bounded loads\<close>

definition worker_at :: "WorkerState option list \<Rightarrow> u64 \<Rightarrow> WorkerState option" where
  "worker_at ws uid = (if 0 < unat uid \<and> unat uid \<le> length ws then ws ! (unat uid - 1) else None)"

lemma leaf_workers_snoc: "leaf_workers (ws @ [x]) \<Longrightarrow> leaf_workers ws \<and> (\<exists>w. x = Some w \<and> worker_id w = of_nat (length ws + 1))"
  by (auto simp: leaf_workers_def nth_append) (metis lessI less_SucI nth_append order_less_irrefl)

lemma unat_index: "n < 2 ^ 63 \<Longrightarrow> unat (of_nat (n + 1) :: u64) = n + 1"
  by (subst unat_of_nat) simp

lemma index_step_fst: "worker_id w \<noteq> 0 \<Longrightarrow> fst (index_step m bd acc (Some w)) = AList.update (worker_id w) w (fst acc)"
  by (cases acc) (simp add: index_step_def)

lemma byID_lookup:
  "leaf_workers ws \<Longrightarrow> map_of (fst (foldl (index_step m bd) ([], []) ws)) uid = worker_at ws uid"
proof (induction ws rule: rev_induct)
  case (snoc x ws)
  obtain w where x: "x = Some w" "worker_id w = of_nat (length ws + 1)" and ws: "leaf_workers ws"
    using leaf_workers_snoc[OF snoc.prems] by blast
  have n: "length ws < 2 ^ 63"
    using snoc.prems by (simp add: leaf_workers_def)
  have nz: "worker_id w \<noteq> 0"
    using unat_index[OF n] x(2) by (metis add_is_0 one_neq_zero unat_0)
  have same: "uid = worker_id w \<longleftrightarrow> unat uid = length ws + 1"
    using unat_index[OF n] x(2) by (metis unsigned_word_eqI)
  have "map_of (fst (foldl (index_step m bd) ([], []) (ws @ [x]))) uid =
      (if uid = worker_id w then Some w else worker_at ws uid)"
    using snoc.IH[OF ws] x(1) nz by (simp add: index_step_fst map_of_update_iff)
  also have "\<dots> = worker_at (ws @ [x]) uid"
    unfolding same using x(1) by (auto simp: worker_at_def nth_append)
  finally show ?case .
qed (auto simp: worker_at_def)

lemma worker_at_eligible:
  assumes "eligibleByInstanceCount (worker_at ws uid) m"
  shows "\<exists>i < length ws. eligibleByInstanceCount (ws ! i) m \<and> uid = of_nat (i + 1)" "uid \<noteq> 0"
proof -
  have "worker_at ws uid \<noteq> None"
    using assms by (auto dest: eligible_worker)
  then have u: "0 < unat uid" "unat uid \<le> length ws"
    by (auto simp: worker_at_def split: if_splits)
  then show "uid \<noteq> 0"
    by auto
  have "uid = of_nat (unat uid - 1 + 1)"
    using u by simp
  then show "\<exists>i < length ws. eligibleByInstanceCount (ws ! i) m \<and> uid = of_nat (i + 1)"
    using assms u by (intro exI[of _ "unat uid - 1"]) (auto simp: worker_at_def)
qed

lemma eligible_worker_at:
  assumes "leaf_workers ws" "i < length ws"
  shows "worker_at ws (of_nat (i + 1)) = ws ! i"
proof -
  have "unat (of_nat (i + 1) :: u64) = i + 1"
    using assms by (intro unat_index) (simp add: leaf_workers_def)
  then show ?thesis
    using assms(2) by (simp add: worker_at_def)
qed

definition ring_for :: "BoundedLoads \<Rightarrow> nat \<Rightarrow> bool" where
  "ring_for b n \<longleftrightarrow> ring b = NewRing (map (\<lambda>i. of_nat (i + 1)) [0..<n])"

lemma NewBoundedLoads_ring: "ring_for (NewBoundedLoads n m bd chain) n"
  by (simp add: ring_for_def NewBoundedLoads_def)

lemma ids_ring_for: "ring_for b n \<Longrightarrow> i < n \<Longrightarrow> of_nat (i + 1) \<in> set (ids (ring b))"
  by (auto simp: ring_for_def NewRing_def Let_def)

lemma leastLoaded_found:
  assumes ws: "leaf_workers ws" and rg: "ring_for b (length ws)"
    and i: "i < length ws" "eligibleByInstanceCount (ws ! i) m"
    and byID: "\<And>uid. map_of byID uid = worker_at ws uid"
  shows "eligibleByInstanceCount (worker_at ws (leastLoadedEligible (ids (ring b)) loads byID m)) m"
proof -
  let ?ok = "\<lambda>uid. eligibleByInstanceCount (map_of byID uid) m"
  have "?ok (of_nat (i + 1))"
    unfolding byID eligible_worker_at[OF ws i(1)] by (rule i(2))
  then have "foldl (eligible_step loads byID m) None (ids (ring b)) \<noteq> None"
    unfolding eligible_step_scan ll.filtered_scan_none using ids_ring_for[OF rg i(1)] by blast
  then obtain best where best: "foldl (eligible_step loads byID m) None (ids (ring b)) = Some best"
    by blast
  have "?ok best"
    by (rule ll.filtered_scan_best(2)[OF best[unfolded eligible_step_scan]])
  then show ?thesis
    using best by (simp add: leastLoadedEligible_def byID)
qed

text \<open>The ID the policy settles on: the ID of the walk when it is eligible, else the least loaded one.\<close>

definition bounded_choice :: "FunctionSpec option \<Rightarrow> WorkerState option list \<Rightarrow> BoundedLoads \<Rightarrow> u64" where
  "bounded_choice f ws b =
     (let (byID, loads) = foldl (index_step (bl_maxInstances b) (bound b)) ([], []) ws;
          functionID = (case f of None \<Rightarrow> 0 | Some fn \<Rightarrow> fn_function_id fn);
          uid = fst (Forward (Some (ring b)) loads (bound b) (maxChainLen b) (Home (ring b) functionID))
      in if eligibleByInstanceCount (map_of byID uid) (bl_maxInstances b) then uid
         else leastLoadedEligible (ids (ring b)) loads byID (bl_maxInstances b))"

lemma PickBounded_choice:
  assumes "leaf_workers ws" "ws \<noteq> []"
  shows "pd_worker_id (PickBounded f ws b) =
    (if eligibleByInstanceCount (worker_at ws (bounded_choice f ws b)) (bl_maxInstances b) then bounded_choice f ws b else 0)"
proof -
  obtain byID loads where acc: "foldl (index_step (bl_maxInstances b) (bound b)) ([], []) ws = (byID, loads)"
    by fastforce
  have at: "map_of byID uid = worker_at ws uid" for uid
    using byID_lookup[OF assms(1), of "bl_maxInstances b" "bound b" uid] acc by simp
  have "worker_at ws 1 = ws ! 0" "ws ! 0 \<noteq> None"
    using assms eligible_worker_at[OF assms(1), of 0] by (auto simp: leaf_workers_def)
  then have "byID \<noteq> []"
    using at[of 1] by auto
  then show ?thesis
    by (simp add: PickBounded_def bounded_choice_def acc at Let_def nowhere_def split: prod.splits)
qed

lemma bounded_choice_eligible:
  assumes ws: "leaf_workers ws" and rg: "ring_for b (length ws)"
    and i: "i < length ws" "eligibleByInstanceCount (ws ! i) (bl_maxInstances b)"
  shows "eligibleByInstanceCount (worker_at ws (bounded_choice f ws b)) (bl_maxInstances b)"
proof -
  obtain byID loads where acc: "foldl (index_step (bl_maxInstances b) (bound b)) ([], []) ws = (byID, loads)"
    by fastforce
  have at: "map_of byID uid = worker_at ws uid" for uid
    using byID_lookup[OF ws, of "bl_maxInstances b" "bound b" uid] acc by simp
  show ?thesis
    using leastLoaded_found[OF ws rg i at] by (simp add: bounded_choice_def acc at Let_def)
qed

interpretation bounded: placement_scheduler "\<lambda>f ws b. Some (PickBounded f ws b, b)" bl_maxInstances ring_for
proof unfold_locales
  fix ws st f d st' i
  assume ws: "leaf_workers ws" and rg: "ring_for st (length ws)" and p: "Some (PickBounded f ws st, st) = Some (d, st')"
  then have d: "d = PickBounded f ws st" "st' = st"
    by auto
  show "\<exists>i < length ws. eligibleByInstanceCount (ws ! i) (bl_maxInstances st) \<and> pd_worker_id d = of_nat (i + 1)"
    if nz: "pd_worker_id d \<noteq> 0"
  proof -
    have "ws \<noteq> []"
      using nz d by (auto simp: PickBounded_def)
    then have "eligibleByInstanceCount (worker_at ws (pd_worker_id d)) (bl_maxInstances st)"
      using nz PickBounded_choice[OF ws] d by (metis (full_types))
    then show ?thesis
      by (rule worker_at_eligible(1))
  qed
  show "pd_worker_id d \<noteq> 0" if i: "i < length ws" "eligibleByInstanceCount (ws ! i) (bl_maxInstances st)"
  proof -
    have "eligibleByInstanceCount (worker_at ws (bounded_choice f ws st)) (bl_maxInstances st)"
      by (rule bounded_choice_eligible[OF ws rg i])
    moreover have "ws \<noteq> []"
      using i by auto
    ultimately show ?thesis
      using PickBounded_choice[OF ws, of f st] d worker_at_eligible(2) by simp
  qed
  show "ring_for st' (length ws) \<and> bl_maxInstances st' = bl_maxInstances st"
    using d rg by simp
qed fastforce

subsection \<open>The configured policy\<close>

fun scheduler_cap :: "scheduler \<Rightarrow> int" where
  "scheduler_cap (SBalanced b) = br_maxInstances b"
| "scheduler_cap (SResource r) = ra_maxInstances r"
| "scheduler_cap (SColdStart c) = cs_maxInstances c"
| "scheduler_cap (SReservation r) = rv_maxInstances r"
| "scheduler_cap (SImage i) = ia_maxInstances i"
| "scheduler_cap (SBounded b) = bl_maxInstances b"

fun scheduler_serves :: "scheduler \<Rightarrow> nat \<Rightarrow> bool" where
  "scheduler_serves (SReservation r) n = random_source (randomIndex r)"
| "scheduler_serves (SBounded b) n = ring_for b n"
| "scheduler_serves _ n = True"

lemma PickWorker_elim:
  assumes "PickWorker f ws st = Some (d, st')"
  obtains (pBalanced) b b' where "st = SBalanced b" "st' = SBalanced b'" "Some (PickBalanced f ws b) = Some (d, b')"
    | (pResource) r r' where "st = SResource r" "st' = SResource r'" "Some (PickResource f ws r) = Some (d, r')"
    | (pColdStart) c c' where "st = SColdStart c" "st' = SColdStart c'" "Some (PickColdStart f ws c) = Some (d, c')"
    | (pReservation) v v' where "st = SReservation v" "st' = SReservation v'" "PickReservation f ws v = Some (d, v')"
    | (pImage) i i' where "st = SImage i" "st' = SImage i'" "Some (PickImage f ws i) = Some (d, i')"
    | (pBounded) l where "st = SBounded l" "st' = SBounded l" "Some (PickBounded f ws l, l) = Some (d, l)"
  using assms by (cases st) (auto simp: map_prod_def split: prod.splits)

interpretation configured: placement_scheduler PickWorker scheduler_cap scheduler_serves
proof unfold_locales
  fix ws st f
  assume "leaf_workers ws" "scheduler_serves st (length ws)"
  then show "\<exists>d st'. PickWorker f ws st = Some (d, st')"
    using reservation.returns by (cases st) (auto simp: map_prod_def split: prod.splits)
next
  fix ws st f d st'
  assume ws: "leaf_workers ws" and s: "scheduler_serves st (length ws)" and p: "PickWorker f ws st = Some (d, st')"
    and nz: "pd_worker_id d \<noteq> 0"
  from p show "\<exists>i < length ws. eligibleByInstanceCount (ws ! i) (scheduler_cap st) \<and> pd_worker_id d = of_nat (i + 1)"
  proof (cases rule: PickWorker_elim)
    case (pBalanced b b') then show ?thesis using balanced.picks_eligible[OF ws _ _ nz] by simp
  next
    case (pResource r r') then show ?thesis using resource.picks_eligible[OF ws _ _ nz] by simp
  next
    case (pColdStart c c') then show ?thesis using cold_start.picks_eligible[OF ws _ _ nz] by simp
  next
    case (pReservation v v') then show ?thesis using reservation.picks_eligible[OF ws _ _ nz] s by simp
  next
    case (pImage i i') then show ?thesis using image_aware.picks_eligible[OF ws _ _ nz] by simp
  next
    case (pBounded l) then show ?thesis using bounded.picks_eligible[OF ws _ _ nz] s by simp
  qed
next
  fix ws st f d st' j
  assume ws: "leaf_workers ws" and s: "scheduler_serves st (length ws)" and p: "PickWorker f ws st = Some (d, st')"
    and j: "j < length ws" and e: "eligibleByInstanceCount (ws ! j) (scheduler_cap st)"
  from p show "pd_worker_id d \<noteq> 0"
  proof (cases rule: PickWorker_elim)
    case (pBalanced b b') then show ?thesis using balanced.picks_if_possible[OF ws _ _ j] e by simp
  next
    case (pResource r r') then show ?thesis using resource.picks_if_possible[OF ws _ _ j] e by simp
  next
    case (pColdStart c c') then show ?thesis using cold_start.picks_if_possible[OF ws _ _ j] e by simp
  next
    case (pReservation v v') then show ?thesis using reservation.picks_if_possible[OF ws _ _ j] e s by simp
  next
    case (pImage i i') then show ?thesis using image_aware.picks_if_possible[OF ws _ _ j] e by simp
  next
    case (pBounded l) then show ?thesis using bounded.picks_if_possible[OF ws _ _ j] e s by simp
  qed
next
  fix ws st f d st'
  assume ws: "leaf_workers ws" and s: "scheduler_serves st (length ws)" and p: "PickWorker f ws st = Some (d, st')"
  from p show "scheduler_serves st' (length ws) \<and> scheduler_cap st' = scheduler_cap st"
  proof (cases rule: PickWorker_elim)
    case (pBalanced b b') then show ?thesis using balanced.keeps_serving[OF ws] by simp
  next
    case (pResource r r') then show ?thesis using resource.keeps_serving[OF ws] by simp
  next
    case (pColdStart c c') then show ?thesis using cold_start.keeps_serving[OF ws] by simp
  next
    case (pReservation v v') then show ?thesis using reservation.keeps_serving[OF ws] s by simp
  next
    case (pImage i i') then show ?thesis using image_aware.keeps_serving[OF ws] by simp
  next
    case (pBounded l) then show ?thesis using s by simp
  qed
qed

lemma NewFromConfig_serves:
  "NewFromConfig rnd cfg n m = Inr st \<Longrightarrow> random_source rnd \<Longrightarrow> scheduler_serves st n \<and> scheduler_cap st = m"
  by (auto simp: NewFromConfig_def NewBoundedLoads_def ring_for_def split: option.splits placement_policy.splits if_splits)

subsection \<open>Sequences of decisions\<close>

fun pick_run ::
  "(FunctionSpec option \<times> WorkerState option list) list \<Rightarrow> scheduler \<Rightarrow> (PlacementDecision list \<times> scheduler) option" where
  "pick_run [] st = Some ([], st)"
| "pick_run ((f, ws) # calls) st =
     (case PickWorker f ws st of
        None \<Rightarrow> None
      | Some (d, st') \<Rightarrow> map_option (map_prod ((#) d) id) (pick_run calls st'))"

definition right_choice :: "int \<Rightarrow> WorkerState option list \<Rightarrow> PlacementDecision \<Rightarrow> bool" where
  "right_choice m ws d \<longleftrightarrow>
     (if \<exists>i < length ws. eligibleByInstanceCount (ws ! i) m
      then pd_worker_id d \<noteq> 0 \<and> unat (pd_worker_id d) - 1 < length ws \<and>
           eligibleByInstanceCount (ws ! (unat (pd_worker_id d) - 1)) m
      else pd_worker_id d = 0)"

lemma pick_run_right:
  assumes "\<And>f ws. (f, ws) \<in> set calls \<Longrightarrow> leaf_workers ws \<and> length ws = n" "scheduler_serves st n"
  shows "\<exists>ds st'. pick_run calls st = Some (ds, st') \<and> list_all2 (\<lambda>c d. right_choice (scheduler_cap st) (snd c) d) calls ds"
  using assms
proof (induction calls arbitrary: st)
  case (Cons c calls)
  obtain f ws where c: "c = (f, ws)"
    by (cases c)
  have ws: "leaf_workers ws" "scheduler_serves st (length ws)"
    using Cons.prems c by auto
  obtain d st1 where p: "PickWorker f ws st = Some (d, st1)"
    using configured.returns[OF ws] by blast
  have k: "scheduler_serves st1 n" "scheduler_cap st1 = scheduler_cap st"
    using configured.keeps_serving[OF ws p] Cons.prems(1) c by auto
  obtain ds st' where r: "pick_run calls st1 = Some (ds, st')" "list_all2 (\<lambda>c d. right_choice (scheduler_cap st) (snd c) d) calls ds"
    using Cons.IH[of st1] Cons.prems(1) k by auto
  have "right_choice (scheduler_cap st) ws d"
    using configured.picks_eligible[OF ws p] configured.picks_if_possible[OF ws p] configured.index_of_pick[OF ws p]
    by (auto simp: right_choice_def)
  then show ?case
    using c p r by auto
qed simp

subsection \<open>Signals\<close>

lemma project_simps [simp]:
  "worker_id (project n w) = worker_id w" "healthy (project n w) = healthy w" "schedulable (project n w) = schedulable w"
  "instances (project n w) = instances w" "capacity (project n w) = capacity w" "allocated (project n w) = allocated w"
  "cold_starts_in_flight (project n w) = cold_starts_in_flight w"
  by (simp_all add: project_def)

lemma eligible_project [simp]: "eligibleByInstanceCount (map_option (project n) w) m = eligibleByInstanceCount w m"
  by (cases w) (simp_all add: eligibleByInstanceCount_def)

lemma pressure_project [simp]: "observedPressure (project n w) = observedPressure w"
  by (simp add: observedPressure_def split: option.split)

lemma score_project [simp]: "coldStartScore (map_option (project n) w) = coldStartScore w"
  by (cases w) (simp_all add: coldStartScore_def)

lemma place_project [simp]: "place (map_option (project n) w) r = place w r"
  by (cases w) (simp_all add: place_def)

abbreviation gated :: "PlacementNeeds \<Rightarrow> WorkerState option list \<Rightarrow> WorkerState option list" where
  "gated n ws \<equiv> map (map_option (project n)) ws"

lemma find_cong_set: "(\<And>x. x \<in> set xs \<Longrightarrow> P x = Q x) \<Longrightarrow> find P xs = find Q xs"
  by (induction xs) auto

lemma foldl_cong_set: "(\<And>a x. x \<in> set xs \<Longrightarrow> f a x = g a x) \<Longrightarrow> foldl f a xs = foldl g a xs"
  by (induction xs arbitrary: a) auto

lemma rotated_lt: "0 < n \<Longrightarrow> x \<in> set (rotated s n) \<Longrightarrow> x < n"
  using set_rotated[of n s] by auto

lemma PickBalanced_gated: "PickBalanced f (gated n ws) b = PickBalanced f ws b"
proof (cases "ws = []")
  case False
  have "find (\<lambda>i. eligibleByInstanceCount (gated n ws ! i) m) (rotated s (length ws)) =
      find (\<lambda>i. eligibleByInstanceCount (ws ! i) m) (rotated s (length ws))" for s m
    using False by (intro find_cong_set) (simp add: rotated_lt)
  moreover have "i < length ws" if "find (\<lambda>i. eligibleByInstanceCount (ws ! i) m) (rotated s (length ws)) = Some i" for i s m
    using that False rotated_lt[of "length ws" i s] nth_mem by (fastforce simp: find_Some_iff)
  ultimately show ?thesis
    using False by (auto simp: PickBalanced_def Let_def split: prod.splits option.splits)
qed (simp add: PickBalanced_def)

lemma scan_in_range:
  assumes "ws \<noteq> []" "fst (foldl (resource_step m ws) (None, maxFloat64) (rotated s (length ws))) = Some i"
  shows "i < length ws"
  using resource_best[OF assms(1), of m s] assms(2)
  by (cases "foldl (resource_step m ws) (None, maxFloat64) (rotated s (length ws))") (auto simp: least_pressure_def)

lemma PickResource_gated: "PickResource f (gated n ws) r = PickResource f ws r"
proof (cases "ws = []")
  case False
  have step: "resource_step m (gated n ws) acc i = resource_step m ws acc i" if "i < length ws" for m acc i
    using that by (cases "ws ! i") (auto simp: resource_step_def eligibleByInstanceCount_def split: prod.splits)
  have "foldl (resource_step m (gated n ws)) a (rotated s (length ws)) = foldl (resource_step m ws) a (rotated s (length ws))" for m a s
    using False by (intro foldl_cong_set step) (simp add: rotated_lt)
  then show ?thesis
    using False scan_in_range[OF False] by (auto simp: PickResource_def Let_def split: option.splits)
qed (simp add: PickResource_def)

lemma cold_scan_range:
  assumes "ws \<noteq> []" "foldl (cold_step ws ok) None (rotated s (length ws)) = Some i"
  shows "i < length ws"
  using cold.filtered_scan_best(1)[OF assms(2)[unfolded cold_step_scan]] assms(1) by (auto dest: rotated_lt[rotated])

lemma cold_scan_gated:
  assumes "ws \<noteq> []" "\<And>i. i < length ws \<Longrightarrow> ok' i = ok i"
  shows "foldl (cold_step (gated n ws) ok') None (rotated s (length ws)) = foldl (cold_step ws ok) None (rotated s (length ws))"
proof -
  have "foldl (cold_step (gated n ws) ok') a xs = foldl (cold_step ws ok) a xs"
    if "set xs \<subseteq> {0..<length ws}" "\<And>b. a = Some b \<Longrightarrow> b < length ws" for a xs
    using that
  proof (induction xs arbitrary: a)
    case (Cons x xs)
    have "cold_step (gated n ws) ok' a x = cold_step ws ok a x"
      using Cons.prems assms(2)[of x] by (cases a) (auto simp: cold_step_def)
    then show ?case
      using Cons by (auto simp: cold_step_def split: option.splits if_splits)
  qed simp
  from this[of "rotated s (length ws)" None] show ?thesis
    using assms(1) by (simp add: set_rotated)
qed

lemma PickColdStart_gated: "PickColdStart f (gated n ws) c = PickColdStart f ws c"
proof (cases "ws = []")
  case False
  let ?ok = "\<lambda>m i. eligibleByInstanceCount (ws ! i) m"
  have "foldl (cold_step (gated n ws) (\<lambda>i. eligibleByInstanceCount (gated n ws ! i) m)) None (rotated s (length ws)) =
      foldl (cold_step ws (?ok m)) None (rotated s (length ws))" for m s
    using False by (intro cold_scan_gated) simp_all
  then show ?thesis
    using False cold_scan_range[OF False] by (auto simp: PickColdStart_def Let_def split: option.splits)
qed (simp add: PickColdStart_def)

lemma Has_needs [simp]: "Has NeedWorkerImages NeedWorkerImages" "Has NeedWorkerLoad NeedWorkerLoad"
  by (simp_all add: Has_def)

lemma cached_project: "Has n NeedWorkerImages \<Longrightarrow> WorkerHasCachedImage (map_option (project n) w) im = WorkerHasCachedImage w im"
  by (cases w) (simp_all add: WorkerHasCachedImage_def project_def)

lemma PickImage_gated:
  assumes "Has n NeedWorkerImages"
  shows "PickImage f (gated n ws) s = PickImage f ws s"
proof (cases "ws = []")
  case False
  let ?ok = "\<lambda>ws m i. eligibleByInstanceCount (ws ! i) m"
  let ?hit = "\<lambda>ws i. FunctionImageRef f \<noteq> '''' \<and> WorkerHasCachedImage (ws ! i) (FunctionImageRef f)"
  have "foldl (cold_step (gated n ws) (\<lambda>i. ?ok (gated n ws) m i \<and> ?hit (gated n ws) i)) None (rotated k (length ws)) =
      foldl (cold_step ws (\<lambda>i. ?ok ws m i \<and> ?hit ws i)) None (rotated k (length ws))"
    "foldl (cold_step (gated n ws) (\<lambda>i. ?ok (gated n ws) m i \<and> \<not> ?hit (gated n ws) i)) None (rotated k (length ws)) =
      foldl (cold_step ws (\<lambda>i. ?ok ws m i \<and> \<not> ?hit ws i)) None (rotated k (length ws))" for m k
    by (rule cold_scan_gated[OF False]; simp add: cached_project[OF assms])+
  then have fold: "foldl (image_step (gated n ws) (?ok (gated n ws) m) (?hit (gated n ws))) (None, None) (rotated k (length ws)) =
      foldl (image_step ws (?ok ws m) (?hit ws)) (None, None) (rotated k (length ws))" for m k
    unfolding image_step_scan by simp
  have range: "b < length ws" if "foldl (image_step ws (?ok ws m) (?hit ws)) (None, None) (rotated k (length ws)) = (h, q)"
      "h = Some b \<or> q = Some b" for m k h q b
    using that cold_scan_range[OF False] unfolding image_step_scan by auto
  show ?thesis
  proof (cases "foldl (image_step ws (?ok ws (ia_maxInstances s)) (?hit ws)) (None, None)
      (rotated (ia_next (if ia_next s \<ge> length ws then s\<lparr>ia_next := 0\<rparr> else s)) (length ws))")
    case (Pair h q)
    note r = range[OF Pair]
    show ?thesis
      using False Pair r by (simp add: PickImage_def Let_def fold split: option.splits)
  qed
qed (simp add: PickImage_def)

lemma eligibleIndexes_gated: "eligibleIndexes m (gated n ws) = eligibleIndexes m ws"
  by (auto simp: eligibleIndexes_def intro!: filter_cong)

lemma PickReservation_gated:
  assumes "random_source (randomIndex r)"
  shows "PickReservation f (gated n ws) r = PickReservation f ws r"
proof -
  let ?idxs = "eligibleIndexes (rv_maxInstances r) ws"
  have inside: "?idxs ! randomIndex r k (length ?idxs) < length ws" if "?idxs \<noteq> []" for k
  proof -
    have "?idxs ! randomIndex r k (length ?idxs) \<in> set ?idxs"
      using random_sourceD(1)[OF assms] that by (intro nth_mem) simp
    then show ?thesis
      by (simp add: eligibleIndexes_set)
  qed
  show ?thesis
  proof (cases "?idxs = []")
    case True
    then show ?thesis
      by (simp add: PickReservation_def eligibleIndexes_gated)
  next
    case False
    have "second < length ws" if d: "draw_second (randomIndex r) ?idxs one k = Some (second, k')" "length ?idxs > 1" for one k second k'
    proof -
      show ?thesis
      proof (cases "\<exists>e. ?idxs ! randomIndex r (k + e) (length ?idxs) \<noteq> one")
        case True
        then show ?thesis
          using draw_second_returns inside[OF False] d(1) by fastforce
      next
        case same: False
        have "randomIndex r (k + e) (length ?idxs) = randomIndex r k (length ?idxs)" for e
        proof -
          have "?idxs ! randomIndex r (k + e) (length ?idxs) = ?idxs ! randomIndex r (k + 0) (length ?idxs)"
            using same by metis
          then show ?thesis
            using False random_sourceD(1)[OF assms] by (subst (asm) nth_eq_iff_index_eq) (simp_all add: eligibleIndexes_distinct)
        qed
        then show ?thesis
          using random_sourceD(2)[OF assms d(2)] by blast
      qed
    qed
    then show ?thesis
      using False inside[OF False]
      by (auto simp: PickReservation_def eligibleIndexes_gated Let_def split: option.splits prod.splits)
  qed
qed

definition gate_map :: "PlacementNeeds \<Rightarrow> (u64, WorkerState) gomap \<Rightarrow> (u64, WorkerState) gomap" where
  "gate_map n m = map (\<lambda>(k, w). (k, project n w)) m"

lemma gate_map_update: "AList.update k (project n v) (gate_map n m) = gate_map n (AList.update k v m)"
  by (induction m) (auto simp: gate_map_def)

lemma gate_map_lookup [simp]: "map_of (gate_map n m) k = map_option (project n) (map_of m k)"
  by (induction m) (auto simp: gate_map_def)

lemma gate_map_Nil [simp]: "gate_map n m = [] \<longleftrightarrow> m = []" "gate_map n [] = []"
  by (simp_all add: gate_map_def)

lemma index_step_gated:
  assumes "Has n NeedWorkerLoad"
  shows "index_step m bd (gate_map n byID, loads) (map_option (project n) w) =
    (gate_map n (fst (index_step m bd (byID, loads) w)), snd (index_step m bd (byID, loads) w))"
proof (cases w)
  case (Some x)
  have "load_average_norm (project n x) = load_average_norm x"
    using assms by (simp add: project_def)
  moreover have "eligibleByInstanceCount (Some (project n x)) m = eligibleByInstanceCount (Some x) m"
    using eligible_project[of n "Some x" m] by simp
  ultimately show ?thesis
    by (simp add: Some index_step_def gate_map_update)
qed (simp add: index_step_def)

lemma index_fold_gated:
  assumes "Has n NeedWorkerLoad"
  shows "foldl (index_step m bd) (gate_map n byID, loads) (gated n ws) =
    (gate_map n (fst (foldl (index_step m bd) (byID, loads) ws)), snd (foldl (index_step m bd) (byID, loads) ws))"
proof (induction ws arbitrary: byID loads)
  case (Cons w ws)
  show ?case
    using Cons[of "fst (index_step m bd (byID, loads) w)" "snd (index_step m bd (byID, loads) w)"]
    by (simp add: index_step_gated[OF assms])
qed simp

lemma eligible_step_gated: "eligible_step loads (gate_map n byID) m = eligible_step loads byID m"
  by (simp add: eligible_step_def fun_eq_iff)

lemma PickBounded_gated:
  assumes "Has n NeedWorkerLoad"
  shows "PickBounded f (gated n ws) b = PickBounded f ws b"
proof -
  obtain byID loads where acc: "foldl (index_step (bl_maxInstances b) (bound b)) ([], []) ws = (byID, loads)"
    by fastforce
  have "foldl (index_step (bl_maxInstances b) (bound b)) ([], []) (gated n ws) = (gate_map n byID, loads)"
    using index_fold_gated[OF assms, of "bl_maxInstances b" "bound b" "[]" "[]" ws] acc by simp
  moreover have "load_average_norm (the (map_option (project n) (map_of byID uid))) = load_average_norm (the (map_of byID uid))"
    if "eligibleByInstanceCount (map_of byID uid) (bl_maxInstances b)" for uid
    using eligible_worker[OF that] assms by (auto simp: project_def)
  ultimately show ?thesis
    by (auto simp: PickBounded_def acc leastLoadedEligible_def eligible_step_gated Let_def split: prod.splits)
qed

text \<open>Which signals the policy of a state reads.\<close>

fun reads :: "scheduler \<Rightarrow> PlacementNeeds" where
  "reads (SImage i) = NeedWorkerImages"
| "reads (SBounded b) = NeedWorkerLoad"
| "reads _ = 0"

lemma PickWorker_gated: "scheduler_serves st n \<Longrightarrow> PickWorker f (gated (reads st) ws) st = PickWorker f ws st"
  by (cases st)
    (simp_all add: PickBalanced_gated PickResource_gated PickColdStart_gated PickReservation_gated PickImage_gated PickBounded_gated)

lemma reads_kept: "PickWorker f ws st = Some (d, st') \<Longrightarrow> reads st' = reads st"
  by (elim PickWorker_elim) auto

lemma pick_run_gated:
  assumes "\<And>f ws. (f, ws) \<in> set calls \<Longrightarrow> leaf_workers ws \<and> length ws = n" "scheduler_serves st n"
  shows "pick_run (map (\<lambda>(f, ws). (f, gated (reads st) ws)) calls) st = pick_run calls st"
  using assms
proof (induction calls arbitrary: st)
  case (Cons c calls)
  obtain f ws where c: "c = (f, ws)"
    by (cases c)
  have ws: "leaf_workers ws" "scheduler_serves st (length ws)"
    using Cons.prems c by auto
  obtain d st1 where p: "PickWorker f ws st = Some (d, st1)"
    using configured.returns[OF ws] by blast
  have "scheduler_serves st1 n" "reads st1 = reads st"
    using configured.keeps_serving[OF ws p] Cons.prems(1) c reads_kept[OF p] by auto
  moreover have "(\<And>f ws. (f, ws) \<in> set calls \<Longrightarrow> leaf_workers ws \<and> length ws = n)"
    using Cons.prems(1) by (meson list.set_intros(2))
  ultimately have "pick_run (map (\<lambda>(f, ws). (f, gated (reads st) ws)) calls) st1 = pick_run calls st1"
    using Cons.IH[of st1] by simp
  then show ?case
    using c p by (simp add: PickWorker_gated[OF ws(2)])
qed simp

lemma NewFromConfig_reads: "NewFromConfig rnd cfg n m = Inr st \<Longrightarrow> NeedsFor cfg = Some (reads st)"
  by (auto simp: NewFromConfig_def NeedsFor_def split: option.splits placement_policy.splits if_splits)

subsection \<open>Fairness of the round robin\<close>

definition all_eligible :: "int \<Rightarrow> WorkerState option list \<Rightarrow> bool" where
  "all_eligible m ws \<longleftrightarrow> (\<forall>i < length ws. eligibleByInstanceCount (ws ! i) m)"

fun balanced_run :: "nat \<Rightarrow> WorkerState option list \<Rightarrow> BalancedRoundRobin \<Rightarrow> PlacementDecision list" where
  "balanced_run 0 ws b = []"
| "balanced_run (Suc k) ws b = (case PickBalanced None ws b of (d, b') \<Rightarrow> d # balanced_run k ws b')"

lemma PickBalanced_next:
  assumes ws: "leaf_workers ws" "all_eligible (br_maxInstances b) ws" "ws \<noteq> []"
  shows "pd_worker_id (fst (PickBalanced f ws b)) = of_nat (unat (nextScale b) mod length ws + 1)"
    "snd (PickBalanced f ws b) = b\<lparr>nextScale := nextScale b + 1\<rparr>"
proof -
  let ?n = "length ws"
  have n: "0 < ?n" "?n < 2 ^ 63"
    using ws by (auto simp: leaf_workers_def)
  have "unat (nextScale b mod of_nat ?n) = unat (nextScale b) mod ?n"
    using n by (subst unat_mod_distrib) (simp add: unat_of_nat)
  then have start: "NextWorkerIndex ?n b = (unat (nextScale b) mod ?n, b\<lparr>nextScale := nextScale b + 1\<rparr>)"
    using n by (simp add: NextWorkerIndex_def)
  let ?s = "unat (nextScale b) mod ?n"
  have "rotated ?s ?n = ?s # map (\<lambda>i. (?s + i) mod ?n) [1..<?n]"
    using n by (simp add: rotated_def upt_conv_Cons)
  moreover have "eligibleByInstanceCount (ws ! ?s) (br_maxInstances b)"
    using ws(2) n by (simp add: all_eligible_def)
  ultimately have "find (\<lambda>i. eligibleByInstanceCount (ws ! i) (br_maxInstances b)) (rotated ?s ?n) = Some ?s"
    by simp
  then have pick: "PickBalanced f ws b = (place (ws ! ?s) ''balanced-round-robin'', b\<lparr>nextScale := nextScale b + 1\<rparr>)"
    using ws(3) start by (simp add: PickBalanced_def)
  show "pd_worker_id (fst (PickBalanced f ws b)) = of_nat (?s + 1)"
    using place_worker[OF ws(1), of ?s] n by (simp add: pick)
  show "snd (PickBalanced f ws b) = b\<lparr>nextScale := nextScale b + 1\<rparr>"
    by (simp add: pick)
qed

lemma balanced_run_ids:
  assumes ws: "leaf_workers ws" "all_eligible (br_maxInstances b) ws" "ws \<noteq> []" and no_wrap: "unat (nextScale b) + k < 2 ^ 64"
  shows "map pd_worker_id (balanced_run k ws b) = map (\<lambda>j. of_nat ((unat (nextScale b) + j) mod length ws + 1)) [0..<k]"
  using ws no_wrap
proof (induction k arbitrary: b)
  case (Suc k)
  let ?b = "b\<lparr>nextScale := nextScale b + 1\<rparr>"
  have next_u: "unat (nextScale b + 1) = unat (nextScale b) + 1"
    using Suc.prems(4) by (subst unat_word_ariths) simp
  have IH: "map pd_worker_id (balanced_run k ws ?b) = map (\<lambda>j. of_nat ((unat (nextScale b) + 1 + j) mod length ws + 1)) [0..<k]"
    using Suc.IH[of ?b] Suc.prems next_u by simp
  have "[0..<Suc k] = 0 # map Suc [0..<k]"
    by (simp add: upt_conv_Cons map_Suc_upt del: upt_Suc)
  moreover have "balanced_run (Suc k) ws b = fst (PickBalanced None ws b) # balanced_run k ws ?b"
    using PickBalanced_next(2)[OF Suc.prems(1-3), of None] by (cases "PickBalanced None ws b") simp
  ultimately show ?case
    using IH PickBalanced_next(1)[OF Suc.prems(1-3), of None] by (simp del: upt_Suc)
qed simp


subsection \<open>Properties\<close>

text \<open>
  Property C25.  A policy built from the platform configuration places every sandbox on a worker that is
  healthy, schedulable and below its instance limit, whenever the leaf has one, and nowhere otherwise: this
  holds for every one of the six policies and every sequence of snapshots, and each call returns, given that the
  random source does not repeat one outcome forever.
\<close>

theorem policies_pick_eligible:
  assumes "NewFromConfig rnd cfg n m = Inr st" "random_source rnd"
    and "\<And>f ws. (f, ws) \<in> set calls \<Longrightarrow> leaf_workers ws \<and> length ws = n"
  shows "\<exists>ds st'. pick_run calls st = Some (ds, st') \<and> list_all2 (\<lambda>c d. right_choice m (snd c) d) calls ds"
  using pick_run_right[of calls n st] assms(3) NewFromConfig_serves[OF assms(1,2)] by simp

definition modulo_source :: "nat \<Rightarrow> nat \<Rightarrow> nat" where
  "modulo_source k n = k mod n"

lemma modulo_source_random: "random_source modulo_source"
proof -
  have "\<exists>d. (k + d) mod n \<noteq> v" if n: "1 < n" for k n v :: nat
  proof (cases "k mod n = v")
    case True
    have "(k + 1) mod n \<noteq> k mod n"
      using n by (simp add: mod_Suc)
    then show ?thesis
      using True by blast
  next
    case False
    then have "(k + 0) mod n \<noteq> v"
      by simp
    then show ?thesis
      by blast
  qed
  then show ?thesis
    by (simp add: random_source_def modulo_source_def)
qed

definition ready_worker :: "u64 \<Rightarrow> WorkerState" where
  "ready_worker i = emptyWorkerState\<lparr>worker_id := i, schedulable := True, healthy := True, instances := i\<rparr>"

lemma ready_workers: "leaf_workers [Some (ready_worker 1), Some (ready_worker 2)]"
  by (auto simp: leaf_workers_def ready_worker_def less_Suc_eq)

theorem policies_pick_eligible_witness:
  "\<exists>ds st'. pick_run [(None, [Some (ready_worker 1), Some (ready_worker 2)])]
      (SReservation \<lparr>rv_maxInstances = 2, randomIndex = modulo_source, drawn = 0\<rparr>) = Some (ds, st') \<and>
    list_all2 (\<lambda>c d. right_choice 2 (snd c) d) [(None :: FunctionSpec option, [Some (ready_worker 1), Some (ready_worker 2)])] ds"
  by (intro policies_pick_eligible[where cfg = "Some (PlacementPolicyConfig (Some ReservationAware))" and n = 2 and rnd = modulo_source])
    (auto simp: NewFromConfig_def ready_workers modulo_source_random)

text \<open>
  Property C26.  The signals that \<^verbatim>\<open>NeedsFor\<close> requests for a configured policy are enough: over every sequence of
  snapshots the policy decides on snapshots without the other signals as on the full ones.
\<close>

theorem needs_sound:
  assumes "NewFromConfig rnd cfg n m = Inr st" "random_source rnd" "NeedsFor cfg = Some needs"
    and "\<And>f ws. (f, ws) \<in> set calls \<Longrightarrow> leaf_workers ws \<and> length ws = n"
  shows "pick_run (map (\<lambda>(f, ws). (f, map (map_option (project needs)) ws)) calls) st = pick_run calls st"
  using pick_run_gated[of calls n st] assms(3,4) NewFromConfig_serves[OF assms(1,2)] NewFromConfig_reads[OF assms(1)] by simp

theorem needs_sound_witness:
  "pick_run (map (\<lambda>(f, ws). (f, map (map_option (project NeedWorkerImages)) ws)) [(None, [Some (ready_worker 1), Some (ready_worker 2)])])
      (SImage \<lparr>ia_next = 0, ia_maxInstances = 2\<rparr>) =
   pick_run [(None, [Some (ready_worker 1), Some (ready_worker 2)])] (SImage \<lparr>ia_next = 0, ia_maxInstances = 2\<rparr>)"
  by (intro needs_sound[where cfg = "Some (PlacementPolicyConfig (Some ImageAware))" and n = 2 and rnd = modulo_source and m = 2])
    (auto simp: NewFromConfig_def NeedsFor_def ready_workers modulo_source_random)

text \<open>
  Property C27.  When an eligible worker has cached the image of the function, the image-aware policy picks an
  eligible worker that has it, and none of the others that have it has a smaller cold-start score.
\<close>

theorem image_affinity:
  assumes i: "i < length ws" "eligibleByInstanceCount (ws ! i) (ia_maxInstances s)"
    and im: "FunctionImageRef f \<noteq> ''''" "WorkerHasCachedImage (ws ! i) (FunctionImageRef f)"
  shows "\<exists>b < length ws. fst (PickImage f ws s) = place (ws ! b) ''image-aware-hit'' \<and>
    eligibleByInstanceCount (ws ! b) (ia_maxInstances s) \<and> WorkerHasCachedImage (ws ! b) (FunctionImageRef f) \<and>
    (\<forall>j < length ws. eligibleByInstanceCount (ws ! j) (ia_maxInstances s) \<and> WorkerHasCachedImage (ws ! j) (FunctionImageRef f) \<longrightarrow>
       \<not> score_less (coldStartScore (ws ! j)) (coldStartScore (ws ! b)))"
proof -
  let ?P = "\<lambda>i. eligibleByInstanceCount (ws ! i) (ia_maxInstances s) \<and>
    (FunctionImageRef f \<noteq> '''' \<and> WorkerHasCachedImage (ws ! i) (FunctionImageRef f))"
  let ?xs = "rotated (if ia_next s \<ge> length ws then 0 else ia_next s) (length ws)"
  have ws: "ws \<noteq> []" and xs: "set ?xs = {0..<length ws}"
    using i(1) set_rotated[of "length ws"] by fastforce+
  have "foldl (filtered_scan (cold_better ws) ?P) None ?xs \<noteq> None"
    using i im xs by (subst cold.filtered_scan_none) auto
  then obtain b where b: "foldl (filtered_scan (cold_better ws) ?P) None ?xs = Some b"
    by blast
  have hit: "fst (PickImage f ws s) = place (ws ! b) ''image-aware-hit''"
    using b by (simp add: PickImage_choice(1)[OF ws] image_choice_def cold_step_scan Let_def)
  note best = cold.filtered_scan_best[OF b]
  have "b < length ws" "?P b"
    using best(1,2) xs by auto
  moreover have "\<not> cold_better ws j b" if "j < length ws" "?P j" for j
    using best(3)[of j] that xs by auto
  ultimately show ?thesis
    using hit im(1) unfolding cold_better_def by blast
qed

definition image_worker :: "u64 \<Rightarrow> WorkerState" where
  "image_worker i = (ready_worker i)\<lparr>cached_images := [Some \<lparr>ci_image = ''a'', ci_digest = '''', ci_size_bytes = 0, ci_cached_at = None\<rparr>]\<rparr>"

definition image_function :: FunctionSpec where
  "image_function =
     \<lparr>fn_user_id = 1, fn_function_id = 1,
      fn_runtime = Some \<lparr>rt_image = ''a'', rt_command = [], rt_args = [], rt_env = [], rt_isolation = ISOLATION_KIND_UNSPECIFIED,
        rt_resources = None, rt_execution_timeout = None, rt_protocol = ''''\<rparr>,
      fn_scale = None\<rparr>"

theorem image_affinity_witness:
  "\<exists>b < length [Some (ready_worker 1), Some (image_worker 2)].
     fst (PickImage (Some image_function) [Some (ready_worker 1), Some (image_worker 2)] \<lparr>ia_next = 0, ia_maxInstances = 3\<rparr>) =
       place ([Some (ready_worker 1), Some (image_worker 2)] ! b) ''image-aware-hit'' \<and>
     WorkerHasCachedImage ([Some (ready_worker 1), Some (image_worker 2)] ! b) ''a''"
proof -
  have "eligibleByInstanceCount (Some (image_worker 2)) 3" "FunctionImageRef (Some image_function) = ''a''"
    "WorkerHasCachedImage (Some (image_worker 2)) ''a''"
    by code_simp+
  then show ?thesis
    using image_affinity[of 1 "[Some (ready_worker 1), Some (image_worker 2)]" "\<lparr>ia_next = 0, ia_maxInstances = 3\<rparr>" "Some image_function"]
    by auto
qed

text \<open>
  Property C28.  The balanced round robin is fair: as many consecutive picks as there are workers place one
  sandbox on each of them, as long as every worker stays eligible and the counter does not wrap around.
\<close>

theorem balanced_fair:
  assumes ws: "leaf_workers ws" "all_eligible (br_maxInstances b) ws" "ws \<noteq> []"
    and no_wrap: "unat (nextScale b) + length ws < 2 ^ 64"
  shows "distinct (map pd_worker_id (balanced_run (length ws) ws b)) \<and>
    set (map pd_worker_id (balanced_run (length ws) ws b)) = (\<lambda>i. of_nat (i + 1)) ` {0..<length ws}"
proof -
  let ?n = "length ws" and ?s = "unat (nextScale b)"
  let ?f = "\<lambda>i. of_nat (i + 1) :: u64"
  have ids: "map pd_worker_id (balanced_run ?n ws b) = map ?f (rotated ?s ?n)"
    using balanced_run_ids[OF ws no_wrap] by (simp add: rotated_def comp_def)
  have n: "0 < ?n" "?n < 2 ^ 63"
    using ws by (auto simp: leaf_workers_def)
  have "distinct (rotated ?s ?n)"
    using set_rotated[OF n(1), of ?s] by (intro card_distinct) (simp add: rotated_def)
  moreover have "inj_on ?f (set (rotated ?s ?n))"
  proof (rule inj_on_inverseI)
    fix i assume "i \<in> set (rotated ?s ?n)"
    then have "i < 2 ^ 63"
      using set_rotated[OF n(1)] n(2) by auto
    then show "unat (?f i) - 1 = i"
      by (simp only: unat_index diff_add_inverse2)
  qed
  ultimately show ?thesis
    using set_rotated[OF n(1), of ?s] by (simp only: ids distinct_map set_map)
qed

theorem balanced_fair_witness:
  "distinct (map pd_worker_id (balanced_run 2 [Some (ready_worker 1), Some (ready_worker 2)] \<lparr>nextScale = 7, br_maxInstances = 0\<rparr>)) \<and>
   set (map pd_worker_id (balanced_run 2 [Some (ready_worker 1), Some (ready_worker 2)] \<lparr>nextScale = 7, br_maxInstances = 0\<rparr>)) =
     (\<lambda>i. of_nat (i + 1)) ` {0..<2}"
proof -
  have "all_eligible 0 [Some (ready_worker 1), Some (ready_worker 2)]"
    by (auto simp: all_eligible_def eligibleByInstanceCount_def ready_worker_def less_Suc_eq)
  moreover have "length [Some (ready_worker 1), Some (ready_worker 2)] = 2"
    by simp
  ultimately show ?thesis
    using balanced_fair[of "[Some (ready_worker 1), Some (ready_worker 2)]" "\<lparr>nextScale = 7, br_maxInstances = 0\<rparr>"] ready_workers
    by (simp del: balanced_run.simps list.size)
qed

end
