(* ===== verification/Placement_State.thy ===== *)
theory Placement_State
  imports Scheduler_Contract
begin

text \<open>
  The placement state of a leaf, \<^verbatim>\<open>pkg/leaf/runtime/placement.go\<close>: the counters that every function
  controller shares when it starts a sandbox on a worker.

  The code takes no lock around a placement: it works on atomic counters with compare-and-swap loops.  The
  model therefore has one step per atomic operation.  A function of the source is a function from its program
  counter and the shared state to the new shared state and either the next program counter (\<^const>\<open>Inl\<close>) or its
  result (\<^const>\<open>Inr\<close>); a caller embeds the program counters of the functions it calls.  The threads
  interleave arbitrarily in \<open>placement_exec\<close>.
\<close>

subsection \<open>State\<close>

record PlacementChoice =
  WorkerID :: u64
  Reason :: string

record PlacementReservation =
  WorkerIndex :: int
  Image :: string
  Slot :: int
  Generation :: u64
  Valid :: bool

definition noChoice :: PlacementChoice where
  "noChoice = \<lparr>WorkerID = 0, Reason = ''''\<rparr>"

definition emptyReservation :: PlacementReservation where
  "emptyReservation = \<lparr>WorkerIndex = 0, Image = '''', Slot = 0, Generation = 0, Valid = False\<rparr>"

text \<open>A nil map of images is an empty one.\<close>

record workerPlacementState =
  telemetry :: "WorkerState option"
  wp_instances :: u64
  wp_pendingStarts :: u64
  pendingImages :: "(string, int) gomap"
  knownImages :: "(string, unit) gomap"

text \<open>
  The channel \<^verbatim>\<open>startCapacityChanged\<close> has one place; the field says whether it is taken.  A reservation slot
  is its generation: even is free and odd is reserved.
\<close>

record PlacementState =
  ps_workers :: "workerPlacementState list"
  startTokensPerWorker :: u64
  startTokensTotal :: u64
  maxInstancesPerWorker :: u64
  pendingStarts :: u64
  startCapacityChanged :: bool
  reservationCursor :: u64
  reservations :: "u64 list"
  trackImages :: bool

definition emptyWorker :: workerPlacementState where
  "emptyWorker = \<lparr>telemetry = None, wp_instances = 0, wp_pendingStarts = 0, pendingImages = [], knownImages = []\<rparr>"

definition NewPlacementState :: "int \<Rightarrow> u32 \<Rightarrow> u64 \<Rightarrow> u32 \<Rightarrow> PlacementState" where
  "NewPlacementState workerCount0 perWorker tokens maxPerWorker =
     (let workerCount = (if workerCount0 < 0 then 0 else workerCount0);
          slots0 = workerCount * 64;
          slots1 = (if tokens > 0 then sint tokens else slots0);
          slots = (if slots1 < 1 then 1 else slots1)
      in \<lparr>ps_workers = replicate (nat workerCount) emptyWorker,
          startTokensPerWorker = ucast perWorker, startTokensTotal = tokens, maxInstancesPerWorker = ucast maxPerWorker,
          pendingStarts = 0, startCapacityChanged = False, reservationCursor = 0,
          reservations = replicate (nat slots) 0, trackImages = False\<rparr>)"

definition set_worker :: "nat \<Rightarrow> (workerPlacementState \<Rightarrow> workerPlacementState) \<Rightarrow> PlacementState \<Rightarrow> PlacementState" where
  "set_worker i f p = p\<lparr>ps_workers := (ps_workers p)[i := f (ps_workers p ! i)]\<rparr>"

definition UpdateWorker :: "int \<Rightarrow> WorkerState option \<Rightarrow> PlacementState \<Rightarrow> PlacementState" where
  "UpdateWorker index state p =
     (if index < 0 \<or> index \<ge> int (length (ps_workers p)) \<or> state = None then p
      else set_worker (nat index) (telemetry_update (\<lambda>_. state)) p)"

definition SetTrackImages :: "bool \<Rightarrow> PlacementState \<Rightarrow> PlacementState" where
  "SetTrackImages track p = p\<lparr>trackImages := track\<rparr>"

text \<open>The two operations that \<^verbatim>\<open>ResetTelemetry\<close> runs for each worker.\<close>

definition reset_telemetry :: "nat \<Rightarrow> PlacementState \<Rightarrow> PlacementState" where
  "reset_telemetry i = set_worker i (telemetry_update (\<lambda>_. None))"

definition reset_images :: "nat \<Rightarrow> PlacementState \<Rightarrow> PlacementState" where
  "reset_images i = set_worker i (\<lambda>w. w\<lparr>pendingImages := [], knownImages := []\<rparr>)"

definition ResetTelemetry :: "PlacementState \<Rightarrow> PlacementState" where
  "ResetTelemetry p = foldl (\<lambda>q i. reset_images i (reset_telemetry i q)) p [0..<length (ps_workers p)]"

definition notifyStartCapacityChanged :: "PlacementState \<Rightarrow> PlacementState" where
  "notifyStartCapacityChanged p = p\<lparr>startCapacityChanged := True\<rparr>"

subsection \<open>Atomic counters\<close>

datatype dec_pc = DecLoad | DecCas u64

fun decrement :: "dec_pc \<Rightarrow> u64 \<Rightarrow> u64 \<times> dec_pc option" where
  "decrement DecLoad v = (v, if v > 0 then Some (DecCas v) else None)"
| "decrement (DecCas cur) v = (if v = cur then (cur - 1, None) else (v, Some DecLoad))"

definition releaseGlobalStart :: "dec_pc \<Rightarrow> PlacementState \<Rightarrow> PlacementState \<times> dec_pc option" where
  "releaseGlobalStart d p = (case decrement d (pendingStarts p) of (v, r) \<Rightarrow> (p\<lparr>pendingStarts := v\<rparr>, r))"

definition releaseWorker :: "nat \<Rightarrow> dec_pc \<Rightarrow> PlacementState \<Rightarrow> PlacementState \<times> dec_pc option" where
  "releaseWorker i d p =
     (case decrement d (wp_pendingStarts (ps_workers p ! i)) of
        (v, r) \<Rightarrow> (set_worker i (wp_pendingStarts_update (\<lambda>_. v)) p, r))"

datatype rg_pc = RgLoad | RgCas u64

fun reserveGlobalStart :: "rg_pc \<Rightarrow> PlacementState \<Rightarrow> PlacementState \<times> (rg_pc + bool)" where
  "reserveGlobalStart RgLoad p =
     (p, let current = pendingStarts p in
         if startTokensTotal p > 0 \<and> current \<ge> startTokensTotal p then Inr False else Inl (RgCas current))"
| "reserveGlobalStart (RgCas current) p =
     (if pendingStarts p = current then (p\<lparr>pendingStarts := current + 1\<rparr>, Inr True) else (p, Inl RgLoad))"

subsection \<open>A start on one worker\<close>

definition workerEligible :: "nat \<Rightarrow> PlacementState \<Rightarrow> bool" where
  "workerEligible i p =
     (case telemetry (ps_workers p ! i) of None \<Rightarrow> True | Some state \<Rightarrow> healthy state \<and> schedulable state)"

text \<open>\<^verbatim>\<open>observedInstances\<close> loads the local counter and then the telemetry.\<close>

definition observedInstances :: "u64 \<Rightarrow> WorkerState option \<Rightarrow> u64" where
  "observedInstances loc state =
     (case state of None \<Rightarrow> loc | Some st \<Rightarrow> if instances st > loc then instances st else loc)"

datatype rw_pc =
    RwEligible | RwPending | RwLocal u64 | RwTelemetry u64 u64 | RwCas u64
  | RwEligible2 u64 | RwLocal2 u64 | RwTelemetry2 u64 u64 | RwDecrement dec_pc

fun reserveWorker :: "int \<Rightarrow> rw_pc \<Rightarrow> PlacementState \<Rightarrow> PlacementState \<times> (rw_pc + bool)" where
  "reserveWorker idx RwEligible p =
     (p, if idx < 0 \<or> idx \<ge> int (length (ps_workers p)) then Inr False
         else if \<not> workerEligible (nat idx) p then Inr False else Inl RwPending)"
| "reserveWorker idx RwPending p =
     (p, let pending = wp_pendingStarts (ps_workers p ! nat idx) in
         if startTokensPerWorker p > 0 \<and> pending \<ge> startTokensPerWorker p then Inr False
         else if maxInstancesPerWorker p > 0 then Inl (RwLocal pending) else Inl (RwCas pending))"
| "reserveWorker idx (RwLocal pending) p = (p, Inl (RwTelemetry pending (wp_instances (ps_workers p ! nat idx))))"
| "reserveWorker idx (RwTelemetry pending loc) p =
     (p, if observedInstances loc (telemetry (ps_workers p ! nat idx)) + pending \<ge> maxInstancesPerWorker p
         then Inr False else Inl (RwCas pending))"
| "reserveWorker idx (RwCas pending) p =
     (if wp_pendingStarts (ps_workers p ! nat idx) = pending
      then (set_worker (nat idx) (wp_pendingStarts_update (\<lambda>_. pending + 1)) p, Inl (RwEligible2 pending))
      else (p, Inl RwEligible))"
| "reserveWorker idx (RwEligible2 pending) p =
     (p, if \<not> workerEligible (nat idx) p then Inl (RwDecrement DecLoad)
         else if maxInstancesPerWorker p > 0 then Inl (RwLocal2 pending) else Inr True)"
| "reserveWorker idx (RwLocal2 pending) p = (p, Inl (RwTelemetry2 pending (wp_instances (ps_workers p ! nat idx))))"
| "reserveWorker idx (RwTelemetry2 pending loc) p =
     (p, if observedInstances loc (telemetry (ps_workers p ! nat idx)) + pending + 1 > maxInstancesPerWorker p
         then Inl (RwDecrement DecLoad) else Inr True)"
| "reserveWorker idx (RwDecrement d) p =
     (case releaseWorker (nat idx) d p of (q, None) \<Rightarrow> (q, Inr False) | (q, Some d') \<Rightarrow> (q, Inl (RwDecrement d')))"

subsection \<open>Reservation slots\<close>

datatype cl_pc = ClCursor | ClLoad nat nat | ClCas nat nat u64

fun claimReservationSlot :: "cl_pc \<Rightarrow> PlacementState \<Rightarrow> PlacementState \<times> (cl_pc + (nat \<times> u64) option)" where
  "claimReservationSlot ClCursor p =
     (p\<lparr>reservationCursor := reservationCursor p + 1\<rparr>,
      Inl (ClLoad (unat (reservationCursor p mod of_nat (length (reservations p)))) 0))"
| "claimReservationSlot (ClLoad start offset) p =
     (p, let n = length (reservations p) in
         if offset \<ge> n then Inr None
         else let state = reservations p ! ((start + offset) mod n) in
              if and state 1 \<noteq> 0 then Inl (ClLoad start (offset + 1)) else Inl (ClCas start offset state))"
| "claimReservationSlot (ClCas start offset state) p =
     (let idx = (start + offset) mod length (reservations p) in
      if reservations p ! idx = state
      then (p\<lparr>reservations := (reservations p)[idx := state + 1]\<rparr>, Inr (Some (idx, state + 1)))
      else (p, Inl (ClLoad start (offset + 1))))"

definition functionImage :: "FunctionSpec option \<Rightarrow> string" where
  "functionImage function =
     (case function of None \<Rightarrow> ''''
      | Some f \<Rightarrow> (case fn_runtime f of None \<Rightarrow> '''' | Some rt \<Rightarrow> TrimSpace (rt_image rt)))"

definition reservation_of :: "int \<Rightarrow> string \<Rightarrow> nat \<Rightarrow> u64 \<Rightarrow> PlacementReservation" where
  "reservation_of workerIdx img slot gen =
     \<lparr>WorkerIndex = workerIdx, Image = img, Slot = int slot, Generation = gen, Valid = True\<rparr>"

text \<open>The block under \<^verbatim>\<open>imageMu\<close>.\<close>

definition add_pending_image :: "nat \<Rightarrow> string \<Rightarrow> PlacementState \<Rightarrow> PlacementState" where
  "add_pending_image i img =
     set_worker i (\<lambda>w. w\<lparr>pendingImages :=
       AList.update img ((case map_of (pendingImages w) img of None \<Rightarrow> 0 | Some n \<Rightarrow> n) + 1) (pendingImages w)\<rparr>)"

datatype nr_pc = NrClaim cl_pc | NrTrack nat u64 | NrImage nat u64

fun newReservation ::
  "int \<Rightarrow> string \<Rightarrow> nr_pc \<Rightarrow> PlacementState \<Rightarrow> PlacementState \<times> (nr_pc + PlacementReservation option)" where
  "newReservation workerIdx img (NrClaim c) p =
     (case claimReservationSlot c p of
        (q, Inl c') \<Rightarrow> (q, Inl (NrClaim c'))
      | (q, Inr None) \<Rightarrow> (q, Inr None)
      | (q, Inr (Some (slot, gen))) \<Rightarrow>
          (q, if img \<noteq> '''' then Inl (NrTrack slot gen) else Inr (Some (reservation_of workerIdx img slot gen))))"
| "newReservation workerIdx img (NrTrack slot gen) p =
     (p, if trackImages p then Inl (NrImage slot gen) else Inr (Some (reservation_of workerIdx img slot gen)))"
| "newReservation workerIdx img (NrImage slot gen) p =
     (add_pending_image (nat workerIdx) img p, Inr (Some (reservation_of workerIdx img slot gen)))"

definition completeReservation :: "PlacementReservation \<Rightarrow> PlacementState \<Rightarrow> PlacementState \<times> bool" where
  "completeReservation r p =
     (if \<not> Valid r \<or> Slot r < 0 \<or> Slot r \<ge> int (length (reservations p)) \<or>
         WorkerIndex r < 0 \<or> WorkerIndex r \<ge> int (length (ps_workers p)) then (p, False)
      else if reservations p ! nat (Slot r) = Generation r
           then (p\<lparr>reservations := (reservations p)[nat (Slot r) := Generation r + 1]\<rparr>, True)
           else (p, False))"

text \<open>
  The whole body runs under \<^verbatim>\<open>imageMu\<close>; it reads \<^verbatim>\<open>trackImages\<close>, the only part that the lock does not protect,
  once.
\<close>

definition finishImage :: "PlacementReservation \<Rightarrow> bool \<Rightarrow> PlacementState \<Rightarrow> PlacementState" where
  "finishImage r committed p =
     (if Image r = '''' then p
      else set_worker (nat (WorkerIndex r)) (\<lambda>w.
        let n = (case map_of (pendingImages w) (Image r) of None \<Rightarrow> 0 | Some k \<Rightarrow> k);
            w1 = w\<lparr>pendingImages := (if n \<le> 1 then AList.delete (Image r) (pendingImages w)
                                     else AList.update (Image r) (n - 1) (pendingImages w))\<rparr>
        in if committed \<and> trackImages p then w1\<lparr>knownImages := AList.update (Image r) () (knownImages w1)\<rparr> else w1) p)"

subsection \<open>Snapshots\<close>

definition add_image :: "CachedImage option list \<times> string list \<Rightarrow> string \<Rightarrow> CachedImage option list \<times> string list" where
  "add_image acc ref =
     (case acc of (out, seen) \<Rightarrow>
        if ref = '''' \<or> ref \<in> set seen then acc
        else (out @ [Some \<lparr>ci_image = ref, ci_digest = '''', ci_size_bytes = 0, ci_cached_at = None\<rparr>], ref # seen))"

definition base_refs :: "CachedImage option list \<Rightarrow> string list" where
  "base_refs base =
     concat (map (\<lambda>img. case img of None \<Rightarrow> [] | Some im \<Rightarrow> [TrimSpace (ci_image im), TrimSpace (ci_digest im)]) base)"

definition appendKnownImages ::
  "string list \<times> string list \<Rightarrow> CachedImage option list \<Rightarrow> (string, int) gomap \<Rightarrow> (string, unit) gomap \<Rightarrow> CachedImage option list" where
  "appendKnownImages orders base pending known =
     (if pending = [] \<and> known = [] then base
      else fst (foldl add_image (base, base_refs base) (map_range (fst orders) pending @ map_range (snd orders) known)))"

datatype sn_pc =
    SnTelemetry | SnPending WorkerState | SnLocal WorkerState u64 | SnObserved WorkerState u64 u64
  | SnTrack WorkerState | SnImages WorkerState

definition snapshot_base :: "nat \<Rightarrow> WorkerState option \<Rightarrow> WorkerState" where
  "snapshot_base i tel =
     (let state = emptyWorkerState\<lparr>worker_id := of_nat (i + 1), healthy := True, schedulable := True\<rparr> in
      case tel of
        None \<Rightarrow> state
      | Some t \<Rightarrow> state\<lparr>healthy := healthy t, schedulable := schedulable t, capacity := capacity t, allocated := allocated t,
          load_average_norm := load_average_norm t, cached_images := cached_images t\<rparr>)"

definition snapshot_load :: "PlacementState \<Rightarrow> u64 \<Rightarrow> u64 \<Rightarrow> WorkerState \<Rightarrow> WorkerState" where
  "snapshot_load p observed pending st =
     (let st1 = st\<lparr>instances := observed + pending, cold_starts_in_flight := ucast pending\<rparr> in
      if (startTokensPerWorker p > 0 \<and> pending \<ge> startTokensPerWorker p) \<or>
         (maxInstancesPerWorker p > 0 \<and> instances st1 \<ge> maxInstancesPerWorker p)
      then st1\<lparr>schedulable := False\<rparr> else st1)"

text \<open>The body of the loop of \<^verbatim>\<open>snapshot\<close> for the worker \<open>i\<close>; it changes nothing.\<close>

fun snapshot_worker :: "nat \<Rightarrow> string list \<times> string list \<Rightarrow> sn_pc \<Rightarrow> PlacementState \<Rightarrow> sn_pc + WorkerState" where
  "snapshot_worker i orders SnTelemetry p = Inl (SnPending (snapshot_base i (telemetry (ps_workers p ! i))))"
| "snapshot_worker i orders (SnPending st) p = Inl (SnLocal st (wp_pendingStarts (ps_workers p ! i)))"
| "snapshot_worker i orders (SnLocal st pending) p = Inl (SnObserved st pending (wp_instances (ps_workers p ! i)))"
| "snapshot_worker i orders (SnObserved st pending loc) p =
     Inl (SnTrack (snapshot_load p (observedInstances loc (telemetry (ps_workers p ! i))) pending st))"
| "snapshot_worker i orders (SnTrack st) p = (if trackImages p then Inl (SnImages st) else Inr st)"
| "snapshot_worker i orders (SnImages st) p =
     Inr (st\<lparr>cached_images :=
       appendKnownImages orders (cached_images st) (pendingImages (ps_workers p ! i)) (knownImages (ps_workers p ! i))\<rparr>)"

subsection \<open>Schedule\<close>

text \<open>
  The schedulers are objects: a call keeps the one that was active when it began.  The second component of the
  shared state is their heap.
\<close>

type_synonym placement_shared = "PlacementState \<times> scheduler list"

datatype placement_error = ErrStartSlotsExhausted

record schedule_result =
  res_choice :: PlacementChoice
  res_reservation :: PlacementReservation
  res_err :: "placement_error option"

definition no_reservation :: "PlacementChoice \<Rightarrow> placement_error option \<Rightarrow> schedule_result" where
  "no_reservation choice err = \<lparr>res_choice = choice, res_reservation = emptyReservation, res_err = err\<rparr>"

datatype sb_pc =
    SbEnter | SbGlobal rg_pc | SbNext | SbWorker nat nat rw_pc | SbNew nat nr_pc | SbUndo nat dec_pc | SbRelease string dec_pc

fun scheduleBalanced ::
  "nat \<Rightarrow> FunctionSpec option \<Rightarrow> sb_pc \<Rightarrow> placement_shared \<Rightarrow> placement_shared \<times> (sb_pc + schedule_result)" where
  "scheduleBalanced k f SbEnter (p, h) =
     ((p, h), if ps_workers p = [] then Inr (no_reservation \<lparr>WorkerID = 0, Reason = ''no workers''\<rparr> None)
              else Inl (SbGlobal RgLoad))"
| "scheduleBalanced k f (SbGlobal g) (p, h) =
     (case reserveGlobalStart g p of
        (q, Inl g') \<Rightarrow> ((q, h), Inl (SbGlobal g'))
      | (q, Inr ok) \<Rightarrow> ((q, h), if ok then Inl SbNext else Inr (no_reservation noChoice (Some ErrStartSlotsExhausted))))"
| "scheduleBalanced k f SbNext (p, h) =
     (case h ! k of
        SBalanced b \<Rightarrow> (case NextWorkerIndex (length (ps_workers p)) b of
          (start, b') \<Rightarrow> ((p, h[k := SBalanced b']), Inl (SbWorker start 0 RwEligible)))
      | _ \<Rightarrow> ((p, h), Inl SbNext))"
| "scheduleBalanced k f (SbWorker start offset w) (p, h) =
     (let n = length (ps_workers p); idx = (start + offset) mod n in
      case reserveWorker (int idx) w p of
        (q, Inl w') \<Rightarrow> ((q, h), Inl (SbWorker start offset w'))
      | (q, Inr True) \<Rightarrow> ((q, h), Inl (SbNew idx (NrClaim ClCursor)))
      | (q, Inr False) \<Rightarrow> ((q, h), Inl (if offset + 1 < n then SbWorker start (offset + 1) RwEligible
                                        else SbRelease ''no worker capacity'' DecLoad)))"
| "scheduleBalanced k f (SbNew idx r) (p, h) =
     (case newReservation (int idx) (functionImage f) r p of
        (q, Inl r') \<Rightarrow> ((q, h), Inl (SbNew idx r'))
      | (q, Inr None) \<Rightarrow> ((q, h), Inl (SbUndo idx DecLoad))
      | (q, Inr (Some res)) \<Rightarrow>
          ((q, h), Inr \<lparr>res_choice = \<lparr>WorkerID = of_nat (idx + 1), Reason = ''balanced-round-robin''\<rparr>,
                        res_reservation = res, res_err = None\<rparr>))"
| "scheduleBalanced k f (SbUndo idx d) (p, h) =
     (case releaseWorker idx d p of
        (q, Some d') \<Rightarrow> ((q, h), Inl (SbUndo idx d'))
      | (q, None) \<Rightarrow> ((q, h), Inl (SbRelease '''' DecLoad)))"
| "scheduleBalanced k f (SbRelease reason d) (p, h) =
     (case releaseGlobalStart d p of
        (q, Some d') \<Rightarrow> ((q, h), Inl (SbRelease reason d'))
      | (q, None) \<Rightarrow> ((q, h), Inr (no_reservation \<lparr>WorkerID = 0, Reason = reason\<rparr> (Some ErrStartSlotsExhausted))))"

text \<open>
  The deferred release of the global start is the last step of the calls that end without a reservation.  No
  policy of the repository returns an error; a policy that does not return leaves the call where it is.
\<close>

datatype ss_pc =
    SsSnapshot "WorkerState option list" sn_pc | SsGlobal "WorkerState option list" rg_pc | SsPick "WorkerState option list"
  | SsWorker PlacementChoice rw_pc | SsNew PlacementChoice nr_pc | SsUndo PlacementChoice dec_pc
  | SsRelease PlacementChoice "placement_error option" dec_pc

definition choice_index :: "PlacementChoice \<Rightarrow> int" where
  "choice_index c = sint (WorkerID c) - 1"

fun scheduleSnapshot ::
  "nat \<Rightarrow> FunctionSpec option \<Rightarrow> string list \<times> string list \<Rightarrow> ss_pc \<Rightarrow> placement_shared \<Rightarrow>
     placement_shared \<times> (ss_pc + schedule_result)" where
  "scheduleSnapshot k f orders (SsSnapshot acc s) (p, h) =
     ((p, h),
      if length acc \<ge> length (ps_workers p) then Inl (SsGlobal acc RgLoad)
      else case snapshot_worker (length acc) orders s p of
             Inl s' \<Rightarrow> Inl (SsSnapshot acc s')
           | Inr st \<Rightarrow> Inl (SsSnapshot (acc @ [Some st]) SnTelemetry))"
| "scheduleSnapshot k f orders (SsGlobal snap g) (p, h) =
     (case reserveGlobalStart g p of
        (q, Inl g') \<Rightarrow> ((q, h), Inl (SsGlobal snap g'))
      | (q, Inr ok) \<Rightarrow> ((q, h), if ok then Inl (SsPick snap) else Inr (no_reservation noChoice (Some ErrStartSlotsExhausted))))"
| "scheduleSnapshot k f orders (SsPick snap) (p, h) =
     (case PickWorker f snap (h ! k) of
        None \<Rightarrow> ((p, h), Inl (SsPick snap))
      | Some (d, s') \<Rightarrow>
          ((p, h[k := s']),
           Inl (if pd_worker_id d = 0 then SsRelease \<lparr>WorkerID = 0, Reason = pd_reason d\<rparr> None DecLoad
                else SsWorker \<lparr>WorkerID = pd_worker_id d, Reason = pd_reason d\<rparr> RwEligible)))"
| "scheduleSnapshot k f orders (SsWorker c w) (p, h) =
     (case reserveWorker (choice_index c) w p of
        (q, Inl w') \<Rightarrow> ((q, h), Inl (SsWorker c w'))
      | (q, Inr ok) \<Rightarrow>
          ((q, h), Inl (if ok then SsNew c (NrClaim ClCursor)
                        else SsRelease \<lparr>WorkerID = 0, Reason = ''worker capacity changed during placement''\<rparr>
                               (Some ErrStartSlotsExhausted) DecLoad)))"
| "scheduleSnapshot k f orders (SsNew c r) (p, h) =
     (case newReservation (choice_index c) (functionImage f) r p of
        (q, Inl r') \<Rightarrow> ((q, h), Inl (SsNew c r'))
      | (q, Inr None) \<Rightarrow> ((q, h), Inl (SsUndo c DecLoad))
      | (q, Inr (Some res)) \<Rightarrow> ((q, h), Inr \<lparr>res_choice = c, res_reservation = res, res_err = None\<rparr>))"
| "scheduleSnapshot k f orders (SsUndo c d) (p, h) =
     (case releaseWorker (nat (choice_index c)) d p of
        (q, Some d') \<Rightarrow> ((q, h), Inl (SsUndo c d'))
      | (q, None) \<Rightarrow> ((q, h), Inl (SsRelease c (Some ErrStartSlotsExhausted) DecLoad)))"
| "scheduleSnapshot k f orders (SsRelease c err d) (p, h) =
     (case releaseGlobalStart d p of
        (q, Some d') \<Rightarrow> ((q, h), Inl (SsRelease c err d'))
      | (q, None) \<Rightarrow> ((q, h), Inr (no_reservation c err)))"

subsection \<open>The end of a start\<close>

datatype cm_pc = CmComplete | CmDecrement dec_pc | CmInstances | CmImage | CmRelease dec_pc | CmNotify

text \<open>\<^verbatim>\<open>CommitReservation\<close> (\<open>committed\<close>) and \<^verbatim>\<open>CancelReservation\<close>.\<close>

fun finishReservation :: "bool \<Rightarrow> PlacementReservation \<Rightarrow> cm_pc \<Rightarrow> PlacementState \<Rightarrow> PlacementState \<times> cm_pc option" where
  "finishReservation committed r CmComplete p =
     (case completeReservation r p of (q, ok) \<Rightarrow> (q, if ok then Some (CmDecrement DecLoad) else None))"
| "finishReservation committed r (CmDecrement d) p =
     (case releaseWorker (nat (WorkerIndex r)) d p of
        (q, Some d') \<Rightarrow> (q, Some (CmDecrement d'))
      | (q, None) \<Rightarrow> (q, Some (if committed then CmInstances else CmImage)))"
| "finishReservation committed r CmInstances p =
     (set_worker (nat (WorkerIndex r)) (wp_instances_update (\<lambda>v. v + 1)) p, Some CmImage)"
| "finishReservation committed r CmImage p = (finishImage r committed p, Some (CmRelease DecLoad))"
| "finishReservation committed r (CmRelease d) p =
     (case releaseGlobalStart d p of
        (q, Some d') \<Rightarrow> (q, Some (CmRelease d'))
      | (q, None) \<Rightarrow> (q, Some CmNotify))"
| "finishReservation committed r CmNotify p = (notifyStartCapacityChanged p, None)"

definition RecordStop :: "u64 \<Rightarrow> dec_pc \<Rightarrow> PlacementState \<Rightarrow> PlacementState \<times> dec_pc option" where
  "RecordStop workerID d p =
     (let idx = sint workerID - 1 in
      if idx < 0 \<or> idx \<ge> int (length (ps_workers p)) then (p, None)
      else case decrement d (wp_instances (ps_workers p ! nat idx)) of
             (v, r) \<Rightarrow> (set_worker (nat idx) (wp_instances_update (\<lambda>_. v)) p, r))"

subsection \<open>Threads\<close>

datatype placement_pc =
    ThSchedule "FunctionSpec option" | ThBalanced nat "FunctionSpec option" sb_pc | ThSnapshot nat "FunctionSpec option" ss_pc
  | ThFinish bool PlacementReservation cm_pc | ThStop u64 dec_pc | ThScheduled schedule_result | ThDone

record placement_sys =
  pstate :: PlacementState
  schedulers :: "scheduler list"
  active :: "nat option"
  threads :: "placement_pc list"

definition is_balanced :: "scheduler \<Rightarrow> bool" where
  "is_balanced s = (case s of SBalanced b \<Rightarrow> True | _ \<Rightarrow> False)"

text \<open>The entry of \<^verbatim>\<open>Schedule\<close>: it takes the active scheduler and chooses the path.\<close>

definition Schedule :: "FunctionSpec option \<Rightarrow> placement_sys \<Rightarrow> placement_pc" where
  "Schedule f s =
     (case active s of
        None \<Rightarrow> ThScheduled (no_reservation \<lparr>WorkerID = 0, Reason = ''scheduler not configured''\<rparr> None)
      | Some k \<Rightarrow> if is_balanced (schedulers s ! k) then ThBalanced k f SbEnter
                  else ThSnapshot k f (SsSnapshot [] SnTelemetry))"

fun thread_step ::
  "string list \<times> string list \<Rightarrow> placement_pc \<Rightarrow> placement_sys \<Rightarrow> placement_shared \<times> placement_pc" where
  "thread_step orders (ThSchedule f) s = ((pstate s, schedulers s), Schedule f s)"
| "thread_step orders (ThBalanced k f c) s =
     (case scheduleBalanced k f c (pstate s, schedulers s) of
        (sh, Inl c') \<Rightarrow> (sh, ThBalanced k f c') | (sh, Inr r) \<Rightarrow> (sh, ThScheduled r))"
| "thread_step orders (ThSnapshot k f c) s =
     (case scheduleSnapshot k f orders c (pstate s, schedulers s) of
        (sh, Inl c') \<Rightarrow> (sh, ThSnapshot k f c') | (sh, Inr r) \<Rightarrow> (sh, ThScheduled r))"
| "thread_step orders (ThFinish b r c) s =
     (case finishReservation b r c (pstate s) of
        (q, Some c') \<Rightarrow> ((q, schedulers s), ThFinish b r c') | (q, None) \<Rightarrow> ((q, schedulers s), ThDone))"
| "thread_step orders (ThStop wid d) s =
     (case RecordStop wid d (pstate s) of
        (q, Some d') \<Rightarrow> ((q, schedulers s), ThStop wid d') | (q, None) \<Rightarrow> ((q, schedulers s), ThDone))"
| "thread_step orders (ThScheduled r) s = ((pstate s, schedulers s), ThScheduled r)"
| "thread_step orders ThDone s = ((pstate s, schedulers s), ThDone)"

text \<open>
  What happens at a leaf: clients call \<open>Schedule\<close>, later commit or cancel the reservation that a finished
  call returned, as often as they like, and report stopped sandboxes; threads take steps; the controller
  publishes telemetry, resets it and installs schedulers.
\<close>

datatype placement_event =
    CallSchedule "FunctionSpec option" | CallFinish bool nat | CallStop u64 | Run nat "string list \<times> string list"
  | Telemetry int "WorkerState option" | Track bool | ResetTelemetryOf nat | ResetImagesOf nat
  | Install scheduler | Uninstall | TakeNotification

definition spawn :: "placement_pc \<Rightarrow> placement_sys \<Rightarrow> placement_sys" where
  "spawn c s = s\<lparr>threads := threads s @ [c]\<rparr>"

fun placement_exec :: "placement_event \<Rightarrow> placement_sys \<Rightarrow> placement_sys" where
  "placement_exec (CallSchedule f) s = spawn (ThSchedule f) s"
| "placement_exec (CallFinish b t) s =
     (if t < length (threads s) then
        (case threads s ! t of ThScheduled r \<Rightarrow> spawn (ThFinish b (res_reservation r) CmComplete) s | _ \<Rightarrow> s)
      else s)"
| "placement_exec (CallStop wid) s = spawn (ThStop wid DecLoad) s"
| "placement_exec (Run t orders) s =
     (if t < length (threads s) then
        (case thread_step orders (threads s ! t) s of
           ((p, h), c) \<Rightarrow> s\<lparr>pstate := p, schedulers := h, threads := (threads s)[t := c]\<rparr>)
      else s)"
| "placement_exec (Telemetry i st) s = s\<lparr>pstate := UpdateWorker i st (pstate s)\<rparr>"
| "placement_exec (Track b) s = s\<lparr>pstate := SetTrackImages b (pstate s)\<rparr>"
| "placement_exec (ResetTelemetryOf i) s = s\<lparr>pstate := reset_telemetry i (pstate s)\<rparr>"
| "placement_exec (ResetImagesOf i) s = s\<lparr>pstate := reset_images i (pstate s)\<rparr>"
| "placement_exec (Install sch) s = s\<lparr>schedulers := schedulers s @ [sch], active := Some (length (schedulers s))\<rparr>"
| "placement_exec Uninstall s = s\<lparr>active := None\<rparr>"
| "placement_exec TakeNotification s = s\<lparr>pstate := (pstate s)\<lparr>startCapacityChanged := False\<rparr>\<rparr>"

definition placement_run :: "placement_event list \<Rightarrow> placement_sys \<Rightarrow> placement_sys" where
  "placement_run es s = foldl (\<lambda>s e. placement_exec e s) s es"

definition placement_init :: "PlacementState \<Rightarrow> placement_sys" where
  "placement_init p = \<lparr>pstate = p, schedulers = [], active = None, threads = []\<rparr>"

end
