(* ===== verification/Placement_Invariants.thy ===== *)
theory Placement_Invariants
  imports Placement_State
begin

text \<open>
  The accounting of start tokens over all interleavings of the threads at a placement state.

  A start token is held by a call between its reservation of the counter and the end of the call, by a
  reserved slot, or by a commit or cancellation that has freed the slot and not yet released the token.
  The invariant says that the counters are the numbers of holders; each thread step moves a token and
  changes the counters accordingly.
\<close>

lemma and_1_even [simp]: "and x 1 = (0 :: u64) \<longleftrightarrow> even x"
  by (simp add: and_one_eq even_iff_mod_2_eq_zero)

subsection \<open>Tokens of a thread\<close>

fun rw_tok :: "rw_pc \<Rightarrow> nat" where
  "rw_tok (RwEligible2 _) = 1"
| "rw_tok (RwLocal2 _) = 1"
| "rw_tok (RwTelemetry2 _ _) = 1"
| "rw_tok (RwDecrement _) = 1"
| "rw_tok _ = 0"

text \<open>A call that has claimed its slot has passed its tokens on to the slot.\<close>

fun nr_tok :: "nr_pc \<Rightarrow> nat" where
  "nr_tok (NrClaim _) = 1"
| "nr_tok _ = 0"

fun sb_gtok :: "sb_pc \<Rightarrow> nat" where
  "sb_gtok SbEnter = 0"
| "sb_gtok (SbGlobal _) = 0"
| "sb_gtok (SbNew _ r) = nr_tok r"
| "sb_gtok _ = 1"

fun ss_gtok :: "ss_pc \<Rightarrow> nat" where
  "ss_gtok (SsSnapshot _ _) = 0"
| "ss_gtok (SsGlobal _ _) = 0"
| "ss_gtok (SsNew _ r) = nr_tok r"
| "ss_gtok _ = 1"

fun cm_gtok :: "cm_pc \<Rightarrow> nat" where
  "cm_gtok CmComplete = 0"
| "cm_gtok CmNotify = 0"
| "cm_gtok _ = 1"

fun gtok :: "placement_pc \<Rightarrow> nat" where
  "gtok (ThBalanced k f c) = sb_gtok c"
| "gtok (ThSnapshot k f c) = ss_gtok c"
| "gtok (ThFinish b r c) = cm_gtok c"
| "gtok _ = 0"

definition on_worker :: "nat \<Rightarrow> int \<Rightarrow> nat \<Rightarrow> nat" where
  "on_worker i idx k = (if idx = int i then k else 0)"

fun sb_wtok :: "nat \<Rightarrow> nat \<Rightarrow> sb_pc \<Rightarrow> nat" where
  "sb_wtok n i (SbWorker start offset w) = on_worker i (int ((start + offset) mod n)) (rw_tok w)"
| "sb_wtok n i (SbNew idx r) = on_worker i (int idx) (nr_tok r)"
| "sb_wtok n i (SbUndo idx d) = on_worker i (int idx) 1"
| "sb_wtok n i _ = 0"

fun ss_wtok :: "nat \<Rightarrow> ss_pc \<Rightarrow> nat" where
  "ss_wtok i (SsWorker c w) = on_worker i (choice_index c) (rw_tok w)"
| "ss_wtok i (SsNew c r) = on_worker i (choice_index c) (nr_tok r)"
| "ss_wtok i (SsUndo c d) = on_worker i (choice_index c) 1"
| "ss_wtok i _ = 0"

fun wtok :: "nat \<Rightarrow> nat \<Rightarrow> placement_pc \<Rightarrow> nat" where
  "wtok n i (ThBalanced k f c) = sb_wtok n i c"
| "wtok n i (ThSnapshot k f c) = ss_wtok i c"
| "wtok n i (ThFinish b r (CmDecrement d)) = on_worker i (WorkerIndex r) 1"
| "wtok n i _ = 0"

subsection \<open>Slots\<close>

text \<open>The slot, generation and worker that a thread has a claim on.\<close>

fun nr_claim :: "int \<Rightarrow> nr_pc \<Rightarrow> (nat \<times> u64 \<times> int) option" where
  "nr_claim w (NrClaim _) = None"
| "nr_claim w (NrTrack s g) = Some (s, g, w)"
| "nr_claim w (NrImage s g) = Some (s, g, w)"

definition res_claim :: "PlacementReservation \<Rightarrow> (nat \<times> u64 \<times> int) option" where
  "res_claim r = (if Valid r then Some (nat (Slot r), Generation r, WorkerIndex r) else None)"

fun claim :: "placement_pc \<Rightarrow> (nat \<times> u64 \<times> int) option" where
  "claim (ThBalanced k f (SbNew idx r)) = nr_claim (int idx) r"
| "claim (ThSnapshot k f (SsNew c r)) = nr_claim (choice_index c) r"
| "claim (ThScheduled res) = res_claim (res_reservation res)"
| "claim (ThFinish b r CmComplete) = res_claim r"
| "claim _ = None"

text \<open>The slot and generation that a call holds, while it runs or when it has returned.\<close>

fun hold :: "placement_pc \<Rightarrow> (nat \<times> u64) option" where
  "hold (ThFinish b r c) = None"
| "hold c = map_option (\<lambda>(s, g, w). (s, g)) (claim c)"

text \<open>
  \<open>owner s\<close> is the worker that slot \<open>s\<close> was last reserved for.  A claim is on a generation that the slot has
  reached; if it is the current one then the slot belongs to the worker of the claim.
\<close>

definition claim_ok :: "(nat \<Rightarrow> int) \<Rightarrow> PlacementState \<Rightarrow> nat \<times> u64 \<times> int \<Rightarrow> bool" where
  "claim_ok owner p x =
     (case x of (s, g, w) \<Rightarrow>
        s < length (reservations p) \<and> odd g \<and> unat g \<le> unat (reservations p ! s) \<and>
        0 \<le> w \<and> w < int (length (ps_workers p)) \<and> (reservations p ! s = g \<longrightarrow> owner s = w))"

definition held :: "(int \<Rightarrow> bool) \<Rightarrow> (nat \<Rightarrow> int) \<Rightarrow> u64 list \<Rightarrow> nat" where
  "held P owner res = card {s. s < length res \<and> odd (res ! s) \<and> P (owner s)}"

lemma held_claim:
  assumes "s < length res" "even (res ! s)" "odd x"
  shows "held P (owner(s := w)) (res[s := x]) = held P owner res + (if P w then 1 else 0)"
proof -
  have "{j. j < length (res[s := x]) \<and> odd (res[s := x] ! j) \<and> P ((owner(s := w)) j)} =
      {j. j < length res \<and> odd (res ! j) \<and> P (owner j)} \<union> (if P w then {s} else {})"
    using assms by (auto simp: nth_list_update split: if_splits)
  moreover have "s \<notin> {j. j < length res \<and> odd (res ! j) \<and> P (owner j)}"
    using assms by simp
  ultimately show ?thesis
    by (simp add: held_def)
qed

lemma held_complete:
  assumes "s < length res" "odd (res ! s)" "even x"
  shows "held P owner (res[s := x]) + (if P (owner s) then 1 else 0) = held P owner res"
proof -
  let ?A = "{j. j < length res \<and> odd (res ! j) \<and> P (owner j)}"
  have "{j. j < length (res[s := x]) \<and> odd (res[s := x] ! j) \<and> P (owner j)} = ?A - {s}"
    using assms by (auto simp: nth_list_update split: if_splits)
  moreover have "finite ?A"
    by simp
  moreover have "s \<in> ?A \<longleftrightarrow> P (owner s)"
    using assms by simp
  ultimately show ?thesis
    using card_Suc_Diff1[of ?A s] by (cases "P (owner s)") (auto simp: held_def)
qed

subsection \<open>Ranges and limits of a thread\<close>

definition worker_at_index :: "PlacementState \<Rightarrow> int \<Rightarrow> bool" where
  "worker_at_index p idx \<longleftrightarrow> 0 \<le> idx \<and> idx < int (length (ps_workers p))"

definition below_tokens :: "PlacementState \<Rightarrow> u64 \<Rightarrow> bool" where
  "below_tokens p v \<longleftrightarrow> (startTokensPerWorker p > 0 \<longrightarrow> v < startTokensPerWorker p)"

fun rg_ok :: "PlacementState \<Rightarrow> rg_pc \<Rightarrow> bool" where
  "rg_ok p RgLoad = True"
| "rg_ok p (RgCas current) = (startTokensTotal p > 0 \<longrightarrow> current < startTokensTotal p)"

fun rw_ok :: "PlacementState \<Rightarrow> int \<Rightarrow> rw_pc \<Rightarrow> bool" where
  "rw_ok p idx RwEligible = True"
| "rw_ok p idx (RwLocal v) = (worker_at_index p idx \<and> below_tokens p v)"
| "rw_ok p idx (RwTelemetry v _) = (worker_at_index p idx \<and> below_tokens p v)"
| "rw_ok p idx (RwCas v) = (worker_at_index p idx \<and> below_tokens p v)"
| "rw_ok p idx _ = worker_at_index p idx"

fun nr_ok :: "nr_pc \<Rightarrow> bool" where
  "nr_ok (NrClaim (ClCas start offset state)) = even state"
| "nr_ok _ = True"

fun sb_ok :: "PlacementState \<Rightarrow> sb_pc \<Rightarrow> bool" where
  "sb_ok p (SbGlobal g) = (ps_workers p \<noteq> [] \<and> rg_ok p g)"
| "sb_ok p SbNext = (ps_workers p \<noteq> [])"
| "sb_ok p (SbWorker start offset w) = (ps_workers p \<noteq> [] \<and> rw_ok p (int ((start + offset) mod length (ps_workers p))) w)"
| "sb_ok p (SbNew idx r) = (worker_at_index p (int idx) \<and> nr_ok r)"
| "sb_ok p (SbUndo idx d) = worker_at_index p (int idx)"
| "sb_ok p _ = True"

fun ss_ok :: "PlacementState \<Rightarrow> ss_pc \<Rightarrow> bool" where
  "ss_ok p (SsGlobal snap g) = rg_ok p g"
| "ss_ok p (SsWorker c w) = rw_ok p (choice_index c) w"
| "ss_ok p (SsNew c r) = (worker_at_index p (choice_index c) \<and> nr_ok r)"
| "ss_ok p (SsUndo c d) = worker_at_index p (choice_index c)"
| "ss_ok p _ = True"

definition reservation_ok :: "PlacementState \<Rightarrow> PlacementReservation \<Rightarrow> bool" where
  "reservation_ok p r \<longleftrightarrow> (Valid r \<longrightarrow> 0 \<le> Slot r \<and> Slot r < int (length (reservations p)) \<and> worker_at_index p (WorkerIndex r))"

fun pc_ok :: "PlacementState \<Rightarrow> placement_pc \<Rightarrow> bool" where
  "pc_ok p (ThBalanced k f c) = sb_ok p c"
| "pc_ok p (ThSnapshot k f c) = ss_ok p c"
| "pc_ok p (ThScheduled res) = reservation_ok p (res_reservation res)"
| "pc_ok p (ThFinish b r c) = (reservation_ok p r \<and> (c \<noteq> CmComplete \<longrightarrow> Valid r))"
| "pc_ok p _ = True"

definition same_config :: "PlacementState \<Rightarrow> PlacementState \<Rightarrow> bool" where
  "same_config p q \<longleftrightarrow>
     startTokensPerWorker q = startTokensPerWorker p \<and> startTokensTotal q = startTokensTotal p \<and>
     maxInstancesPerWorker q = maxInstancesPerWorker p \<and>
     length (ps_workers q) = length (ps_workers p) \<and> length (reservations q) = length (reservations p)"

lemma same_config_refl [simp]: "same_config p p"
  by (simp add: same_config_def)

lemma ok_same_config:
  assumes "same_config p q"
  shows "worker_at_index q = worker_at_index p" "below_tokens q = below_tokens p" "rg_ok q = rg_ok p" "rw_ok q = rw_ok p"
    "sb_ok q = sb_ok p" "ss_ok q = ss_ok p" "reservation_ok q = reservation_ok p" "pc_ok q = pc_ok p"
proof -
  show w: "worker_at_index q = worker_at_index p" and b: "below_tokens q = below_tokens p"
    using assms by (auto simp: fun_eq_iff worker_at_index_def below_tokens_def same_config_def)
  have g: "rg_ok q x = rg_ok p x" for x
    using assms by (cases x) (auto simp: same_config_def)
  have rw: "rw_ok q i x = rw_ok p i x" for i x
    by (cases x) (auto simp: w b)
  have e: "ps_workers q \<noteq> [] \<longleftrightarrow> ps_workers p \<noteq> []" "length (ps_workers q) = length (ps_workers p)"
    using assms by (auto simp: same_config_def simp flip: length_greater_0_conv)
  have sb: "sb_ok q x = sb_ok p x" for x
    by (cases x) (simp_all only: sb_ok.simps w g rw e)
  have ss: "ss_ok q x = ss_ok p x" for x
    by (cases x) (simp_all add: w g rw)
  have r: "reservation_ok q x = reservation_ok p x" for x
    using assms by (auto simp: reservation_ok_def w same_config_def)
  have pc: "pc_ok q x = pc_ok p x" for x
    by (cases x) (simp_all add: sb ss r)
  show "rg_ok q = rg_ok p" "rw_ok q = rw_ok p" "sb_ok q = sb_ok p" "ss_ok q = ss_ok p" "reservation_ok q = reservation_ok p"
    "pc_ok q = pc_ok p"
    using g rw sb ss r pc by (simp_all add: fun_eq_iff)
qed

subsection \<open>Steps that move tokens between a counter and a thread\<close>

abbreviation pending_at :: "PlacementState \<Rightarrow> nat \<Rightarrow> u64" where
  "pending_at p i \<equiv> wp_pendingStarts (ps_workers p ! i)"

definition limits :: "PlacementState \<Rightarrow> bool" where
  "limits p \<longleftrightarrow>
     (startTokensTotal p > 0 \<longrightarrow> pendingStarts p \<le> startTokensTotal p) \<and>
     (startTokensPerWorker p > 0 \<longrightarrow> (\<forall>i < length (ps_workers p). pending_at p i \<le> startTokensPerWorker p))"

text \<open>
  \<open>shift p q a b idx c d\<close>: the tokens of the thread go from \<open>a\<close> to \<open>b\<close> at the global counter and from \<open>c\<close> to
  \<open>d\<close> at the counter of worker \<open>idx\<close>, and so do the counters.
\<close>

definition shift :: "PlacementState \<Rightarrow> PlacementState \<Rightarrow> nat \<Rightarrow> nat \<Rightarrow> int \<Rightarrow> nat \<Rightarrow> nat \<Rightarrow> bool" where
  "shift p q a b idx c d \<longleftrightarrow>
     same_config p q \<and> reservations q = reservations p \<and> limits q \<and>
     unat (pendingStarts q) + a = unat (pendingStarts p) + b \<and>
     (\<forall>i < length (ps_workers p). unat (pending_at q i) + on_worker i idx c = unat (pending_at p i) + on_worker i idx d)"

lemma on_worker_0 [simp]: "on_worker i idx 0 = 0"
  by (simp add: on_worker_def)

lemma shift_refl: "limits p \<Longrightarrow> shift p p a a idx c c"
  by (simp add: shift_def)

lemma decrement_step:
  assumes "decrement d v = (v', r)" "0 < v"
  shows "unat v' + (if r = None then 1 else 0) = unat v" "v' \<le> v"
proof -
  have "1 \<le> v"
    using assms(2) by (simp add: word_le_nat_alt word_less_nat_alt)
  then have "unat (v - 1) + 1 = unat v" "v - 1 \<le> v"
    using unat_sub[of 1 v] by (simp_all add: word_le_nat_alt)
  then show "unat v' + (if r = None then 1 else 0) = unat v" "v' \<le> v"
    using assms by (cases d; auto split: if_splits)+
qed

lemma releaseGlobalStart_shift:
  assumes "releaseGlobalStart d p = (q, r)" "0 < pendingStarts p" "limits p"
  shows "shift p q 1 (if r = None then 0 else 1) idx 0 0"
proof -
  obtain v where v: "decrement d (pendingStarts p) = (v, r)" "q = p\<lparr>pendingStarts := v\<rparr>"
    using assms(1) by (auto simp: releaseGlobalStart_def split: prod.splits)
  show ?thesis
    using decrement_step[OF v(1) assms(2)] assms(3) v(2)
    by (auto simp: shift_def same_config_def limits_def)
qed

lemma set_worker_simps [simp]:
  "length (ps_workers (set_worker i f p)) = length (ps_workers p)"
  "reservations (set_worker i f p) = reservations p" "pendingStarts (set_worker i f p) = pendingStarts p"
  "startTokensTotal (set_worker i f p) = startTokensTotal p" "startTokensPerWorker (set_worker i f p) = startTokensPerWorker p"
  "maxInstancesPerWorker (set_worker i f p) = maxInstancesPerWorker p" "trackImages (set_worker i f p) = trackImages p"
  by (simp_all add: set_worker_def)

lemma set_worker_nth:
  "j < length (ps_workers p) \<Longrightarrow> ps_workers (set_worker i f p) ! j = (if i = j then f (ps_workers p ! j) else ps_workers p ! j)"
  by (auto simp: set_worker_def nth_list_update)

lemma set_worker_same: "same_config p (set_worker i f p)"
  by (simp add: same_config_def)

lemma set_pending_shift:
  assumes "limits p" "i < length (ps_workers p)" "unat v + c = unat (pending_at p i) + d"
    and "startTokensPerWorker p > 0 \<Longrightarrow> v \<le> startTokensPerWorker p"
  shows "shift p (set_worker i (wp_pendingStarts_update (\<lambda>_. v)) p) a a (int i) c d"
  using assms by (auto simp: shift_def set_worker_same limits_def set_worker_nth on_worker_def)

lemma releaseWorker_shift:
  assumes "releaseWorker i d p = (q, r)" "0 < pending_at p i" "limits p" "i < length (ps_workers p)"
  shows "shift p q a a (int i) 1 (if r = None then 0 else 1)"
proof -
  obtain v where v: "decrement d (pending_at p i) = (v, r)" "q = set_worker i (wp_pendingStarts_update (\<lambda>_. v)) p"
    using assms(1) by (auto simp: releaseWorker_def split: prod.splits)
  show ?thesis
    unfolding v(2)
    by (rule set_pending_shift[OF assms(3,4)])
      (use decrement_step[OF v(1) assms(2)] assms(3,4) in \<open>auto simp: limits_def dest!: spec[of _ i] split: if_splits\<close>)
qed

lemma unat_plus_one: "unat v + 1 < 2 ^ 64 \<Longrightarrow> unat (v + 1 :: u64) = unat v + 1"
  by (subst unat_word_ariths) simp

lemma reserveGlobalStart_shift:
  assumes "reserveGlobalStart g p = (q, r)" "rg_ok p g" "unat (pendingStarts p) + 1 < 2 ^ 64" "limits p"
  shows "shift p q 0 (if r = Inr True then 1 else 0) idx 0 0" "r = Inl g' \<Longrightarrow> rg_ok p g'"
proof -
  show "shift p q 0 (if r = Inr True then 1 else 0) idx 0 0"
  proof (cases "r = Inr True")
    case True
    obtain cur where g: "g = RgCas cur" "pendingStarts p = cur" "q = p\<lparr>pendingStarts := cur + 1\<rparr>"
      using assms(1) True by (cases g) (auto simp: Let_def split: if_splits)
    have "cur + 1 \<le> startTokensTotal p" if "startTokensTotal p > 0"
      using assms(2,3) that unat_plus_one[of cur] g by (simp add: word_le_nat_alt word_less_nat_alt)
    then show ?thesis
      using True assms(3,4) unat_plus_one[of cur] g by (auto simp: shift_def same_config_def limits_def)
  next
    case False
    then have "q = p"
      using assms(1) by (cases g) (auto split: if_splits)
    then show ?thesis
      using False assms(4) by (simp add: shift_refl)
  qed
  show "rg_ok p g'" if "r = Inl g'"
    using assms(1) that by (cases g) (auto simp: Let_def not_le split: if_splits)
qed

lemma reserveWorker_shift:
  assumes step: "reserveWorker idx w p = (q, r)" and ok: "rw_ok p idx w" and lim: "limits p"
    and tok: "rw_tok w = 1 \<Longrightarrow> 0 < pending_at p (nat idx)" and small: "unat (pending_at p (nat idx)) + 1 < 2 ^ 64"
  shows "shift p q a a idx (rw_tok w) (case r of Inl w' \<Rightarrow> rw_tok w' | Inr b \<Rightarrow> if b then 1 else 0)"
    "r = Inl w' \<Longrightarrow> rw_ok p idx w'" "r = Inr True \<Longrightarrow> worker_at_index p idx"
proof -
  show "shift p q a a idx (rw_tok w) (case r of Inl w' \<Rightarrow> rw_tok w' | Inr b \<Rightarrow> if b then 1 else 0)"
  proof (cases w)
    case (RwCas v)
    then have r: "worker_at_index p idx" "below_tokens p v"
      using ok by auto
    then have i: "nat idx < length (ps_workers p)" "int (nat idx) = idx"
      by (auto simp: worker_at_index_def)
    show ?thesis
    proof (cases "pending_at p (nat idx) = v")
      case True
      have "v + 1 \<le> startTokensPerWorker p" if "startTokensPerWorker p > 0"
        using r(2) that small unat_plus_one[of v] True by (simp add: below_tokens_def word_le_nat_alt word_less_nat_alt)
      then show ?thesis
        using step True RwCas small unat_plus_one[of v] set_pending_shift[OF lim i(1), of "v + 1" 0 1] i(2) by auto
    next
      case False
      then show ?thesis
        using step RwCas lim by (auto simp: shift_refl)
    qed
  next
    case (RwDecrement d)
    then have i: "nat idx < length (ps_workers p)" "int (nat idx) = idx"
      using ok by (auto simp: worker_at_index_def)
    obtain q' r' where rel: "releaseWorker (nat idx) d p = (q', r')"
      by fastforce
    show ?thesis
      using releaseWorker_shift[OF rel _ lim i(1), of a] tok RwDecrement step rel i(2)
      by (cases r') auto
  qed (use step lim in \<open>auto simp: shift_refl Let_def split: if_splits\<close>)
  show "rw_ok p idx w'" if "r = Inl w'"
    using step ok that by (cases w) (auto simp: worker_at_index_def below_tokens_def Let_def not_le split: if_splits prod.splits option.splits)
  show "worker_at_index p idx" if "r = Inr True"
    using step ok that by (cases w) (auto simp: Let_def split: if_splits prod.splits option.splits)
qed

subsection \<open>Steps of a thread\<close>

text \<open>
  \<open>moves\<close> is what a step of a thread from \<open>c\<close> to \<open>c'\<close> does: the sum of the tokens of the thread and of the slots
  changes as the counters do, the claims of other threads stay right, and a slot advances by at most one
  generation.
\<close>

definition slot_step :: "PlacementState \<Rightarrow> placement_pc \<Rightarrow> PlacementState \<Rightarrow> placement_pc \<Rightarrow> bool" where
  "slot_step p c q c' \<longleftrightarrow>
     (reservations q = reservations p \<and> hold c' = hold c) \<or>
     (\<exists>s < length (reservations p). hold c = None \<and>
        unat (reservations p ! s + 1) = unat (reservations p ! s) + 1 \<and>
        reservations q = (reservations p)[s := reservations p ! s + 1] \<and>
        hold c' = (if even (reservations p ! s) then Some (s, reservations p ! s + 1) else None))"

definition moves :: "(nat \<Rightarrow> int) \<Rightarrow> PlacementState \<Rightarrow> placement_pc \<Rightarrow> (nat \<Rightarrow> int) \<Rightarrow> PlacementState \<Rightarrow> placement_pc \<Rightarrow> bool" where
  "moves owner p c owner' q c' \<longleftrightarrow>
     same_config p q \<and> limits q \<and> pc_ok p c' \<and> slot_step p c q c' \<and>
     unat (pendingStarts q) + gtok c + held (\<lambda>_. True) owner (reservations p) =
       unat (pendingStarts p) + gtok c' + held (\<lambda>_. True) owner' (reservations q) \<and>
     (\<forall>i < length (ps_workers p).
        unat (pending_at q i) + wtok (length (ps_workers p)) i c + held (\<lambda>w. w = int i) owner (reservations p) =
        unat (pending_at p i) + wtok (length (ps_workers p)) i c' + held (\<lambda>w. w = int i) owner' (reservations q)) \<and>
     (\<forall>x. claim c' = Some x \<longrightarrow> claim_ok owner' q x) \<and>
     (\<forall>x. claim_ok owner p x \<longrightarrow> claim_ok owner' q x) \<and>
     (\<forall>s < length (reservations p). unat (reservations p ! s) \<le> unat (reservations q ! s) \<and>
        unat (reservations q ! s) \<le> unat (reservations p ! s) + 1)"

lemma claim_ok_same:
  "same_config p q \<Longrightarrow> reservations q = reservations p \<Longrightarrow> claim_ok owner q = claim_ok owner p"
  by (auto simp: claim_ok_def same_config_def fun_eq_iff)

lemma shift_moves:
  assumes "shift p q (gtok c) (gtok c') idx a b" "pc_ok p c'"
    and "\<And>i. i < length (ps_workers p) \<Longrightarrow> wtok (length (ps_workers p)) i c = on_worker i idx a"
    and "\<And>i. i < length (ps_workers p) \<Longrightarrow> wtok (length (ps_workers p)) i c' = on_worker i idx b"
    and "\<And>x. claim c' = Some x \<Longrightarrow> claim_ok owner p x" "hold c' = hold c"
  shows "moves owner p c owner q c'"
  using assms claim_ok_same[of p q] by (simp add: moves_def shift_def slot_step_def)

lemma moves_refl:
  assumes "limits p" "pc_ok p c'" "gtok c' = gtok c"
    and "\<And>i. i < length (ps_workers p) \<Longrightarrow> wtok (length (ps_workers p)) i c' = wtok (length (ps_workers p)) i c"
    and "\<And>x. claim c' = Some x \<Longrightarrow> claim_ok owner p x" "hold c' = hold c"
  shows "moves owner p c owner p c'"
  using assms by (simp add: moves_def slot_step_def)

text \<open>A change of the images, the telemetry or the instances of a worker.\<close>

definition quiet :: "PlacementState \<Rightarrow> PlacementState \<Rightarrow> bool" where
  "quiet p q \<longleftrightarrow>
     same_config p q \<and> reservations q = reservations p \<and> pendingStarts q = pendingStarts p \<and>
     (\<forall>i < length (ps_workers p). pending_at q i = pending_at p i)"

lemma quiet_refl [simp]: "quiet p p"
  by (simp add: quiet_def)

lemma quiet_set_worker:
  "(\<And>w. wp_pendingStarts (f w) = wp_pendingStarts w) \<Longrightarrow> quiet p (set_worker i f p)"
  by (auto simp: quiet_def set_worker_same set_worker_nth)

lemma quiet_shift: "quiet p q \<Longrightarrow> limits p \<Longrightarrow> shift p q a a idx c c"
  by (auto simp: quiet_def shift_def limits_def same_config_def)

lemma quiet_ops:
  "quiet p (UpdateWorker i st p)" "quiet p (SetTrackImages b p)" "quiet p (reset_telemetry k p)" "quiet p (reset_images k p)"
  "quiet p (add_pending_image k im p)" "quiet p (finishImage r b p)" "quiet p (notifyStartCapacityChanged p)"
  "quiet p (set_worker k (wp_instances_update f) p)"
  unfolding UpdateWorker_def reset_telemetry_def reset_images_def add_pending_image_def finishImage_def
  by (auto intro!: quiet_set_worker simp: Let_def)
    (auto simp: quiet_def same_config_def SetTrackImages_def notifyStartCapacityChanged_def)

lemma RecordStop_quiet: "RecordStop wid d p = (q, r) \<Longrightarrow> quiet p q"
  by (auto simp: RecordStop_def Let_def intro!: quiet_set_worker split: if_splits prod.splits)

text \<open>What the tokens of a thread say of the counters.\<close>

definition covered :: "PlacementState \<Rightarrow> placement_pc \<Rightarrow> bool" where
  "covered p c \<longleftrightarrow>
     gtok c \<le> unat (pendingStarts p) \<and> unat (pendingStarts p) + 1 < 2 ^ 64 \<and>
     (\<forall>i < length (ps_workers p). wtok (length (ps_workers p)) i c \<le> unat (pending_at p i) \<and> unat (pending_at p i) + 1 < 2 ^ 64) \<and>
     (\<forall>s < length (reservations p). unat (reservations p ! s) + 1 < 2 ^ 64)"

lemma coveredD:
  assumes "covered p c"
  shows "unat (pendingStarts p) + 1 < 2 ^ 64" "gtok c = 1 \<Longrightarrow> 0 < pendingStarts p"
    "i < length (ps_workers p) \<Longrightarrow> wtok (length (ps_workers p)) i c = 1 \<Longrightarrow> 0 < pending_at p i"
    "i < length (ps_workers p) \<Longrightarrow> unat (pending_at p i) + 1 < 2 ^ 64"
    "s < length (reservations p) \<Longrightarrow> unat (reservations p ! s) + 1 < 2 ^ 64"
  using assms by (auto simp: covered_def word_less_nat_alt)

subsection \<open>Claiming a slot\<close>

lemma odd_unat: "odd x \<longleftrightarrow> odd (unat (x :: u64))"
  by transfer (simp add: even_nat_iff even_take_bit_eq)

lemma odd_plus_one: "unat x + 1 < 2 ^ 64 \<Longrightarrow> odd (x + 1 :: u64) \<longleftrightarrow> even x"
  using unat_plus_one[of x] odd_unat[of x] odd_unat[of "x + 1"] by simp



lemma claim_step:
  assumes "s < length (reservations p)" "reservations p ! s = g" "even g" "unat g + 1 < 2 ^ 64"
    and "worker_at_index p w" "q = p\<lparr>reservations := (reservations p)[s := g + 1]\<rparr>"
  shows "claim_ok (owner(s := w)) q (s, g + 1, w)" "claim_ok owner p x \<Longrightarrow> claim_ok (owner(s := w)) q x"
proof -
  have odd: "odd (g + 1)" and u: "unat (g + 1) = unat g + 1"
    using odd_plus_one[of g] unat_plus_one[of g] assms(3,4) by auto
  show "claim_ok (owner(s := w)) q (s, g + 1, w)"
    using assms odd by (simp add: claim_ok_def worker_at_index_def)
  show "claim_ok (owner(s := w)) q x" if "claim_ok owner p x"
    using that assms odd u by (auto simp: claim_ok_def nth_list_update)
qed

text \<open>
  The outcome of a step of \<^verbatim>\<open>newReservation\<close>: nothing happens to the counters, or the images change, or a free
  slot is reserved for the worker.
\<close>

lemma newReservation_cases:
  assumes step: "newReservation w im r p = (q, res)" and ok: "nr_ok r"
    and nonempty: "reservations p \<noteq> []"
  obtains (running) r' where "res = Inl r'" "nr_ok r'" "nr_tok r' = nr_tok r" "nr_claim w r' = nr_claim w r" "quiet p q"
    | (claimed) s g where "s < length (reservations p)" "reservations p ! s = g" "even g" "nr_tok r = 1"
        "q = p\<lparr>reservations := (reservations p)[s := g + 1]\<rparr>"
        "res = Inl (NrTrack s (g + 1)) \<or> res = Inr (Some (reservation_of w im s (g + 1)))"
    | (failed) "res = Inr None" "quiet p q" "nr_tok r = 1"
    | (ended) s g where "res = Inr (Some (reservation_of w im s g))" "nr_tok r = 0" "nr_claim w r = Some (s, g, w)" "quiet p q"
proof (cases r)
  case (NrClaim c)
  show thesis
  proof (cases c)
    case ClCursor
    have "quiet p (p\<lparr>reservationCursor := v\<rparr>)" for v
      by (simp add: quiet_def same_config_def)
    then show thesis
      using step NrClaim ClCursor running by auto
  next
    case (ClLoad start offset)
    then show thesis
      using step NrClaim running failed by (auto simp: Let_def split: if_splits)
  next
    case (ClCas start offset state)
    let ?s = "(start + offset) mod length (reservations p)"
    show thesis
    proof (cases "reservations p ! ?s = state")
      case True
      have "?s < length (reservations p)"
        using nonempty by simp
      then show thesis
        using claimed[of ?s state] step ok NrClaim ClCas True by (auto simp: Let_def split: if_splits)
    next
      case False
      then show thesis
        using step NrClaim ClCas running by (auto simp: Let_def)
    qed
  qed
next
  case (NrTrack s g)
  then show thesis
    using step running ended by (auto split: if_splits)
next
  case (NrImage s g)
  then show thesis
    using step ended quiet_ops(5) by auto
qed

lemma claimed_moves:
  assumes s: "s < length (reservations p)" "reservations p ! s = g" "even g" and lim: "limits p"
    and q: "q = p\<lparr>reservations := (reservations p)[s := g + 1]\<rparr>" and w: "worker_at_index p w"
    and small: "unat g + 1 < 2 ^ 64" and c': "pc_ok p c'" "gtok c = gtok c' + 1" "claim c' = Some (s, g + 1, w)"
    and holds: "hold c = None" "hold c' = Some (s, g + 1)"
    and wt: "\<And>i. i < length (ps_workers p) \<Longrightarrow>
      wtok (length (ps_workers p)) i c = wtok (length (ps_workers p)) i c' + on_worker i w 1"
  shows "moves owner p c (owner(s := w)) q c'"
proof -
  have odd: "odd (g + 1)" and u: "unat (g + 1) = unat g + 1"
    using odd_plus_one[of g] unat_plus_one[of g] s small by auto
  have same: "same_config p q" "limits q"
    using lim by (simp_all add: q same_config_def limits_def)
  note h = held_claim[of s "reservations p" "g + 1" _ owner w]
  have "held (\<lambda>x. x = int i) (owner(s := w)) (reservations q) = held (\<lambda>x. x = int i) owner (reservations p) + on_worker i w 1" for i
    using h[of "\<lambda>x. x = int i"] s odd by (simp add: q on_worker_def)
  moreover have "held (\<lambda>_. True) (owner(s := w)) (reservations q) = held (\<lambda>_. True) owner (reservations p) + 1"
    using h[of "\<lambda>_. True"] s odd by (simp add: q)
  moreover have "unat (reservations p ! j) \<le> unat (reservations q ! j) \<and> unat (reservations q ! j) \<le> unat (reservations p ! j) + 1"
    if "j < length (reservations p)" for j
    using s u that by (auto simp: q nth_list_update)
  moreover have "slot_step p c q c'"
    unfolding slot_step_def using s u holds q by auto
  ultimately show ?thesis
    using same c' wt claim_step[OF s small w q, of owner] by (auto simp: moves_def q)
qed

lemma res_claim_reservation_of [simp]: "res_claim (reservation_of w im s g) = Some (s, g, w)"
  by (simp add: res_claim_def reservation_of_def)

lemma reservation_ok_of:
  "worker_at_index p w \<Longrightarrow> s < length (reservations p) \<Longrightarrow> reservation_ok p (reservation_of w im s g)"
  by (simp add: reservation_ok_def reservation_of_def)

lemma res_claim_no_reservation [simp]:
  "res_claim emptyReservation = None" "reservation_ok p emptyReservation"
  "res_reservation (no_reservation c e) = emptyReservation"
  by (simp_all add: res_claim_def emptyReservation_def reservation_ok_def no_reservation_def)

subsection \<open>Every step moves tokens correctly\<close>

lemma choice_index_nat: "worker_at_index p (choice_index c) \<Longrightarrow> int (nat (choice_index c)) = choice_index c \<and> nat (choice_index c) < length (ps_workers p)"
  by (auto simp: worker_at_index_def)

text \<open>The step of a thread at \<open>c\<close> that runs \<^verbatim>\<open>newReservation\<close>.\<close>

lemma newReservation_moves:
  assumes nr: "newReservation w im r p = (q, res)" and ok: "nr_ok r" "worker_at_index p w" and ne: "reservations p \<noteq> []"
    and lim: "limits p" and small: "\<And>s. s < length (reservations p) \<Longrightarrow> unat (reservations p ! s) + 1 < 2 ^ 64"
    and cl: "\<And>x. nr_claim w r = Some x \<Longrightarrow> claim_ok owner p x"
    and c: "gtok c = nr_tok r" "\<And>i. i < length (ps_workers p) \<Longrightarrow> wtok (length (ps_workers p)) i c = on_worker i w (nr_tok r)"
    and holds: "hold c = map_option (\<lambda>(s, g, w). (s, g)) (nr_claim w r)"
    and run: "\<And>r'. res = Inl r' \<Longrightarrow> nr_ok r' \<Longrightarrow> pc_ok p c' \<and> gtok c' = nr_tok r' \<and> claim c' = nr_claim w r' \<and>
      hold c' = map_option (\<lambda>(s, g, w). (s, g)) (nr_claim w r') \<and>
      (\<forall>i < length (ps_workers p). wtok (length (ps_workers p)) i c' = on_worker i w (nr_tok r'))"
    and fail: "res = Inr None \<Longrightarrow> pc_ok p c' \<and> gtok c' = 1 \<and> claim c' = None \<and> hold c' = None \<and>
      (\<forall>i < length (ps_workers p). wtok (length (ps_workers p)) i c' = on_worker i w 1)"
    and return: "\<And>x. res = Inr (Some x) \<Longrightarrow> \<exists>y. c' = ThScheduled y \<and> res_reservation y = x"
  shows "\<exists>owner'. moves owner p c owner' q c'"
  using nr ok(1) ne
proof (cases rule: newReservation_cases)
  case (running r')
  then show ?thesis
    using run[OF running(1,2)] cl c holds quiet_shift[OF running(5) lim]
    by (auto intro!: exI[of _ owner] shift_moves[where idx = w and a = "nr_tok r" and b = "nr_tok r"])
next
  case (claimed s g)
  have "moves owner p c (owner(s := w)) q c'"
  proof (rule claimed_moves[OF claimed(1-3) lim claimed(5) ok(2)])
    show "unat g + 1 < 2 ^ 64"
      using small[OF claimed(1)] claimed(2) by simp
    have "nr_claim w r = None"
      using claimed(4) by (cases r) auto
    then show "pc_ok p c'" "gtok c = gtok c' + 1" "claim c' = Some (s, g + 1, w)" "hold c = None" "hold c' = Some (s, g + 1)"
      "\<And>i. i < length (ps_workers p) \<Longrightarrow> wtok (length (ps_workers p)) i c = wtok (length (ps_workers p)) i c' + on_worker i w 1"
      using claimed(4,6) run return c holds claimed(1) ok(2) by (auto simp: reservation_ok_of)
  qed
  then show ?thesis
    by blast
next
  case failed
  have "nr_claim w r = None"
    using failed(3) by (cases r) auto
  then show ?thesis
    using failed fail c holds quiet_shift[OF failed(2) lim]
    by (auto intro!: exI[of _ owner] shift_moves[where idx = w and a = 1 and b = 1])
next
  case (ended s g)
  have x: "claim_ok owner p (s, g, w)"
    using cl ended(3) by simp
  then have "s < length (reservations p)"
    by (simp add: claim_ok_def)
  then show ?thesis
    using return[OF ended(1)] c holds ended(2,3) ok(2) x quiet_shift[OF ended(4) lim]
    by (auto intro!: exI[of _ owner] shift_moves[where idx = w and a = 0 and b = 0] reservation_ok_of)
qed

lemma balanced_moves:
  assumes step: "scheduleBalanced k f c (p, h) = ((q, h'), r)" and ok: "sb_ok p c" and lim: "limits p"
    and cov: "covered p (ThBalanced k f c)" and ne: "reservations p \<noteq> []"
    and cl: "\<And>x. claim (ThBalanced k f c) = Some x \<Longrightarrow> claim_ok owner p x"
  shows "\<exists>owner'. moves owner p (ThBalanced k f c) owner' q (case r of Inl c' \<Rightarrow> ThBalanced k f c' | Inr res \<Rightarrow> ThScheduled res)"
proof (cases c)
  case SbEnter
  then show ?thesis
    using step lim by (auto intro!: exI[of _ owner] moves_refl split: if_splits)
next
  case (SbGlobal g)
  obtain q' r' where g: "reserveGlobalStart g p = (q', r')"
    by fastforce
  note sh = reserveGlobalStart_shift[OF g _ coveredD(1)[OF cov] lim]
  show ?thesis
    using step SbGlobal g sh ok
    by (cases r') (auto intro!: exI[of _ owner] shift_moves[where idx = 0 and a = 0 and b = 0] split: if_splits)
next
  case SbNext
  then show ?thesis
    using step lim ok by (auto intro!: exI[of _ owner] moves_refl split: scheduler.splits prod.splits)
next
  case (SbWorker start offset w)
  let ?idx = "(start + offset) mod length (ps_workers p)"
  have n: "ps_workers p \<noteq> []" "rw_ok p (int ?idx) w" and i: "?idx < length (ps_workers p)"
    using ok SbWorker by auto
  obtain q' r' where w: "reserveWorker (int ?idx) w p = (q', r')"
    by fastforce
  have "rw_tok w = 1 \<Longrightarrow> 0 < pending_at p (nat (int ?idx))" "unat (pending_at p (nat (int ?idx))) + 1 < 2 ^ 64"
    using coveredD(3,4)[OF cov i] SbWorker by (simp_all add: on_worker_def)
  note sh = reserveWorker_shift[OF w n(2) lim this]
  have "\<exists>c'. r = Inl c' \<and> pc_ok p (ThBalanced k f c') \<and> sb_gtok c' = 1 \<and> claim (ThBalanced k f c') = None \<and> q = q' \<and>
    (\<forall>j. sb_wtok (length (ps_workers p)) j c' = on_worker j (int ?idx) (case r' of Inl w' \<Rightarrow> rw_tok w' | Inr b \<Rightarrow> if b then 1 else 0))"
    using step SbWorker w sh n i by (cases r') (auto simp: Let_def worker_at_index_def split: bool.splits if_splits)
  then show ?thesis
    using sh(1)[of 1] SbWorker by (auto intro!: exI[of _ owner] shift_moves[where idx = "int ?idx"])
next
  case (SbNew idx r0)
  have w: "worker_at_index p (int idx)" "nr_ok r0"
    using ok SbNew by auto
  obtain q' r' where nr: "newReservation (int idx) (functionImage f) r0 p = (q', r')"
    by fastforce
  have q: "q = q'"
    using step SbNew nr by (auto split: sum.splits option.splits)
  show ?thesis
    unfolding q
    by (rule newReservation_moves[OF nr w(2,1) ne lim coveredD(5)[OF cov]])
      (use step SbNew nr w cl in \<open>auto split: sum.splits option.splits\<close>)
next
  case (SbUndo idx d)
  obtain q' r' where d: "releaseWorker idx d p = (q', r')"
    by fastforce
  have i: "worker_at_index p (int idx)" "idx < length (ps_workers p)"
    using ok SbUndo by (auto simp: worker_at_index_def)
  have "0 < pending_at p idx"
    using coveredD(3)[OF cov i(2)] SbUndo by (simp add: on_worker_def)
  note sh = releaseWorker_shift[OF d this lim i(2), where a = 1]
  show ?thesis
    using step SbUndo d sh i
    by (cases r') (auto intro!: exI[of _ owner] shift_moves[where idx = "int idx"])
next
  case (SbRelease reason d)
  obtain q' r' where d: "releaseGlobalStart d p = (q', r')"
    by fastforce
  note sh = releaseGlobalStart_shift[OF d _ lim, where idx = 0]
  show ?thesis
    using step SbRelease d sh coveredD(2)[OF cov]
    by (cases r') (auto intro!: exI[of _ owner] shift_moves[where idx = 0 and a = 0 and b = 0])
qed

lemma snapshot_moves:
  assumes step: "scheduleSnapshot k f orders c (p, h) = ((q, h'), r)" and ok: "ss_ok p c" and lim: "limits p"
    and cov: "covered p (ThSnapshot k f c)" and ne: "reservations p \<noteq> []"
    and cl: "\<And>x. claim (ThSnapshot k f c) = Some x \<Longrightarrow> claim_ok owner p x"
  shows "\<exists>owner'. moves owner p (ThSnapshot k f c) owner' q (case r of Inl c' \<Rightarrow> ThSnapshot k f c' | Inr res \<Rightarrow> ThScheduled res)"
proof (cases c)
  case (SsSnapshot acc s)
  then show ?thesis
    using step lim by (auto intro!: exI[of _ owner] moves_refl split: if_splits sum.splits)
next
  case (SsGlobal snap g)
  obtain q' r' where g: "reserveGlobalStart g p = (q', r')"
    by fastforce
  note sh = reserveGlobalStart_shift[OF g _ coveredD(1)[OF cov] lim]
  show ?thesis
    using step SsGlobal g sh ok
    by (cases r') (auto intro!: exI[of _ owner] shift_moves[where idx = 0 and a = 0 and b = 0] split: if_splits)
next
  case (SsPick snap)
  then show ?thesis
    using step lim by (auto intro!: exI[of _ owner] moves_refl split: option.splits if_splits)
next
  case (SsWorker ch w)
  let ?idx = "choice_index ch"
  have ok': "rw_ok p ?idx w"
    using ok SsWorker by simp
  obtain q' r' where w: "reserveWorker ?idx w p = (q', r')"
    by fastforce
  show ?thesis
  proof (cases "worker_at_index p ?idx")
    case True
    note i = choice_index_nat[OF True]
    have "rw_tok w = 1 \<Longrightarrow> 0 < pending_at p (nat ?idx)" "unat (pending_at p (nat ?idx)) + 1 < 2 ^ 64"
      using coveredD(3,4)[OF cov, of "nat ?idx"] SsWorker i by (simp_all add: on_worker_def)
    note sh = reserveWorker_shift[OF w ok' lim this]
    have "\<exists>c'. r = Inl c' \<and> pc_ok p (ThSnapshot k f c') \<and> ss_gtok c' = 1 \<and> claim (ThSnapshot k f c') = None \<and> q = q' \<and>
      (\<forall>j. ss_wtok j c' = on_worker j ?idx (case r' of Inl w' \<Rightarrow> rw_tok w' | Inr b \<Rightarrow> if b then 1 else 0))"
      using step SsWorker w sh by (cases r') (auto split: bool.splits if_splits)
    then show ?thesis
      using sh(1)[of 1] SsWorker by (auto intro!: exI[of _ owner] shift_moves[where idx = ?idx])
  next
    case False
    then have "w = RwEligible"
      using ok' by (cases w) auto
    then have "q' = p" "r' = Inr False"
      using w False by (auto simp: worker_at_index_def not_le not_less)
    then show ?thesis
      using step SsWorker w lim \<open>w = RwEligible\<close>
      by (auto intro!: exI[of _ owner] moves_refl)
  qed
next
  case (SsNew ch r0)
  have w: "worker_at_index p (choice_index ch)" "nr_ok r0"
    using ok SsNew by auto
  obtain q' r' where nr: "newReservation (choice_index ch) (functionImage f) r0 p = (q', r')"
    by fastforce
  have q: "q = q'"
    using step SsNew nr by (auto split: sum.splits option.splits)
  show ?thesis
    unfolding q
    by (rule newReservation_moves[OF nr w(2,1) ne lim coveredD(5)[OF cov]])
      (use step SsNew nr w cl in \<open>auto split: sum.splits option.splits\<close>)
next
  case (SsUndo ch d)
  have i: "worker_at_index p (choice_index ch)"
    using ok SsUndo by simp
  note j = choice_index_nat[OF i]
  obtain q' r' where d: "releaseWorker (nat (choice_index ch)) d p = (q', r')"
    by fastforce
  have "0 < pending_at p (nat (choice_index ch))"
    using coveredD(3)[OF cov, of "nat (choice_index ch)"] SsUndo j by (simp add: on_worker_def)
  note sh = releaseWorker_shift[OF d this lim, where a = 1]
  show ?thesis
    using step SsUndo d sh i j
    by (cases r') (auto intro!: exI[of _ owner] shift_moves[where idx = "choice_index ch"])
next
  case (SsRelease ch err d)
  obtain q' r' where d: "releaseGlobalStart d p = (q', r')"
    by fastforce
  note sh = releaseGlobalStart_shift[OF d _ lim, where idx = 0]
  show ?thesis
    using step SsRelease d sh coveredD(2)[OF cov]
    by (cases r') (auto intro!: exI[of _ owner] shift_moves[where idx = 0 and a = 0 and b = 0])
qed

lemma complete_moves:
  assumes comp: "completeReservation r p = (q, True)" and lim: "limits p" and ok: "reservation_ok p r"
    and cl: "\<And>x. res_claim r = Some x \<Longrightarrow> claim_ok owner p x"
    and small: "\<And>s. s < length (reservations p) \<Longrightarrow> unat (reservations p ! s) + 1 < 2 ^ 64"
  shows "moves owner p (ThFinish b r CmComplete) owner q (ThFinish b r (CmDecrement d))"
proof -
  let ?s = "nat (Slot r)" and ?g = "Generation r"
  have v: "Valid r" and s: "?s < length (reservations p)" and g: "reservations p ! ?s = ?g"
    and q: "q = p\<lparr>reservations := (reservations p)[?s := ?g + 1]\<rparr>"
    using comp by (auto simp: completeReservation_def split: if_splits)
  have claim: "claim_ok owner p (?s, ?g, WorkerIndex r)"
    using cl v by (simp add: res_claim_def)
  then have odd: "odd ?g" and own: "owner ?s = WorkerIndex r"
    using g by (auto simp: claim_ok_def)
  have u: "unat (?g + 1) = unat ?g + 1" and even: "even (?g + 1)"
    using small[OF s] g unat_plus_one[of ?g] odd_plus_one[of ?g] odd by auto
  note h = held_complete[OF s _ even, of _ owner]
  have "held (\<lambda>x. x = int i) owner (reservations p) = on_worker i (WorkerIndex r) 1 + held (\<lambda>x. x = int i) owner (reservations q)" for i
    using h[of "\<lambda>x. x = int i"] odd g own by (auto simp: q on_worker_def split: if_splits)
  moreover have "held (\<lambda>_. True) owner (reservations q) + 1 = held (\<lambda>_. True) owner (reservations p)"
    using h[of "\<lambda>_. True"] odd g by (simp add: q)
  moreover have "same_config p q" "limits q"
    using lim by (simp_all add: q same_config_def limits_def)
  moreover have "claim_ok owner q x" if "claim_ok owner p x" for x
    using that g u even s by (auto simp: claim_ok_def q nth_list_update split: if_splits)
  moreover have "unat (reservations p ! j) \<le> unat (reservations q ! j) \<and> unat (reservations q ! j) \<le> unat (reservations p ! j) + 1"
    if "j < length (reservations p)" for j
    using g u s that by (auto simp: q nth_list_update)
  moreover have "slot_step p (ThFinish b r CmComplete) q (ThFinish b r (CmDecrement d))"
    unfolding slot_step_def using s g u odd q by (intro disjI2 exI[of _ ?s]) simp
  ultimately show ?thesis
    using ok v by (simp add: moves_def q)
qed

lemma finish_moves:
  assumes step: "finishReservation b r c p = (q, c')" and ok: "pc_ok p (ThFinish b r c)" and lim: "limits p"
    and cov: "covered p (ThFinish b r c)"
    and cl: "\<And>x. claim (ThFinish b r c) = Some x \<Longrightarrow> claim_ok owner p x"
  shows "moves owner p (ThFinish b r c) owner q (case c' of None \<Rightarrow> ThDone | Some c'' \<Rightarrow> ThFinish b r c'')"
proof (cases c)
  case CmComplete
  obtain q' won where comp: "completeReservation r p = (q', won)"
    by fastforce
  show ?thesis
  proof (cases won)
    case True
    then show ?thesis
      using step CmComplete comp complete_moves[of r p q' owner] ok lim cl coveredD(5)[OF cov] by auto
  next
    case False
    then have "q' = p"
      using comp by (auto simp: completeReservation_def split: if_splits)
    then show ?thesis
      using step CmComplete comp False lim by (auto intro!: moves_refl)
  qed
next
  case (CmDecrement d)
  let ?i = "nat (WorkerIndex r)"
  have v: "Valid r" and i: "worker_at_index p (WorkerIndex r)"
    using ok CmDecrement by (auto simp: reservation_ok_def)
  then have j: "int ?i = WorkerIndex r" "?i < length (ps_workers p)"
    by (auto simp: worker_at_index_def)
  obtain q' r' where d: "releaseWorker ?i d p = (q', r')"
    by fastforce
  have "0 < pending_at p ?i"
    using coveredD(3)[OF cov j(2)] CmDecrement j(1) by (simp add: on_worker_def)
  note sh = releaseWorker_shift[OF d this lim j(2), where a = 1]
  show ?thesis
    using step CmDecrement d sh ok j
    by (cases r') (auto intro!: shift_moves[where idx = "WorkerIndex r"] split: if_splits)
next
  case CmInstances
  then show ?thesis
    using step ok quiet_shift[OF quiet_ops(8) lim]
    by (auto intro!: shift_moves[where idx = 0 and a = 0 and b = 0])
next
  case CmImage
  then show ?thesis
    using step ok quiet_shift[OF quiet_ops(6) lim]
    by (auto intro!: shift_moves[where idx = 0 and a = 0 and b = 0])
next
  case (CmRelease d)
  obtain q' r' where d: "releaseGlobalStart d p = (q', r')"
    by fastforce
  note sh = releaseGlobalStart_shift[OF d _ lim, where idx = 0]
  show ?thesis
    using step CmRelease d sh ok coveredD(2)[OF cov]
    by (cases r') (auto intro!: shift_moves[where idx = 0 and a = 0 and b = 0])
next
  case CmNotify
  then show ?thesis
    using step quiet_shift[OF quiet_ops(7) lim]
    by (auto intro!: shift_moves[where idx = 0 and a = 0 and b = 0])
qed

lemma thread_moves:
  assumes step: "thread_step orders c s = ((q, h'), c')" and ok: "pc_ok (pstate s) c" and lim: "limits (pstate s)"
    and cov: "covered (pstate s) c" and ne: "reservations (pstate s) \<noteq> []"
    and cl: "\<And>x. claim c = Some x \<Longrightarrow> claim_ok owner (pstate s) x"
  shows "\<exists>owner'. moves owner (pstate s) c owner' q c'"
proof (cases c)
  case (ThSchedule f)
  then show ?thesis
    using step lim by (auto intro!: exI[of _ owner] moves_refl simp: Schedule_def split: option.splits if_splits)
next
  case (ThBalanced k f d)
  obtain q' h'' r where b: "scheduleBalanced k f d (pstate s, schedulers s) = ((q', h''), r)"
    by (metis prod.exhaust)
  show ?thesis
    using balanced_moves[OF b, of owner] ok lim cov ne cl step b ThBalanced by (cases r) auto
next
  case (ThSnapshot k f d)
  obtain q' h'' r where b: "scheduleSnapshot k f orders d (pstate s, schedulers s) = ((q', h''), r)"
    by (metis prod.exhaust)
  show ?thesis
    using snapshot_moves[OF b, of owner] ok lim cov ne cl step b ThSnapshot by (cases r) auto
next
  case (ThFinish b r d)
  obtain q' c'' where f: "finishReservation b r d (pstate s) = (q', c'')"
    by fastforce
  show ?thesis
    using finish_moves[OF f, of owner] ok lim cov cl step f ThFinish by (cases c'') auto
next
  case (ThStop wid d)
  obtain q' r' where f: "RecordStop wid d (pstate s) = (q', r')"
    by fastforce
  show ?thesis
    using step f ThStop quiet_shift[OF RecordStop_quiet[OF f] lim]
    by (cases r') (auto intro!: exI[of _ owner] shift_moves[where idx = 0 and a = 0 and b = 0])
next
  case (ThScheduled r)
  then show ?thesis
    using step lim ok cl by (auto intro!: exI[of _ owner] moves_refl)
next
  case ThDone
  then show ?thesis
    using step lim by (auto intro!: exI[of _ owner] moves_refl)
qed

subsection \<open>The invariant\<close>

definition placement_inv :: "nat \<Rightarrow> (nat \<Rightarrow> int) \<Rightarrow> placement_sys \<Rightarrow> bool" where
  "placement_inv N owner s \<longleftrightarrow>
     (let p = pstate s; n = length (ps_workers p) in
      reservations p \<noteq> [] \<and> limits p \<and> length (threads s) \<le> N \<and> (\<forall>j < length (reservations p). unat (reservations p ! j) \<le> N) \<and>
      (\<forall>c \<in> set (threads s). pc_ok p c \<and> (\<forall>x. claim c = Some x \<longrightarrow> claim_ok owner p x)) \<and>
      unat (pendingStarts p) = sum_list (map gtok (threads s)) + held (\<lambda>_. True) owner (reservations p) \<and>
      (\<forall>i < n. unat (pending_at p i) = sum_list (map (wtok n i) (threads s)) + held (\<lambda>w. w = int i) owner (reservations p)))"

lemma sum_list_map_update:
  fixes f :: "'a \<Rightarrow> nat"
  assumes "t < length xs"
  shows "sum_list (map f (xs[t := y])) + f (xs ! t) = sum_list (map f xs) + f y"
proof -
  have "sum_list (map f (xs[t := y])) = sum_list (map f (take t xs @ y # drop (Suc t) xs))"
    using assms by (simp add: upd_conv_take_nth_drop)
  moreover have "sum_list (map f xs) = sum_list (map f (take t xs @ xs ! t # drop (Suc t) xs))"
    using id_take_nth_drop[OF assms] by simp
  ultimately show ?thesis
    by simp
qed

lemma sum_list_map_le:
  fixes f :: "'a \<Rightarrow> nat"
  assumes "\<And>x. f x \<le> 1"
  shows "sum_list (map f xs) \<le> length xs"
proof (induction xs)
  case (Cons x xs)
  then show ?case
    using assms[of x] by simp
qed simp

lemma nr_tok_le: "nr_tok r \<le> Suc 0"
  by (cases r) auto

lemma rw_tok_le: "rw_tok r \<le> Suc 0"
  by (cases r) auto

lemma gtok_le: "gtok c \<le> 1"
proof (cases c)
  case (ThBalanced k f d)
  then show ?thesis by (cases d) (auto simp: nr_tok_le)
next
  case (ThSnapshot k f d)
  then show ?thesis by (cases d) (auto simp: nr_tok_le)
next
  case (ThFinish b r d)
  then show ?thesis by (cases d) auto
qed auto

lemma wtok_le: "wtok n i c \<le> 1"
proof (cases c)
  case (ThBalanced k f d)
  then show ?thesis by (cases d) (auto simp: nr_tok_le rw_tok_le on_worker_def)
next
  case (ThSnapshot k f d)
  then show ?thesis by (cases d) (auto simp: nr_tok_le rw_tok_le on_worker_def)
next
  case (ThFinish b r d)
  then show ?thesis by (cases d) (auto simp: on_worker_def)
qed auto

lemma held_le: "held P owner res \<le> length res"
proof -
  have "held P owner res \<le> card {..<length res}"
    unfolding held_def by (rule card_mono) auto
  then show ?thesis
    by simp
qed

lemma member_le_sum_list_map: "c \<in> set xs \<Longrightarrow> f c \<le> sum_list (map f xs)" for f :: "'a \<Rightarrow> nat"
  by (induction xs) auto

lemma inv_covered:
  assumes inv: "placement_inv N owner s" and c: "c \<in> set (threads s)"
    and small: "N + length (reservations (pstate s)) + 1 < 2 ^ 64"
  shows "covered (pstate s) c"
proof -
  let ?p = "pstate s" and ?n = "length (ps_workers (pstate s))"
  have len: "length (threads s) \<le> N"
    and g: "unat (pendingStarts ?p) = sum_list (map gtok (threads s)) + held (\<lambda>_. True) owner (reservations ?p)"
    and w: "\<And>i. i < ?n \<Longrightarrow> unat (pending_at ?p i) = sum_list (map (wtok ?n i) (threads s)) + held (\<lambda>w. w = int i) owner (reservations ?p)"
    and r: "\<And>j. j < length (reservations ?p) \<Longrightarrow> unat (reservations ?p ! j) \<le> N"
    using inv by (auto simp: placement_inv_def Let_def)
  have sums: "sum_list (map gtok (threads s)) \<le> N" "sum_list (map (wtok ?n i) (threads s)) \<le> N" for i
    using sum_list_map_le[of gtok, OF gtok_le, of "threads s"] sum_list_map_le[of "wtok ?n i", OF wtok_le, of "threads s"] len
    by (auto intro: le_trans)
  have "gtok c \<le> unat (pendingStarts ?p)" "unat (pendingStarts ?p) + 1 < 2 ^ 64"
    using g member_le_sum_list_map[OF c, of gtok] sums(1) held_le[of "\<lambda>_. True" owner "reservations ?p"] small by linarith+
  moreover have "wtok ?n i c \<le> unat (pending_at ?p i)" "unat (pending_at ?p i) + 1 < 2 ^ 64" if "i < ?n" for i
    using w[OF that] member_le_sum_list_map[OF c, of "wtok ?n i"] sums(2)[of i] held_le[of "\<lambda>w. w = int i" owner "reservations ?p"] small
    by linarith+
  moreover have "unat (reservations ?p ! j) + 1 < 2 ^ 64" if "j < length (reservations ?p)" for j
    using r[OF that] small by linarith
  ultimately show ?thesis
    unfolding covered_def by blast
qed

lemma inv_run:
  assumes inv: "placement_inv N owner s" and t: "t < length (threads s)"
    and small: "N + length (reservations (pstate s)) + 1 < 2 ^ 64"
    and step: "thread_step orders (threads s ! t) s = ((q, h), c')"
  shows "\<exists>owner'. placement_inv (Suc N) owner' (s\<lparr>pstate := q, schedulers := h, threads := (threads s)[t := c']\<rparr>)"
    "\<forall>j < length (reservations (pstate s)). unat (reservations (pstate s) ! j) \<le> unat (reservations q ! j)"
    "length (reservations q) = length (reservations (pstate s))"
proof -
  let ?p = "pstate s" and ?n = "length (ps_workers (pstate s))" and ?c = "threads s ! t"
  have c: "?c \<in> set (threads s)"
    using t by simp
  have facts: "limits ?p" "reservations ?p \<noteq> []" "pc_ok ?p ?c" "\<And>x. claim ?c = Some x \<Longrightarrow> claim_ok owner ?p x"
    using inv c by (auto simp: placement_inv_def Let_def)
  obtain owner' where m: "moves owner ?p ?c owner' q c'"
    using thread_moves[OF step facts(3,1) inv_covered[OF inv c small] facts(2), of owner] facts(4) by blast
  then have same: "same_config ?p q"
    by (simp add: moves_def)
  note ok = ok_same_config(8)[OF same]
  have g: "unat (pendingStarts q) = sum_list (map gtok ((threads s)[t := c'])) + held (\<lambda>_. True) owner' (reservations q)"
    using m inv sum_list_map_update[OF t, of gtok c'] by (simp add: moves_def placement_inv_def Let_def)
  have w: "unat (pending_at q i) = sum_list (map (wtok ?n i) ((threads s)[t := c'])) + held (\<lambda>w. w = int i) owner' (reservations q)"
    if "i < ?n" for i
  proof -
    have "unat (pending_at q i) + wtok ?n i ?c + held (\<lambda>w. w = int i) owner (reservations ?p) =
      unat (pending_at ?p i) + wtok ?n i c' + held (\<lambda>w. w = int i) owner' (reservations q)"
      using m that by (simp add: moves_def)
    moreover have "unat (pending_at ?p i) = sum_list (map (wtok ?n i) (threads s)) + held (\<lambda>w. w = int i) owner (reservations ?p)"
      using inv that by (simp add: placement_inv_def Let_def)
    ultimately show ?thesis
      using sum_list_map_update[OF t, of "wtok ?n i" c'] by linarith
  qed
  have threads: "pc_ok q x \<and> (\<forall>y. claim x = Some y \<longrightarrow> claim_ok owner' q y)" if x: "x \<in> set ((threads s)[t := c'])" for x
  proof -
    consider "x = c'" | "x \<in> set (threads s)"
      using x set_update_subset_insert[of "threads s" t c'] by blast
    then show ?thesis
      using m inv ok by cases (auto simp: moves_def placement_inv_def Let_def)
  qed
  have "unat (reservations q ! j) \<le> Suc N" if "j < length (reservations ?p)" for j
    using m inv that by (fastforce simp: moves_def placement_inv_def Let_def intro: le_trans)
  then have "placement_inv (Suc N) owner' (s\<lparr>pstate := q, schedulers := h, threads := (threads s)[t := c']\<rparr>)"
    using g w threads inv m same facts(2)
    by (auto simp: placement_inv_def Let_def same_config_def moves_def simp flip: length_greater_0_conv)
  then show "\<exists>owner'. placement_inv (Suc N) owner' (s\<lparr>pstate := q, schedulers := h, threads := (threads s)[t := c']\<rparr>)"
    by blast
  show "\<forall>j < length (reservations ?p). unat (reservations ?p ! j) \<le> unat (reservations q ! j)"
    using m by (simp add: moves_def)
  show "length (reservations q) = length (reservations ?p)"
    using same by (simp add: same_config_def)
qed

subsection \<open>Every reserved slot has one holder\<close>

definition holder :: "placement_sys \<Rightarrow> nat \<Rightarrow> nat \<Rightarrow> bool" where
  "holder s j t \<longleftrightarrow> t < length (threads s) \<and> hold (threads s ! t) = Some (j, reservations (pstate s) ! j)"

definition slots_held :: "placement_sys \<Rightarrow> bool" where
  "slots_held s \<longleftrightarrow> (\<forall>j < length (reservations (pstate s)). odd (reservations (pstate s) ! j) \<longrightarrow> (\<exists>!t. holder s j t))"

lemma hold_claim: "hold c = Some (s, g) \<Longrightarrow> \<exists>w. claim c = Some (s, g, w)"
  by (cases c) auto

lemma hold_le:
  assumes "placement_inv N owner s" "c \<in> set (threads s)" "hold c = Some (j, g)"
  shows "j < length (reservations (pstate s))" "odd g" "unat g \<le> unat (reservations (pstate s) ! j)"
  using assms hold_claim[OF assms(3)] by (fastforce simp: placement_inv_def claim_ok_def Let_def)+

lemma slots_held_run:
  assumes inv: "placement_inv N owner s" and held: "slots_held s" and t: "t < length (threads s)"
    and step: "slot_step (pstate s) (threads s ! t) q c'"
    and s': "s' = s\<lparr>pstate := q, schedulers := h, threads := (threads s)[t := c']\<rparr>"
  shows "slots_held s'"
proof -
  let ?res = "reservations (pstate s)"
  from step consider (same) "reservations q = ?res" "hold c' = hold (threads s ! t)"
    | (slot) k where "k < length ?res" "hold (threads s ! t) = None" "unat (?res ! k + 1) = unat (?res ! k) + 1"
        "reservations q = ?res[k := ?res ! k + 1]" "hold c' = (if even (?res ! k) then Some (k, ?res ! k + 1) else None)"
    unfolding slot_step_def by blast
  then show ?thesis
  proof cases
    case same
    have "holder s' j u \<longleftrightarrow> holder s j u" for j u
      using same t by (auto simp: holder_def s' nth_list_update)
    then show ?thesis
      using held same by (simp add: slots_held_def s')
  next
    case slot
    show ?thesis
      unfolding slots_held_def
    proof (intro allI impI)
      fix j assume j: "j < length (reservations (pstate s'))" "odd (reservations (pstate s') ! j)"
      show "\<exists>!u. holder s' j u"
      proof (cases "j = k")
        case False
        then have "holder s' j u \<longleftrightarrow> holder s j u" for u
          using slot t by (auto simp: holder_def s' nth_list_update)
        then show ?thesis
          using held j False slot by (auto simp: slots_held_def s' nth_list_update)
      next
        case True
        then have "even (?res ! k)"
          using j slot odd_plus_one[of "?res ! k"] unsigned_less[of "?res ! k + 1"] by (simp add: s')
        then have "hold c' = Some (k, ?res ! k + 1)"
          using slot by simp
        then have "holder s' k t"
          using slot t by (simp add: holder_def s')
        moreover have "u = t" if u: "holder s' k u" for u
        proof (rule ccontr)
          assume ut: "u \<noteq> t"
          then have "u < length (threads s)" "hold (threads s ! u) = Some (k, ?res ! k + 1)"
            using u slot by (auto simp: holder_def s')
          then have "unat (?res ! k + 1) \<le> unat (?res ! k)"
            using hold_le(3)[OF inv nth_mem] by blast
          then show False
            using slot by simp
        qed
        ultimately show ?thesis
          using True by blast
      qed
    qed
  qed
qed

subsection \<open>Runs\<close>

lemma inv_quiet:
  assumes "placement_inv N owner s" "quiet (pstate s) q"
  shows "placement_inv (Suc N) owner (s\<lparr>pstate := q\<rparr>)"
proof -
  have same: "same_config (pstate s) q"
    using assms(2) by (simp add: quiet_def)
  show ?thesis
    using assms ok_same_config(8)[OF same] claim_ok_same[OF same]
    by (auto simp: placement_inv_def quiet_def Let_def limits_def same_config_def le_SucI)
qed

lemma inv_spawn:
  assumes "placement_inv N owner s" "pc_ok (pstate s) c" "\<And>x. claim c = Some x \<Longrightarrow> claim_ok owner (pstate s) x"
    and "gtok c = 0" "\<And>n i. wtok n i c = 0"
  shows "placement_inv (Suc N) owner (spawn c s)"
  using assms by (auto simp: placement_inv_def spawn_def Let_def le_SucI)

lemma slots_held_quiet: "slots_held s \<Longrightarrow> quiet (pstate s) q \<Longrightarrow> slots_held (s\<lparr>pstate := q\<rparr>)"
  by (simp add: slots_held_def holder_def quiet_def)

lemma slots_held_spawn:
  assumes "slots_held s" "hold c = None"
  shows "slots_held (spawn c s)"
proof -
  have "holder (spawn c s) j t \<longleftrightarrow> holder s j t" for j t
    using assms(2) by (auto simp: holder_def spawn_def nth_append less_Suc_eq)
  then show ?thesis
    using assms(1) by (simp add: slots_held_def) (simp add: spawn_def)
qed

text \<open>The invariant of a run of \<open>N\<close> steps, with the bounds that keep the counters from wrapping around.\<close>

definition reached :: "nat \<Rightarrow> placement_sys \<Rightarrow> bool" where
  "reached N s \<longleftrightarrow> (\<exists>owner. placement_inv N owner s) \<and> slots_held s"

lemma reachedI: "placement_inv N owner s \<Longrightarrow> slots_held s \<Longrightarrow> reached N s"
  by (auto simp: reached_def)

definition advances :: "placement_sys \<Rightarrow> placement_sys \<Rightarrow> bool" where
  "advances s s' \<longleftrightarrow>
     same_config (pstate s) (pstate s') \<and>
     (\<forall>j < length (reservations (pstate s)). unat (reservations (pstate s) ! j) \<le> unat (reservations (pstate s') ! j))"

lemma advances_refl [simp]: "advances s s"
  by (simp add: advances_def)

lemma advances_trans: "advances s s' \<Longrightarrow> advances s' s'' \<Longrightarrow> advances s s''"
  by (fastforce simp: advances_def same_config_def intro: le_trans)

lemma exec_reached:
  assumes r: "reached N s" and small: "N + length (reservations (pstate s)) + 1 < 2 ^ 64"
  shows "reached (Suc N) (placement_exec e s) \<and> advances s (placement_exec e s)"
proof -
  obtain owner where inv: "placement_inv N owner s" and held: "slots_held s"
    using r by (auto simp: reached_def)
  have weaken: "reached (Suc N) s"
    using inv_quiet[OF inv quiet_refl] held by (auto intro: reachedI)
  have q: "reached (Suc N) (s\<lparr>pstate := q\<rparr>) \<and> advances s (s\<lparr>pstate := q\<rparr>)" if "quiet (pstate s) q" for q
    using reachedI[OF inv_quiet[OF inv that] slots_held_quiet[OF held that]] that by (simp add: advances_def quiet_def)
  have sp: "reached (Suc N) (spawn c s) \<and> advances s (spawn c s)"
    if "pc_ok (pstate s) c" "\<And>x. claim c = Some x \<Longrightarrow> claim_ok owner (pstate s) x" "gtok c = 0" "\<And>n i. wtok n i c = 0" "hold c = None" for c
    using reachedI[OF inv_spawn[OF inv that(1-4)] slots_held_spawn[OF held that(5)]] by (simp add: advances_def spawn_def)
  show ?thesis
  proof (cases e)
    case (CallFinish b t)
    show ?thesis
    proof (cases "t < length (threads s)")
      case True
      then have "threads s ! t \<in> set (threads s)"
        by simp
      then have "pc_ok (pstate s) (threads s ! t)" "\<And>x. claim (threads s ! t) = Some x \<Longrightarrow> claim_ok owner (pstate s) x"
        using inv by (auto simp: placement_inv_def Let_def)
      then show ?thesis
        using CallFinish True weaken sp[of "ThFinish b (res_reservation r) CmComplete" for r]
        by (cases "threads s ! t") auto
    next
      case False
      then show ?thesis
        using CallFinish weaken by simp
    qed
  next
    case (Run t orders)
    show ?thesis
    proof (cases "t < length (threads s)")
      case True
      obtain p h c' where step: "thread_step orders (threads s ! t) s = ((p, h), c')"
        by (metis prod.exhaust)
      have c: "threads s ! t \<in> set (threads s)"
        using True by simp
      have facts: "limits (pstate s)" "reservations (pstate s) \<noteq> []" "pc_ok (pstate s) (threads s ! t)"
        "\<And>x. claim (threads s ! t) = Some x \<Longrightarrow> claim_ok owner (pstate s) x"
        using inv c by (auto simp: placement_inv_def Let_def)
      obtain owner' where m: "moves owner (pstate s) (threads s ! t) owner' p c'"
        using thread_moves[OF step facts(3,1) inv_covered[OF inv c small] facts(2), of owner] facts(4) by blast
      have "slots_held (placement_exec e s)"
        using slots_held_run[OF inv held True, of p c'] m Run True step by (simp add: moves_def)
      then show ?thesis
        using inv_run(1)[OF inv True small step] m Run True step by (auto simp: advances_def moves_def intro: reachedI)
    next
      case False
      then show ?thesis
        using Run weaken by simp
    qed
  next
    case (Install sch)
    have "reached (Suc N) (s\<lparr>schedulers := x, active := y\<rparr>)" for x y
      using weaken by (auto simp: reached_def placement_inv_def slots_held_def holder_def)
    then show ?thesis
      using Install by (auto simp: advances_def)
  next
    case Uninstall
    have "reached (Suc N) (s\<lparr>active := y\<rparr>)" for y
      using weaken by (auto simp: reached_def placement_inv_def slots_held_def holder_def)
    then show ?thesis
      using Uninstall by (auto simp: advances_def)
  next
    case TakeNotification
    have "quiet (pstate s) ((pstate s)\<lparr>startCapacityChanged := False\<rparr>)"
      by (simp add: quiet_def same_config_def)
    then show ?thesis
      using q TakeNotification by simp
  next
    case (CallSchedule f)
    then show ?thesis
      using sp[of "ThSchedule f"] by simp
  next
    case (CallStop wid)
    then show ?thesis
      using sp[of "ThStop wid DecLoad"] by simp
  qed (use q quiet_ops in auto)
qed

lemma run_reached:
  assumes "reached N s" "N + length es + length (reservations (pstate s)) < 2 ^ 64"
  shows "reached (N + length es) (placement_run es s) \<and> advances s (placement_run es s)"
  using assms
proof (induction es arbitrary: N s)
  case Nil
  then show ?case
    by (simp add: placement_run_def)
next
  case (Cons e es)
  note step = exec_reached[OF Cons.prems(1), of e]
  have "length (reservations (pstate (placement_exec e s))) = length (reservations (pstate s))"
    using step Cons.prems(2) by (auto simp: advances_def same_config_def)
  then show ?case
    using Cons.IH[of "Suc N" "placement_exec e s"] step Cons.prems(2)
    by (auto simp: placement_run_def intro: advances_trans)
qed

lemma init_reached: "reached 0 (placement_init (NewPlacementState n per tokens mx))"
proof -
  let ?p = "NewPlacementState n per tokens mx"
  have "held P owner (reservations ?p) = 0" for P and owner :: "nat \<Rightarrow> int"
  proof -
    have "{s. s < length (reservations ?p) \<and> odd (reservations ?p ! s) \<and> P (owner s)} = {}"
      by (auto simp: NewPlacementState_def Let_def)
    then show ?thesis
      by (simp add: held_def)
  qed
  moreover have "pending_at ?p i = 0" if "i < length (ps_workers ?p)" for i
    using that by (simp add: NewPlacementState_def Let_def emptyWorker_def)
  ultimately have "placement_inv 0 owner (placement_init ?p)" for owner
    by (auto simp: placement_inv_def placement_init_def Let_def limits_def) (auto simp: NewPlacementState_def Let_def split: if_splits)
  moreover have "slots_held (placement_init ?p)"
    by (auto simp: slots_held_def placement_init_def NewPlacementState_def Let_def)
  ultimately show ?thesis
    by (auto intro: reachedI)
qed

lemma run_from_start:
  assumes "length es + length (reservations (NewPlacementState n per tokens mx)) < 2 ^ 64"
  shows "reached (length es) (placement_run es (placement_init (NewPlacementState n per tokens mx)))"
    "same_config (NewPlacementState n per tokens mx) (pstate (placement_run es (placement_init (NewPlacementState n per tokens mx))))"
  using run_reached[OF init_reached, of es n per tokens mx] assms
  by (simp_all add: placement_init_def advances_def)

lemma NewPlacementState_simps:
  "startTokensTotal (NewPlacementState n per tokens mx) = tokens"
  "startTokensPerWorker (NewPlacementState n per tokens mx) = ucast per"
  "length (ps_workers (NewPlacementState n per tokens mx)) = nat n"
  by (simp_all add: NewPlacementState_def Let_def)

subsection \<open>Counting the reservations that clients hold\<close>

fun ended :: "placement_pc \<Rightarrow> bool" where
  "ended (ThScheduled r) = True"
| "ended ThDone = True"
| "ended c = False"

text \<open>A reservation that a call returned and that nobody has committed or cancelled.\<close>

fun open_reservation :: "PlacementState \<Rightarrow> placement_pc \<Rightarrow> bool" where
  "open_reservation p (ThScheduled r) =
     (Valid (res_reservation r) \<and> reservations p ! nat (Slot (res_reservation r)) = Generation (res_reservation r))"
| "open_reservation p c = False"

fun reserved_worker :: "placement_pc \<Rightarrow> int" where
  "reserved_worker (ThScheduled r) = WorkerIndex (res_reservation r)"
| "reserved_worker c = -1"

lemma open_holder:
  assumes inv: "placement_inv N owner s" and t: "t < length (threads s)" and e: "ended (threads s ! t)"
  shows "open_reservation (pstate s) (threads s ! t) \<longleftrightarrow> (\<exists>j. holder s j t)"
    "holder s j t \<Longrightarrow> owner j = reserved_worker (threads s ! t)"
    "holder s j t \<Longrightarrow> j < length (reservations (pstate s)) \<and> odd (reservations (pstate s) ! j)"
proof -
  have c: "threads s ! t \<in> set (threads s)"
    using t by simp
  show "open_reservation (pstate s) (threads s ! t) \<longleftrightarrow> (\<exists>j. holder s j t)"
    using t e by (cases "threads s ! t") (auto simp: holder_def res_claim_def)
  show "owner j = reserved_worker (threads s ! t)" if h: "holder s j t"
  proof -
    obtain r where r: "threads s ! t = ThScheduled r"
      using h e by (cases "threads s ! t") (auto simp: holder_def)
    have "claim_ok owner (pstate s) (j, reservations (pstate s) ! j, WorkerIndex (res_reservation r))"
      using h inv c r by (force simp: holder_def placement_inv_def Let_def res_claim_def split: if_splits)
    then show ?thesis
      by (simp add: claim_ok_def r)
  qed
  show "j < length (reservations (pstate s)) \<and> odd (reservations (pstate s) ! j)" if "holder s j t"
    using hold_le[OF inv c] that by (auto simp: holder_def)
qed

lemma held_counts:
  assumes inv: "placement_inv N owner s" and held: "slots_held s" and e: "\<And>c. c \<in> set (threads s) \<Longrightarrow> ended c"
  shows "held P owner (reservations (pstate s)) =
    length (filter (\<lambda>c. open_reservation (pstate s) c \<and> P (reserved_worker c)) (threads s))"
proof -
  let ?res = "reservations (pstate s)"
  let ?S = "{j. j < length ?res \<and> odd (?res ! j) \<and> P (owner j)}"
  let ?T = "{t. t < length (threads s) \<and> open_reservation (pstate s) (threads s ! t) \<and> P (reserved_worker (threads s ! t))}"
  define f where "f j = (THE t. holder s j t)" for j
  have f: "holder s j (f j)" if "j \<in> ?S" for j
  proof -
    have "\<exists>!t. holder s j t"
      using held that unfolding slots_held_def by blast
    then show ?thesis
      unfolding f_def by (rule theI')
  qed
  have opened: "open_reservation (pstate s) (threads s ! t) \<longleftrightarrow> (\<exists>j. holder s j t)" if "t < length (threads s)" for t
    using open_holder(1)[OF inv that] e that by simp
  have own: "owner j = reserved_worker (threads s ! t)" "j < length ?res" "odd (?res ! j)" "t < length (threads s)"
    if h: "holder s j t" for j t
  proof -
    show t: "t < length (threads s)"
      using h by (simp add: holder_def)
    then have "ended (threads s ! t)"
      using e by simp
    then show "owner j = reserved_worker (threads s ! t)" "j < length ?res" "odd (?res ! j)"
      using open_holder(2,3)[OF inv t _ h] by blast+
  qed
  have uniq: "i = j" if "holder s i t" "holder s j t" for i j t
    using that by (simp add: holder_def)
  have "bij_betw f ?S ?T"
  proof (rule bij_betwI')
    fix x y assume "x \<in> ?S" "y \<in> ?S"
    note h = f[OF this(1)] f[OF this(2)]
    show "f x = f y \<longleftrightarrow> x = y"
    proof
      assume "f x = f y"
      then show "x = y"
        using h uniq[of x "f x" y] by simp
    qed simp
  next
    fix x assume x: "x \<in> ?S"
    note h = f[OF x]
    have "open_reservation (pstate s) (threads s ! f x)"
      using opened[OF own(4)[OF h]] h by blast
    then show "f x \<in> ?T"
      using x own(1,4)[OF h] by simp
  next
    fix t assume t: "t \<in> ?T"
    then obtain j where j: "holder s j t"
      using opened[of t] by blast
    have "j \<in> ?S"
      using t own[OF j] by simp
    moreover have "t = f j"
      using f[OF \<open>j \<in> ?S\<close>] j own(2,3)[OF j] held unfolding slots_held_def by blast
    ultimately show "\<exists>j \<in> ?S. t = f j"
      by blast
  qed
  then have "card ?S = card ?T"
    by (rule bij_betw_same_card)
  moreover have "card ?T = length (filter (\<lambda>c. open_reservation (pstate s) c \<and> P (reserved_worker c)) (threads s))"
    by (simp add: length_filter_conv_card)
  ultimately show ?thesis
    by (simp add: held_def)
qed

lemma ended_tokens: "ended c \<Longrightarrow> gtok c = 0" "ended c \<Longrightarrow> wtok n i c = 0"
  by (cases c; simp)+

lemma ended_counters:
  assumes r: "reached N s" and e: "\<And>c. c \<in> set (threads s) \<Longrightarrow> ended c"
  shows "unat (pendingStarts (pstate s)) = length (filter (open_reservation (pstate s)) (threads s))"
    "i < length (ps_workers (pstate s)) \<Longrightarrow>
       unat (pending_at (pstate s) i) =
       length (filter (\<lambda>c. open_reservation (pstate s) c \<and> reserved_worker c = int i) (threads s))"
proof -
  obtain owner where inv: "placement_inv N owner s" and held: "slots_held s"
    using r by (auto simp: reached_def)
  have z: "sum_list (map gtok (threads s)) = 0" "sum_list (map (wtok n i) (threads s)) = 0" for n i
    using e ended_tokens by (auto simp: sum_list_eq_0_iff)
  show "unat (pendingStarts (pstate s)) = length (filter (open_reservation (pstate s)) (threads s))"
    using inv z(1) held_counts[OF inv held e, of "\<lambda>_. True"] by (simp add: placement_inv_def Let_def)
  show "unat (pending_at (pstate s) i) =
      length (filter (\<lambda>c. open_reservation (pstate s) c \<and> reserved_worker c = int i) (threads s))"
    if "i < length (ps_workers (pstate s))"
    using inv z(2) held_counts[OF inv held e, of "\<lambda>w. w = int i"] that by (simp add: placement_inv_def Let_def)
qed

lemma winner_step:
  assumes "threads s ! t = ThFinish b r CmComplete" "t < length (threads s)" "s1 = placement_exec (Run t orders) s"
    and "threads s1 ! t \<noteq> ThDone"
  shows "\<exists>q. completeReservation r (pstate s) = (q, True) \<and> pstate s1 = q"
proof -
  obtain q ok where c: "completeReservation r (pstate s) = (q, ok)"
    by fastforce
  show ?thesis
    using assms c by (cases ok) auto
qed

end
