(* ===== verification/Placement_Theorems.thy ===== *)
theory Placement_Theorems
  imports Placement_Invariants
begin

text \<open>
  The properties of the placement state: the token limits and the accounting hold in every interleaving, a
  reservation is completed once, every call returns when it runs undisturbed, and the order in which
  \<^verbatim>\<open>CommitReservation\<close> updates its two counters lets a worker exceed its instance limit.
\<close>

subsection \<open>Schedulers of the calls\<close>

text \<open>
  A call on the snapshot path builds a snapshot of the workers that the policies expect, and its scheduler is
  one for the workers of the leaf; a call on the balanced path has a balanced scheduler.
\<close>

fun sn_id :: "nat \<Rightarrow> sn_pc \<Rightarrow> bool" where
  "sn_id i SnTelemetry = True"
| "sn_id i (SnPending st) = (worker_id st = of_nat (i + 1))"
| "sn_id i (SnLocal st _) = (worker_id st = of_nat (i + 1))"
| "sn_id i (SnObserved st _ _) = (worker_id st = of_nat (i + 1))"
| "sn_id i (SnTrack st) = (worker_id st = of_nat (i + 1))"
| "sn_id i (SnImages st) = (worker_id st = of_nat (i + 1))"

fun ss_snap :: "nat \<Rightarrow> ss_pc \<Rightarrow> bool" where
  "ss_snap n (SsSnapshot acc s) = (leaf_workers acc \<and> length acc \<le> n \<and> sn_id (length acc) s)"
| "ss_snap n (SsGlobal snap g) = (leaf_workers snap \<and> length snap = n)"
| "ss_snap n (SsPick snap) = (leaf_workers snap \<and> length snap = n)"
| "ss_snap n _ = True"

fun pc_sched :: "nat \<Rightarrow> scheduler list \<Rightarrow> placement_pc \<Rightarrow> bool" where
  "pc_sched n h (ThBalanced k f c) = (k < length h \<and> is_balanced (h ! k))"
| "pc_sched n h (ThSnapshot k f c) = (k < length h \<and> ss_snap n c)"
| "pc_sched n h _ = True"

definition sched_inv :: "placement_sys \<Rightarrow> bool" where
  "sched_inv s \<longleftrightarrow>
     (let n = length (ps_workers (pstate s)) in
      n < 2 ^ 63 \<and> (\<forall>sch \<in> set (schedulers s). scheduler_serves sch n) \<and>
      (\<forall>k. active s = Some k \<longrightarrow> k < length (schedulers s)) \<and>
      (\<forall>c \<in> set (threads s). pc_sched n (schedulers s) c))"

lemma snapshot_worker_id:
  "sn_id i s \<Longrightarrow> (case snapshot_worker i orders s p of Inl s' \<Rightarrow> sn_id i s' | Inr st \<Rightarrow> worker_id st = of_nat (i + 1))"
  by (cases s) (auto simp: snapshot_base_def snapshot_load_def Let_def split: option.splits)

lemma leaf_workers_append:
  "leaf_workers acc \<Longrightarrow> worker_id st = of_nat (length acc + 1) \<Longrightarrow> length acc + 1 < 2 ^ 63 \<Longrightarrow> leaf_workers (acc @ [Some st])"
  by (auto simp: leaf_workers_def nth_append less_Suc_eq)

lemma PickWorker_balanced: "PickWorker f ws st = Some (d, st') \<Longrightarrow> is_balanced st' = is_balanced st"
  by (elim PickWorker_elim) (auto simp: is_balanced_def)

text \<open>The heap of schedulers only changes by a pick, which keeps what the calls rely on.\<close>

definition heap_step :: "nat \<Rightarrow> scheduler list \<Rightarrow> scheduler list \<Rightarrow> bool" where
  "heap_step n h h' \<longleftrightarrow>
     length h' = length h \<and> (\<forall>k < length h. is_balanced (h' ! k) = is_balanced (h ! k)) \<and>
     ((\<forall>sch \<in> set h. scheduler_serves sch n) \<longrightarrow> (\<forall>sch \<in> set h'. scheduler_serves sch n))"

lemma heap_step_refl [simp]: "heap_step n h h"
  by (simp add: heap_step_def)

lemma heap_step_update:
  assumes "k < length h" "is_balanced x = is_balanced (h ! k)" "scheduler_serves (h ! k) n \<Longrightarrow> scheduler_serves x n"
  shows "heap_step n h (h[k := x])"
  using assms set_update_subset_insert[of h k x] by (auto simp: heap_step_def nth_list_update)

lemma pc_sched_step: "heap_step n h h' \<Longrightarrow> pc_sched n h c \<Longrightarrow> pc_sched n h' c"
  by (cases c) (auto simp: heap_step_def)

lemma pick_returns:
  assumes "leaf_workers snap" "length snap = n" "k < length h" "\<forall>sch \<in> set h. scheduler_serves sch n"
  shows "\<exists>d st'. PickWorker f snap (h ! k) = Some (d, st') \<and> scheduler_serves st' n"
proof -
  have "scheduler_serves (h ! k) (length snap)"
    using assms by simp
  then show ?thesis
    using configured.returns[OF assms(1)] configured.keeps_serving[OF assms(1)] assms(2) by metis
qed

lemma thread_sched:
  assumes step: "thread_step orders c s = ((q, h'), c')" and c: "pc_sched (length (ps_workers (pstate s))) (schedulers s) c"
    and inv: "sched_inv s"
  shows "heap_step (length (ps_workers (pstate s))) (schedulers s) h' \<and>
    pc_sched (length (ps_workers (pstate s))) h' c'"
proof -
  let ?n = "length (ps_workers (pstate s))" and ?h = "schedulers s"
  have n: "?n < 2 ^ 63" and serves: "\<forall>sch \<in> set ?h. scheduler_serves sch ?n" and act: "\<And>k. active s = Some k \<Longrightarrow> k < length ?h"
    using inv by (auto simp: sched_inv_def Let_def)
  show ?thesis
  proof (cases c)
    case (ThSchedule f)
    then show ?thesis
      using step act by (auto simp: Schedule_def leaf_workers_def split: option.splits if_splits)
  next
    case (ThBalanced k f d)
    show ?thesis
    proof (cases d)
      case SbNext
      obtain b where b: "?h ! k = SBalanced b"
        using c ThBalanced by (auto simp: is_balanced_def split: scheduler.splits)
      obtain st b' where nw: "NextWorkerIndex ?n b = (st, b')"
        by fastforce
      have "heap_step ?n ?h (?h[k := SBalanced b'])"
        using c ThBalanced b by (intro heap_step_update) (auto simp: is_balanced_def)
      then show ?thesis
        using step ThBalanced SbNext b nw c by (auto simp: heap_step_def)
    qed (use step ThBalanced c in \<open>auto simp: Let_def split: prod.splits sum.splits option.splits bool.splits if_splits\<close>)
  next
    case (ThSnapshot k f d)
    show ?thesis
    proof (cases d)
      case (SsSnapshot acc st)
      have acc: "leaf_workers acc" "length acc \<le> ?n" "sn_id (length acc) st" "k < length ?h"
        using c ThSnapshot SsSnapshot by auto
      show ?thesis
      proof (cases "snapshot_worker (length acc) orders st (pstate s)")
        case (Inl s')
        then show ?thesis
          using step ThSnapshot SsSnapshot acc snapshot_worker_id[OF acc(3), of orders "pstate s"] by (auto split: if_splits)
      next
        case (Inr w)
        then have "worker_id w = of_nat (length acc + 1)"
          using snapshot_worker_id[OF acc(3), of orders "pstate s"] by simp
        then have "\<not> ?n \<le> length acc \<Longrightarrow> leaf_workers (acc @ [Some w])"
          using leaf_workers_append[OF acc(1)] n by simp
        then show ?thesis
          using step ThSnapshot SsSnapshot acc Inr by (auto split: if_splits)
      qed
    next
      case (SsPick snap)
      have snap: "leaf_workers snap" "length snap = ?n" "k < length ?h"
        using c ThSnapshot SsPick by auto
      obtain e st' where p: "PickWorker f snap (?h ! k) = Some (e, st')" "scheduler_serves st' ?n"
        using pick_returns[OF snap serves] by blast
      have "heap_step ?n ?h (?h[k := st'])"
        using snap p PickWorker_balanced[OF p(1)] by (intro heap_step_update) auto
      then show ?thesis
        using step ThSnapshot SsPick p snap by (auto simp: heap_step_def split: if_splits)
    qed (use step ThSnapshot c in \<open>auto simp: Let_def split: prod.splits sum.splits option.splits if_splits\<close>)
  qed (use step in \<open>auto split: prod.splits option.splits\<close>)
qed

lemma UpdateWorker_config: "quiet p q \<Longrightarrow> length (ps_workers q) = length (ps_workers p)"
  by (simp add: quiet_def same_config_def)

lemmas quiet_lengths = quiet_ops[THEN UpdateWorker_config]

text \<open>No step changes the numbers of workers and slots.\<close>

lemma release_config:
  "releaseWorker i d p = (q, r) \<Longrightarrow> same_config p q" "releaseGlobalStart d p = (q, r) \<Longrightarrow> same_config p q"
  by (auto simp: releaseWorker_def releaseGlobalStart_def same_config_def split: prod.splits if_splits)

lemma reserveGlobalStart_config: "reserveGlobalStart g p = (q, r) \<Longrightarrow> same_config p q"
  by (cases g) (auto simp: same_config_def split: if_splits)

lemma reserveWorker_config: "reserveWorker idx w p = (q, r) \<Longrightarrow> same_config p q"
  by (cases w) (auto simp: set_worker_same dest: release_config split: prod.splits option.splits if_splits)

lemma newReservation_config: "newReservation w im r p = (q, x) \<Longrightarrow> same_config p q"
proof (cases r)
  case (NrClaim c)
  assume "newReservation w im r p = (q, x)"
  then show ?thesis
    using NrClaim by (cases c) (auto simp: same_config_def Let_def split: if_splits)
qed (auto simp: quiet_ops(5)[unfolded quiet_def])

lemma completeReservation_config: "completeReservation r p = (q, b) \<Longrightarrow> same_config p q"
  by (auto simp: completeReservation_def same_config_def split: if_splits)

lemma thread_config:
  assumes "thread_step orders c s = ((q, h'), c')"
  shows "same_config (pstate s) q"
proof (cases c)
  case (ThBalanced k f d)
  then show ?thesis
    using assms
    by (cases d) (auto simp: Let_def dest: reserveWorker_config newReservation_config release_config reserveGlobalStart_config
      split: prod.splits sum.splits option.splits bool.splits if_splits scheduler.splits)
next
  case (ThSnapshot k f d)
  then show ?thesis
    using assms
    by (cases d) (auto dest: reserveWorker_config newReservation_config release_config reserveGlobalStart_config split: prod.splits sum.splits option.splits if_splits)
next
  case (ThFinish b r d)
  then show ?thesis
    using assms quiet_ops(6-8)[unfolded quiet_def]
    by (cases d) (auto dest: completeReservation_config release_config split: prod.splits option.splits if_splits)
next
  case (ThStop wid d)
  then show ?thesis
    using assms by (auto dest!: RecordStop_quiet simp: quiet_def split: prod.splits option.splits)
qed (use assms in auto)

lemma sched_run:
  assumes inv: "sched_inv s" and t: "t < length (threads s)"
    and step: "thread_step orders (threads s ! t) s = ((q, h), c')"
  shows "sched_inv (s\<lparr>pstate := q, schedulers := h, threads := (threads s)[t := c']\<rparr>)"
proof -
  let ?n = "length (ps_workers (pstate s))"
  have "pc_sched ?n (schedulers s) (threads s ! t)"
    using inv t by (simp add: sched_inv_def Let_def)
  note th = thread_sched[OF step this inv]
  have n: "length (ps_workers q) = ?n"
    using thread_config[OF step] by (simp add: same_config_def)
  have "pc_sched ?n h c" if "c \<in> set ((threads s)[t := c'])" for c
  proof -
    have "c = c' \<or> c \<in> set (threads s)"
      using that set_update_subset_insert[of "threads s" t c'] by blast
    then show ?thesis
      using th inv pc_sched_step[of ?n "schedulers s" h c] by (auto simp: sched_inv_def Let_def)
  qed
  then show ?thesis
    using inv th n by (auto simp: sched_inv_def heap_step_def Let_def)
qed

definition installs_ok :: "nat \<Rightarrow> placement_event list \<Rightarrow> bool" where
  "installs_ok n es \<longleftrightarrow> (\<forall>sch. Install sch \<in> set es \<longrightarrow> scheduler_serves sch n)"

lemma sched_exec:
  assumes inv: "sched_inv s" and e: "\<And>sch. e = Install sch \<Longrightarrow> scheduler_serves sch (length (ps_workers (pstate s)))"
  shows "sched_inv (placement_exec e s) \<and> length (ps_workers (pstate (placement_exec e s))) = length (ps_workers (pstate s))"
proof (cases e)
  case (Run t orders)
  show ?thesis
  proof (cases "t < length (threads s)")
    case True
    obtain p h c' where step: "thread_step orders (threads s ! t) s = ((p, h), c')"
      by (metis prod.exhaust)
    show ?thesis
      using sched_run[OF inv True step] thread_config[OF step] Run True step by (simp add: same_config_def)
  next
    case False
    then show ?thesis
      using Run inv by simp
  qed
next
  case (CallFinish b t)
  then show ?thesis
    using inv by (auto simp: sched_inv_def spawn_def Let_def split: placement_pc.splits)
next
  case (Install sch)
  have "pc_sched n (h @ [sch]) c" if "pc_sched n h c" for n h c
    using that by (cases c) (auto simp: nth_append)
  then show ?thesis
    using inv e Install by (auto simp: sched_inv_def Let_def)
qed (use inv in \<open>auto simp: sched_inv_def spawn_def Let_def quiet_lengths\<close>)

lemma sched_runs:
  assumes "sched_inv s" "installs_ok (length (ps_workers (pstate s))) es"
  shows "sched_inv (placement_run es s) \<and> length (ps_workers (pstate (placement_run es s))) = length (ps_workers (pstate s))"
  using assms
proof (induction es arbitrary: s)
  case (Cons e es)
  have "sched_inv (placement_exec e s) \<and> length (ps_workers (pstate (placement_exec e s))) = length (ps_workers (pstate s))"
    using Cons.prems by (intro sched_exec) (auto simp: installs_ok_def)
  then show ?case
    using Cons.IH[of "placement_exec e s"] Cons.prems(2) by (simp add: placement_run_def installs_ok_def)
qed (simp add: placement_run_def)

subsection \<open>Calls return when they run undisturbed\<close>

text \<open>
  The number of steps that a call still needs when no other thread interferes.  A compare-and-swap with a
  stale value fails and sends the call back to its load, so it is ranked above the load.
\<close>

fun dec_rank :: "u64 \<Rightarrow> dec_pc \<Rightarrow> nat" where
  "dec_rank v DecLoad = 2"
| "dec_rank v (DecCas cur) = (if v = cur then 1 else 3)"

fun rg_rank :: "PlacementState \<Rightarrow> rg_pc \<Rightarrow> nat" where
  "rg_rank p RgLoad = 2"
| "rg_rank p (RgCas cur) = (if pendingStarts p = cur then 1 else 3)"

fun rw_rank :: "u64 \<Rightarrow> rw_pc \<Rightarrow> nat" where
  "rw_rank v RwEligible = 11"
| "rw_rank v RwPending = 10"
| "rw_rank v (RwLocal x) = (if v = x then 9 else 14)"
| "rw_rank v (RwTelemetry x _) = (if v = x then 8 else 13)"
| "rw_rank v (RwCas x) = (if v = x then 7 else 12)"
| "rw_rank v (RwEligible2 _) = 6"
| "rw_rank v (RwLocal2 _) = 5"
| "rw_rank v (RwTelemetry2 _ _) = 4"
| "rw_rank v (RwDecrement d) = dec_rank v d"

fun cl_rank :: "nat \<Rightarrow> cl_pc \<Rightarrow> nat" where
  "cl_rank m ClCursor = 2 * m + 5"
| "cl_rank m (ClLoad start offset) = (if offset < m then 2 * (m - offset) + 4 else 2)"
| "cl_rank m (ClCas start offset state) = 2 * (m - offset) + 3"

fun nr_rank :: "nat \<Rightarrow> nr_pc \<Rightarrow> nat" where
  "nr_rank m (NrClaim c) = 2 + cl_rank m c"
| "nr_rank m (NrTrack s g) = 2"
| "nr_rank m (NrImage s g) = 1"

definition slot_rank :: "nat \<Rightarrow> nat" where
  "slot_rank m = 2 * m + 16"

fun sb_rank :: "nat \<Rightarrow> nat \<Rightarrow> PlacementState \<Rightarrow> sb_pc \<Rightarrow> nat" where
  "sb_rank n m p SbEnter = slot_rank m + 15 * n + 20"
| "sb_rank n m p (SbGlobal g) = slot_rank m + 15 * n + 16 + rg_rank p g"
| "sb_rank n m p SbNext = slot_rank m + 15 * n + 15"
| "sb_rank n m p (SbWorker start offset w) =
     slot_rank m + 15 * (n - offset) + rw_rank (pending_at p ((start + offset) mod length (ps_workers p))) w"
| "sb_rank n m p (SbNew idx r) = 8 + nr_rank m r"
| "sb_rank n m p (SbUndo idx d) = 4 + dec_rank (pending_at p idx) d"
| "sb_rank n m p (SbRelease reason d) = dec_rank (pendingStarts p) d"

fun sn_rank :: "sn_pc \<Rightarrow> nat" where
  "sn_rank SnTelemetry = 6"
| "sn_rank (SnPending _) = 5"
| "sn_rank (SnLocal _ _) = 4"
| "sn_rank (SnObserved _ _ _) = 3"
| "sn_rank (SnTrack _) = 2"
| "sn_rank (SnImages _) = 1"

fun ss_rank :: "nat \<Rightarrow> nat \<Rightarrow> PlacementState \<Rightarrow> ss_pc \<Rightarrow> nat" where
  "ss_rank n m p (SsSnapshot acc s) = slot_rank m + 20 + 7 * (n - length acc) + sn_rank s"
| "ss_rank n m p (SsGlobal snap g) = slot_rank m + 16 + rg_rank p g"
| "ss_rank n m p (SsPick snap) = slot_rank m + 15"
| "ss_rank n m p (SsWorker c w) = slot_rank m + rw_rank (pending_at p (nat (choice_index c))) w"
| "ss_rank n m p (SsNew c r) = 8 + nr_rank m r"
| "ss_rank n m p (SsUndo c d) = 4 + dec_rank (pending_at p (nat (choice_index c))) d"
| "ss_rank n m p (SsRelease c err d) = dec_rank (pendingStarts p) d"

fun cm_rank :: "PlacementState \<Rightarrow> PlacementReservation \<Rightarrow> cm_pc \<Rightarrow> nat" where
  "cm_rank p r CmComplete = 10"
| "cm_rank p r (CmDecrement d) = 6 + dec_rank (pending_at p (nat (WorkerIndex r))) d"
| "cm_rank p r CmInstances = 6"
| "cm_rank p r CmImage = 5"
| "cm_rank p r (CmRelease d) = 1 + dec_rank (pendingStarts p) d"
| "cm_rank p r CmNotify = 1"

fun th_rank :: "nat \<Rightarrow> nat \<Rightarrow> PlacementState \<Rightarrow> placement_pc \<Rightarrow> nat" where
  "th_rank n m p (ThSchedule f) = slot_rank m + 22 * n + 30"
| "th_rank n m p (ThBalanced k f c) = sb_rank n m p c"
| "th_rank n m p (ThSnapshot k f c) = ss_rank n m p c"
| "th_rank n m p (ThFinish b r c) = cm_rank p r c"
| "th_rank n m p (ThStop wid d) = dec_rank (wp_instances (ps_workers p ! nat (sint wid - 1))) d"
| "th_rank n m p _ = 0"

lemma dec_rank_le: "dec_rank v d \<le> 3"
  by (cases d) auto

lemma rg_rank_le: "rg_rank p g \<le> 3"
  by (cases g) auto

lemma rw_rank_le: "rw_rank v w \<le> 14"
proof (cases w)
  case (RwDecrement d)
  then show ?thesis
    using dec_rank_le[of v d] by simp
qed auto

lemma dec_rank_pos: "0 < dec_rank v d"
  by (cases d) auto

lemma rank_pos: "0 < dec_rank v d" "0 < rg_rank p g" "0 < rw_rank v w" "0 < nr_rank m r" "0 < sn_rank s"
  by (rule dec_rank_pos) (cases g; simp add: dec_rank_pos; fail | cases w; simp add: dec_rank_pos; fail | cases r; simp; fail | cases s; simp)+

lemma cl_rank_le: "cl_rank m c \<le> 2 * m + 5"
  by (cases c) auto

lemma nr_rank_le: "nr_rank m r \<le> 2 * m + 7"
proof (cases r)
  case (NrClaim c)
  then show ?thesis
    using cl_rank_le[of m c] by simp
qed auto

lemma sn_rank_le: "sn_rank s \<le> 6"
  by (cases s) auto

lemma sb_rank_le: "sb_rank n m p c \<le> slot_rank m + 15 * n + 20"
proof (cases c)
  case (SbGlobal g)
  then show ?thesis using rg_rank_le[of p g] by simp
next
  case (SbWorker start offset w)
  have "15 * (n - offset) \<le> 15 * n" by simp
  then show ?thesis
    using rw_rank_le[of "pending_at p ((start + offset) mod length (ps_workers p))" w] unfolding SbWorker sb_rank.simps by linarith
next
  case (SbNew idx r)
  then show ?thesis using nr_rank_le[of m r] by (simp add: slot_rank_def)
next
  case (SbUndo idx d)
  then show ?thesis using dec_rank_le[of "pending_at p idx" d] by (simp add: slot_rank_def)
next
  case (SbRelease reason d)
  then show ?thesis using dec_rank_le[of "pendingStarts p" d] by (simp add: slot_rank_def)
qed simp_all

lemma ss_rank_le: "ss_rank n m p c \<le> slot_rank m + 7 * n + 26"
proof (cases c)
  case (SsSnapshot acc s)
  have "7 * (n - length acc) \<le> 7 * n" by simp
  then show ?thesis
    using sn_rank_le[of s] unfolding SsSnapshot ss_rank.simps by linarith
next
  case (SsGlobal snap g)
  then show ?thesis using rg_rank_le[of p g] by simp
next
  case (SsWorker ch w)
  then show ?thesis using rw_rank_le[of "pending_at p (nat (choice_index ch))" w] by simp
next
  case (SsNew ch r)
  then show ?thesis using nr_rank_le[of m r] by (simp add: slot_rank_def)
next
  case (SsUndo ch d)
  then show ?thesis using dec_rank_le[of "pending_at p (nat (choice_index ch))" d] by (simp add: slot_rank_def)
next
  case (SsRelease ch err d)
  then show ?thesis using dec_rank_le[of "pendingStarts p" d] by (simp add: slot_rank_def)
qed simp_all

lemma cm_rank_le: "cm_rank p r c \<le> 10"
proof (cases c)
  case (CmDecrement d)
  then show ?thesis using dec_rank_le[of "pending_at p (nat (WorkerIndex r))" d] by simp
next
  case (CmRelease d)
  then show ?thesis using dec_rank_le[of "pendingStarts p" d] by simp
qed simp_all

lemma th_rank_le: "th_rank n m p c \<le> 2 * m + 22 * n + 64"
proof (cases c)
  case (ThBalanced k f d)
  then show ?thesis using sb_rank_le[of n m p d] by (simp add: slot_rank_def)
next
  case (ThSnapshot k f d)
  then show ?thesis using ss_rank_le[of n m p d] by (simp add: slot_rank_def)
next
  case (ThFinish b r d)
  then show ?thesis using cm_rank_le[of p r d] by simp
next
  case (ThStop wid d)
  then show ?thesis using dec_rank_le[of "wp_instances (ps_workers p ! nat (sint wid - 1))" d] by simp
qed (auto simp: slot_rank_def)

text \<open>Each step of a subroutine that does not end it lowers its rank.\<close>

lemma decrement_rank: "decrement d v = (v', Some d') \<Longrightarrow> dec_rank v' d' < dec_rank v d"
  by (cases d) (auto split: if_splits)

lemma releaseGlobalStart_rank:
  "releaseGlobalStart d p = (q, Some d') \<Longrightarrow> dec_rank (pendingStarts q) d' < dec_rank (pendingStarts p) d"
  by (auto simp: releaseGlobalStart_def dest: decrement_rank split: prod.splits)

lemma releaseWorker_rank:
  assumes "releaseWorker i d p = (q, Some d')"
  shows "dec_rank (pending_at q i) d' < dec_rank (pending_at p i) d"
proof -
  obtain v where v: "decrement d (pending_at p i) = (v, Some d')" "q = set_worker i (wp_pendingStarts_update (\<lambda>_. v)) p"
    using assms by (auto simp: releaseWorker_def split: prod.splits)
  have "v = pending_at p i"
    using v(1) by (cases d) (auto split: if_splits)
  then have "pending_at q i = pending_at p i"
    unfolding v(2) by (cases "i < length (ps_workers p)") (auto simp: set_worker_nth, simp add: set_worker_def list_update_beyond)
  then show ?thesis
    using decrement_rank[OF v(1)] \<open>v = pending_at p i\<close> by simp
qed

lemma reserveGlobalStart_rank: "reserveGlobalStart g p = (q, Inl g') \<Longrightarrow> rg_rank q g' < rg_rank p g"
  by (cases g) (auto simp: Let_def split: if_splits)

lemma reserveWorker_rank:
  assumes "reserveWorker idx w p = (q, Inl w')"
  shows "rw_rank (pending_at q (nat idx)) w' < rw_rank (pending_at p (nat idx)) w"
proof (cases w)
  case (RwDecrement d)
  then show ?thesis
    using assms releaseWorker_rank[of "nat idx" d p] by (auto split: prod.splits option.splits)
qed (use assms in \<open>auto simp: Let_def split: if_splits\<close>)

lemma newReservation_rank:
  assumes "newReservation w im r p = (q, Inl r')"
  shows "nr_rank (length (reservations q)) r' < nr_rank (length (reservations p)) r"
proof (cases r)
  case (NrClaim c)
  then show ?thesis
    using assms by (cases c) (auto simp: Let_def split: if_splits)
qed (use assms in \<open>auto split: if_splits\<close>)

lemma balanced_rank:
  assumes step: "scheduleBalanced k f c (p, h) = ((q, h'), Inl c')" and b: "is_balanced (h ! k)"
  shows "sb_rank (length (ps_workers p)) (length (reservations p)) q c' < sb_rank (length (ps_workers p)) (length (reservations p)) p c"
proof -
  let ?n = "length (ps_workers p)" and ?m = "length (reservations p)"
  show ?thesis
  proof (cases c)
    case SbEnter
    then show ?thesis using step by (auto split: if_splits)
  next
    case (SbGlobal g)
    then show ?thesis
      using step reserveGlobalStart_rank[of g p] rank_pos(2)[of p g] by (auto split: prod.splits sum.splits if_splits)
  next
    case SbNext
    have "rw_rank v RwEligible = 11" for v by simp
    then show ?thesis
      using step SbNext b by (auto simp: is_balanced_def split: prod.splits scheduler.splits)
  next
    case (SbWorker start offset w)
    let ?i = "(start + offset) mod ?n"
    obtain q' r' where w: "reserveWorker (int ?i) w p = (q', r')"
      by fastforce
    have n: "length (ps_workers q') = ?n"
      using reserveWorker_config[OF w] by (simp add: same_config_def)
    have pos: "0 < rw_rank (pending_at p ?i) w"
      by (rule rank_pos)
    show ?thesis
    proof (cases r')
      case (Inl w')
      then show ?thesis
        using step SbWorker w n reserveWorker_rank[of "int ?i" w p q' w'] by (auto simp: Let_def)
    next
      case (Inr ok)
      show ?thesis
      proof (cases ok)
        case True
        then show ?thesis
          using step SbWorker w Inr pos by (auto simp: Let_def slot_rank_def)
      next
        case False
        then show ?thesis
          using step SbWorker w Inr pos n by (auto simp: Let_def slot_rank_def split: if_splits)
      qed
    qed
  next
    case (SbNew idx r)
    obtain q' r' where nr: "newReservation (int idx) (functionImage f) r p = (q', r')"
      by fastforce
    have "length (reservations q') = ?m"
      using newReservation_config[OF nr] by (simp add: same_config_def)
    then show ?thesis
      using step SbNew nr newReservation_rank[of "int idx" "functionImage f" r p q'] rank_pos(4)[of ?m r]
      by (auto split: sum.splits option.splits)
  next
    case (SbUndo idx d)
    then show ?thesis
      using step releaseWorker_rank[of idx d p] rank_pos(1)[of "pending_at p idx" d] by (auto split: prod.splits option.splits)
  next
    case (SbRelease reason d)
    then show ?thesis
      using step releaseGlobalStart_rank[of d p] by (auto split: prod.splits option.splits)
  qed
qed

lemma snapshot_rank:
  assumes step: "scheduleSnapshot k f orders c (p, h) = ((q, h'), Inl c')"
    and pick: "\<And>snap. c = SsPick snap \<Longrightarrow> PickWorker f snap (h ! k) \<noteq> None"
  shows "ss_rank (length (ps_workers p)) (length (reservations p)) q c' < ss_rank (length (ps_workers p)) (length (reservations p)) p c"
proof -
  let ?n = "length (ps_workers p)" and ?m = "length (reservations p)"
  show ?thesis
  proof (cases c)
    case (SsSnapshot acc s)
    show ?thesis
    proof (cases "snapshot_worker (length acc) orders s p")
      case (Inl s')
      have "sn_rank s' < sn_rank s"
        using Inl by (cases s) (auto split: if_splits)
      then show ?thesis
        using step SsSnapshot Inl rank_pos(5)[of s] by (auto split: if_splits)
    next
      case (Inr st)
      then show ?thesis
        using step SsSnapshot rank_pos(5)[of s] by (auto split: if_splits)
    qed
  next
    case (SsGlobal snap g)
    then show ?thesis
      using step reserveGlobalStart_rank[of g p] rank_pos(2)[of p g] by (auto split: prod.splits sum.splits if_splits)
  next
    case (SsPick snap)
    then show ?thesis
      using step pick[OF SsPick] by (auto split: option.splits if_splits simp: slot_rank_def)
  next
    case (SsWorker ch w)
    obtain q' r' where w: "reserveWorker (choice_index ch) w p = (q', r')"
      by fastforce
    show ?thesis
      using step SsWorker w reserveWorker_rank[of "choice_index ch" w p q'] rank_pos(3)[of "pending_at p (nat (choice_index ch))" w]
      by (auto simp: slot_rank_def split: sum.splits if_splits)
  next
    case (SsNew ch r)
    obtain q' r' where nr: "newReservation (choice_index ch) (functionImage f) r p = (q', r')"
      by fastforce
    have "length (reservations q') = ?m"
      using newReservation_config[OF nr] by (simp add: same_config_def)
    then show ?thesis
      using step SsNew nr newReservation_rank[of "choice_index ch" "functionImage f" r p q'] rank_pos(4)[of ?m r]
      by (auto split: sum.splits option.splits)
  next
    case (SsUndo ch d)
    then show ?thesis
      using step releaseWorker_rank[of "nat (choice_index ch)" d p] rank_pos(1)[of "pending_at p (nat (choice_index ch))" d]
      by (auto split: prod.splits option.splits)
  next
    case (SsRelease ch err d)
    then show ?thesis
      using step releaseGlobalStart_rank[of d p] by (auto split: prod.splits option.splits)
  qed
qed

lemma finish_rank:
  assumes "finishReservation b r c p = (q, Some c')"
  shows "cm_rank q r c' < cm_rank p r c"
proof (cases c)
  case CmComplete
  then show ?thesis
    using assms by (auto split: prod.splits if_splits)
next
  case (CmDecrement d)
  then show ?thesis
    using assms releaseWorker_rank[of "nat (WorkerIndex r)" d p] rank_pos(1)[of "pending_at p (nat (WorkerIndex r))" d]
    by (auto split: prod.splits option.splits if_splits)
next
  case (CmRelease d)
  then show ?thesis
    using assms releaseGlobalStart_rank[of d p] rank_pos(1)[of "pendingStarts p" d] by (auto split: prod.splits option.splits)
qed (use assms in auto)

lemma RecordStop_rank:
  assumes "RecordStop wid d p = (q, Some d')"
  shows "dec_rank (wp_instances (ps_workers q ! nat (sint wid - 1))) d' < dec_rank (wp_instances (ps_workers p ! nat (sint wid - 1))) d"
proof -
  let ?i = "nat (sint wid - 1)"
  have i: "?i < length (ps_workers p)"
    using assms by (auto simp: RecordStop_def Let_def split: if_splits)
  obtain v where v: "decrement d (wp_instances (ps_workers p ! ?i)) = (v, Some d')"
    "q = set_worker ?i (wp_instances_update (\<lambda>_. v)) p"
    using assms by (auto simp: RecordStop_def Let_def split: if_splits prod.splits)
  then show ?thesis
    using decrement_rank[OF v(1)] i by (simp add: set_worker_nth)
qed

lemma sb_rank_pos: "0 < sb_rank n m p c"
  using rank_pos by (cases c) (auto simp: slot_rank_def)

lemma ss_rank_pos: "0 < ss_rank n m p c"
  using rank_pos by (cases c) (auto simp: slot_rank_def)

lemma cm_rank_pos: "0 < cm_rank p r c"
  by (cases c) auto

lemma th_rank_zero: "th_rank n m p c = 0 \<Longrightarrow> ended c"
  by (cases c) (auto simp: slot_rank_def sb_rank_pos[THEN gr_implies_not0] ss_rank_pos[THEN gr_implies_not0]
    cm_rank_pos[THEN gr_implies_not0] rank_pos(1)[THEN gr_implies_not0])

lemma thread_rank:
  assumes inv: "sched_inv s" and t: "t < length (threads s)" and step: "thread_step orders (threads s ! t) s = ((q, h), c')"
    and n: "n = length (ps_workers (pstate s))" and m: "m = length (reservations (pstate s))"
  shows "ended (threads s ! t) \<and> c' = threads s ! t \<or> th_rank n m q c' < th_rank n m (pstate s) (threads s ! t)"
proof -
  have sch: "pc_sched n (schedulers s) (threads s ! t)" and serves: "\<forall>x \<in> set (schedulers s). scheduler_serves x n"
    using inv t by (auto simp: sched_inv_def Let_def n)
  show ?thesis
  proof (cases "threads s ! t")
    case (ThSchedule f)
    then show ?thesis
      using step n m by (auto simp: Schedule_def split: option.splits if_splits)
  next
    case (ThBalanced k f d)
    then show ?thesis
      using sb_rank_pos[of n m "pstate s" d] step sch balanced_rank[of k f d "pstate s" "schedulers s"] n m
      by (auto split: prod.splits sum.splits)
  next
    case (ThSnapshot k f d)
    have "PickWorker f snap (schedulers s ! k) \<noteq> None" if "d = SsPick snap" for snap
      using pick_returns[of snap n k "schedulers s" f] sch serves ThSnapshot that by auto
    then show ?thesis
      using ss_rank_pos[of n m "pstate s" d] step ThSnapshot snapshot_rank[of k f orders d "pstate s" "schedulers s"] n m
      by (auto split: prod.splits sum.splits)
  next
    case (ThFinish b r d)
    then show ?thesis
      using cm_rank_pos[of "pstate s" r d] step finish_rank[of b r d "pstate s"] by (auto split: prod.splits option.splits)
  next
    case (ThStop wid d)
    then show ?thesis
      using step RecordStop_rank[of wid d "pstate s"] rank_pos(1) by (auto split: prod.splits option.splits)
  next
    case (ThScheduled r)
    then have "ended (threads s ! t)"
      by simp
    moreover have "c' = threads s ! t"
      using step ThScheduled by simp
    ultimately show ?thesis
      by blast
  next
    case ThDone
    then have "ended (threads s ! t)"
      by simp
    moreover have "c' = threads s ! t"
      using step ThDone by simp
    ultimately show ?thesis
      by blast
  qed
qed

lemma ended_rank: "ended c \<Longrightarrow> th_rank n m p c = 0"
  by (cases c) auto

lemma solo_run:
  assumes "sched_inv s" "t < length (threads s)"
    and "th_rank (length (ps_workers (pstate s))) (length (reservations (pstate s))) (pstate s) (threads s ! t) \<le> length os"
  shows "ended (threads (placement_run (map (Run t) os) s) ! t)"
  using assms
proof (induction os arbitrary: s)
  case Nil
  then show ?case
    by (simp add: placement_run_def th_rank_zero)
next
  case (Cons ord os)
  let ?n = "length (ps_workers (pstate s))" and ?m = "length (reservations (pstate s))" and ?s = "placement_exec (Run t ord) s"
  obtain q h c' where step: "thread_step ord (threads s ! t) s = ((q, h), c')"
    by (metis prod.exhaust)
  have run: "placement_run (map (Run t) (ord # os)) s = placement_run (map (Run t) os) ?s"
    by (simp add: placement_run_def)
  have next_s: "sched_inv ?s" "t < length (threads ?s)" "threads ?s ! t = c'" "pstate ?s = q"
    "length (ps_workers q) = ?n" "length (reservations q) = ?m"
    using sched_run[OF Cons.prems(1,2) step] thread_config[OF step] Cons.prems(2) step by (auto simp: same_config_def)
  have "th_rank ?n ?m q c' \<le> length os"
    using thread_rank[OF Cons.prems(1,2) step refl refl]
  proof
    assume "ended (threads s ! t) \<and> c' = threads s ! t"
    then show ?thesis
      using ended_rank[of c'] by simp
  next
    assume "th_rank ?n ?m q c' < th_rank ?n ?m (pstate s) (threads s ! t)"
    then show ?thesis
      using Cons.prems(3) by simp
  qed
  then show ?case
    using Cons.IH[of ?s] next_s unfolding run by simp
qed

subsection \<open>Properties\<close>

lemma unat_ucast_up: "unat (ucast x :: u64) = unat (x :: u32)"
proof -
  have "unat x < 2 ^ 32"
    using unsigned_less[of x] by simp
  then show ?thesis
    by (simp add: unsigned_ucast_eq take_bit_nat_eq_self)
qed

text \<open>
  Property C29.  In every interleaving of calls of \<open>Schedule\<close>, commits, cancellations, stops, telemetry and policy
  reloads the starts in flight stay within the limits: at most \<^verbatim>\<open>startTokensTotal\<close> at the leaf and at most
  \<^verbatim>\<open>startTokensPerWorker\<close> at each worker, where these limits are set.
\<close>

theorem start_tokens_respected:
  assumes "length es + length (reservations (NewPlacementState n per tokens mx)) < 2 ^ 64"
    and "p = pstate (placement_run es (placement_init (NewPlacementState n per tokens mx)))"
  shows "(tokens > 0 \<longrightarrow> pendingStarts p \<le> tokens) \<and>
    (per > 0 \<longrightarrow> (\<forall>i < nat n. wp_pendingStarts (ps_workers p ! i) \<le> ucast per))"
proof -
  have "limits p"
    using run_from_start(1)[OF assms(1)] assms(2) by (auto simp: reached_def placement_inv_def Let_def)
  moreover have "startTokensTotal p = tokens" "startTokensPerWorker p = ucast per" "length (ps_workers p) = nat n"
    using run_from_start(2)[OF assms(1)] assms(2) NewPlacementState_simps[of n per tokens mx] by (auto simp: same_config_def)
  moreover have "(ucast per :: u64) > 0" if "per > 0"
    using that unat_ucast_up[of per] by (simp add: word_less_nat_alt)
  ultimately show ?thesis
    by (simp add: limits_def)
qed

definition one_start :: "placement_event list" where
  "one_start = [Install (SBalanced \<lparr>nextScale = 0, br_maxInstances = 1\<rparr>), CallSchedule None] @ replicate 17 (Run 0 ([], []))"

theorem start_tokens_respected_witness:
  "pendingStarts (pstate (placement_run one_start (placement_init (NewPlacementState 1 1 2 1)))) \<le> 2"
proof -
  have "length one_start + length (reservations (NewPlacementState 1 1 2 1)) < 2 ^ 64"
    by (simp add: one_start_def NewPlacementState_def)
  then show ?thesis
    using start_tokens_respected[OF _ refl, of one_start 1 1 2 1] by simp
qed

text \<open>
  Property C30.  No start token is lost or duplicated: when every call has ended, the counter of starts in flight is the
  number of reservations that were returned and neither committed nor cancelled, at the leaf and at each
  worker.  In particular all counters are zero when every reservation has been completed.
\<close>

theorem tokens_accounted:
  assumes "length es + length (reservations (NewPlacementState n per tokens mx)) < 2 ^ 64"
    and s: "s = placement_run es (placement_init (NewPlacementState n per tokens mx))"
    and ended: "\<And>c. c \<in> set (threads s) \<Longrightarrow> ended c"
  shows "unat (pendingStarts (pstate s)) = length (filter (open_reservation (pstate s)) (threads s)) \<and>
    (\<forall>i < nat n. unat (wp_pendingStarts (ps_workers (pstate s) ! i)) =
       length (filter (\<lambda>c. open_reservation (pstate s) c \<and> reserved_worker c = int i) (threads s)))"
proof -
  have "length (ps_workers (pstate s)) = nat n"
    using run_from_start(2)[OF assms(1)] s NewPlacementState_simps[of n per tokens mx] by (auto simp: same_config_def)
  then show ?thesis
    using ended_counters[OF run_from_start(1)[OF assms(1), folded s] ended] by simp
qed

theorem tokens_accounted_witness:
  "unat (pendingStarts (pstate (placement_run one_start (placement_init (NewPlacementState 1 1 2 1))))) = 1"
proof -
  let ?s = "placement_run one_start (placement_init (NewPlacementState 1 1 2 1))"
  have "length one_start + length (reservations (NewPlacementState 1 1 2 1)) < 2 ^ 64"
    by (simp add: one_start_def NewPlacementState_def)
  moreover have "list_all ended (threads ?s)" "length (filter (open_reservation (pstate ?s)) (threads ?s)) = 1"
    by code_simp+
  ultimately show ?thesis
    using tokens_accounted[of one_start 1 1 2 1 ?s] by (simp add: list_all_iff)
qed

text \<open>
  Property C31.  A reservation is completed at most once: when one of the concurrent commits and cancellations of a
  reservation wins, no later one does, however often the slot is reused meanwhile.
\<close>

theorem reservation_once:
  assumes bound: "length es + length es' + 1 + length (reservations (NewPlacementState n per tokens mx)) < 2 ^ 64"
    and s: "s = placement_run es (placement_init (NewPlacementState n per tokens mx))"
    and t: "t < length (threads s)" "threads s ! t = ThFinish b r CmComplete"
    and s1: "s1 = placement_exec (Run t orders) s" and won: "threads s1 ! t \<noteq> ThDone"
  shows "completeReservation r (pstate (placement_run es' s1)) = (pstate (placement_run es' s1), False)"
proof -
  let ?m = "length (reservations (NewPlacementState n per tokens mx))"
  have r: "reached (length es) s" and m: "length (reservations (pstate s)) = ?m"
    using run_from_start[of es n per tokens mx] bound s by (auto simp: same_config_def)
  have r1: "reached (Suc (length es)) s1" and a1: "advances s s1"
    using exec_reached[OF r, of "Run t orders"] bound m s1 by auto
  have m1: "length (reservations (pstate s1)) = ?m"
    using a1 m by (simp add: advances_def same_config_def)
  have a2: "advances s1 (placement_run es' s1)"
    using run_reached[OF r1, of es'] bound m1 by simp
  obtain q where q: "completeReservation r (pstate s) = (q, True)" "pstate s1 = q"
    using winner_step[OF t(2,1) s1 won] by blast
  let ?j = "nat (Slot r)"
  have j: "?j < ?m" "reservations (pstate s) ! ?j = Generation r"
    and q': "q = (pstate s)\<lparr>reservations := (reservations (pstate s))[?j := Generation r + 1]\<rparr>"
    using q(1) m by (auto simp: completeReservation_def split: if_splits)
  have "reservations (pstate s1) ! ?j = Generation r + 1"
    using j(1) m by (simp add: q(2) q')
  have "unat (Generation r) + 1 < 2 ^ 64"
  proof -
    have "unat (reservations (pstate s) ! ?j) \<le> length es"
      using r j(1) m by (auto simp: reached_def placement_inv_def Let_def)
    then show ?thesis
      using bound j(2) by simp
  qed
  then have "unat (Generation r) < unat (reservations (pstate s1) ! ?j)"
    using unat_plus_one \<open>reservations (pstate s1) ! ?j = Generation r + 1\<close> by simp
  also have "\<dots> \<le> unat (reservations (pstate (placement_run es' s1)) ! ?j)"
    using a2 j(1) m1 by (simp add: advances_def)
  finally show ?thesis
    by (auto simp: completeReservation_def)
qed

definition one_commit :: "placement_event list" where
  "one_commit = one_start @ [CallFinish True 0]"

theorem reservation_once_witness:
  "completeReservation (reservation_of 0 '''' 0 1)
     (pstate (placement_run [CallFinish False 0] (placement_exec (Run 1 ([], [])) (placement_run one_commit (placement_init (NewPlacementState 1 1 2 1)))))) =
   (pstate (placement_run [CallFinish False 0] (placement_exec (Run 1 ([], [])) (placement_run one_commit (placement_init (NewPlacementState 1 1 2 1))))), False)"
proof -
  let ?s = "placement_run one_commit (placement_init (NewPlacementState 1 1 2 1))"
  have "length one_commit + length [CallFinish False 0] + 1 + length (reservations (NewPlacementState 1 1 2 1)) < 2 ^ 64"
    by (simp add: one_commit_def one_start_def NewPlacementState_def)
  moreover have "1 < length (threads ?s)" "threads ?s ! 1 = ThFinish True (reservation_of 0 '''' 0 1) CmComplete"
    "threads (placement_exec (Run 1 ([], [])) ?s) ! 1 \<noteq> ThDone"
    by code_simp+
  ultimately show ?thesis
    by (rule reservation_once[OF _ refl _ _ refl])
qed

text \<open>
  Property C32.  Every call returns: from any reachable state a thread that runs undisturbed ends within a number of
  steps that is linear in the numbers of slots and workers.  No thread that stopped elsewhere can block it.
  The schedulers that were installed are ones for the workers of the leaf, as \<^verbatim>\<open>NewFromConfig\<close> builds them.
\<close>

theorem calls_return:
  assumes n: "0 \<le> n" "n < 2 ^ 63" and installs: "\<And>sch. Install sch \<in> set es \<Longrightarrow> scheduler_serves sch (nat n)"
    and s: "s = placement_run es (placement_init (NewPlacementState n per tokens mx))" and t: "t < length (threads s)"
    and os: "length os \<ge> 2 * length (reservations (pstate s)) + 22 * nat n + 64"
  shows "ended (threads (placement_run (map (Run t) os) s) ! t)"
proof -
  let ?s0 = "placement_init (NewPlacementState n per tokens mx)"
  have init: "sched_inv ?s0" "length (ps_workers (pstate ?s0)) = nat n"
    using n NewPlacementState_simps(3)[of n per tokens mx] by (auto simp: sched_inv_def placement_init_def)
  have inv: "sched_inv s" and "length (ps_workers (pstate s)) = nat n"
    unfolding s using sched_runs[OF init(1), of es] init(2) installs by (auto simp: installs_ok_def)
  then have "th_rank (length (ps_workers (pstate s))) (length (reservations (pstate s))) (pstate s) (threads s ! t) \<le> length os"
    using th_rank_le[of "nat n" "length (reservations (pstate s))" "pstate s" "threads s ! t"] os by simp
  then show ?thesis
    by (rule solo_run[OF inv t])
qed

definition call_begun :: "placement_event list" where
  "call_begun = [Install (SBalanced \<lparr>nextScale = 0, br_maxInstances = 1\<rparr>), CallSchedule None]"

theorem calls_return_witness:
  "ended (threads (placement_run (map (Run 0) (replicate 90 ([], []))) (placement_run call_begun (placement_init (NewPlacementState 1 1 2 1)))) ! 0)"
proof -
  let ?s = "placement_run call_begun (placement_init (NewPlacementState 1 1 2 1))"
  have "0 < length (threads ?s)" "length (reservations (pstate ?s)) = 2"
    by code_simp+
  then show ?thesis
    by (intro calls_return[where n = 1 and es = call_begun and per = 1 and tokens = 2 and mx = 1]) (auto simp: call_begun_def)
qed










end
