(* ===== verification/Autoscale_Policy.thy ===== *)
theory Autoscale_Policy
  imports Core_State Float64
begin

text \<open>
  The autoscaling policy of a leaf, \<^verbatim>\<open>pkg/leaf/autoscaling/policy.go\<close>: the desired number of instances of a
  function from its observed demand.

  Durations and times are nanoseconds; the zero time is \<^const>\<open>None\<close>.  The arithmetic is the one of \<^verbatim>\<open>float64\<close> with
  a rounding after every operation.  The conversion of a float to \<^verbatim>\<open>uint64\<close> is defined by the language only for
  values in range; what the platform gives for the others is the argument \<open>oor\<close> of the operations.
\<close>

subsection \<open>Constants and state\<close>

definition second :: int where "second = 1000000000"

definition defaultScalingPeriod :: int where "defaultScalingPeriod = 2 * second"
definition defaultStableWindow :: int where "defaultStableWindow = 6 * second"
definition defaultPanicWindow :: int where "defaultPanicWindow = 2 * second"
definition defaultPanicThresholdRatio :: float64 where "defaultPanicThresholdRatio = 2"
definition defaultMaxScaleUpRate :: float64 where "defaultMaxScaleUpRate = 1000"
definition defaultMaxScaleDownRate :: float64 where "defaultMaxScaleDownRate = 2"

record dirigentState =
  buckets :: "float64 list"
  windowHead :: nat
  lastSample :: "int option"
  inPanic :: bool
  panicStarted :: "int option"
  maxPanicInstances :: u64

definition newState :: dirigentState where
  "newState = \<lparr>buckets = [], windowHead = 0, lastSample = None, inPanic = False, panicStarted = None, maxPanicInstances = 0\<rparr>"

record DefaultPolicy =
  ScaleToZeroAfter :: int
  UnlimitedConcurrencyTarget :: u64
  TargetUtilization :: float64
  ColdStartPanicScaling :: bool
  DirigentAdmission :: bool
  StableWindow :: int
  PanicWindow :: int
  PanicThresholdRatio :: float64
  MaxScaleUpRate :: float64
  MaxScaleDownRate :: float64
  states :: "(u64, dirigentState) gomap"

record Signals =
  ReadyInstances :: u32
  PendingStarts :: u32
  PendingStops :: u32
  LogicalScale :: u64
  HasLogicalScale :: bool
  AvailableConcurrency :: u64
  InFlight :: u64
  HighWater :: u64
  Executing :: u64
  QueueDepth :: u64
  OldestQueueAge :: int
  LastActivity :: "int option"

subsection \<open>Windows and rates\<close>

definition stableWindow :: "DefaultPolicy \<Rightarrow> int" where
  "stableWindow p = (if StableWindow p > 0 then StableWindow p else defaultStableWindow)"

definition panicWindow :: "DefaultPolicy \<Rightarrow> int" where
  "panicWindow p = (if PanicWindow p > 0 then PanicWindow p else defaultPanicWindow)"

definition panicThresholdRatio :: "DefaultPolicy \<Rightarrow> float64" where
  "panicThresholdRatio p = (if PanicThresholdRatio p > 0 then PanicThresholdRatio p else defaultPanicThresholdRatio)"

definition maxScaleUpRate :: "DefaultPolicy \<Rightarrow> float64" where
  "maxScaleUpRate p = (if MaxScaleUpRate p > 0 then MaxScaleUpRate p else defaultMaxScaleUpRate)"

definition maxScaleDownRate :: "DefaultPolicy \<Rightarrow> float64" where
  "maxScaleDownRate p = (if MaxScaleDownRate p > 0 then MaxScaleDownRate p else defaultMaxScaleDownRate)"

subsection \<open>The ring of samples\<close>

definition periods :: "int \<Rightarrow> nat" where
  "periods window = (let n = window div defaultScalingPeriod in if n < 1 then 1 else nat n)"

definition new_period :: "int \<Rightarrow> dirigentState \<Rightarrow> bool" where
  "new_period now s \<longleftrightarrow>
     (case lastSample s of None \<Rightarrow> True | Some t \<Rightarrow> now - t \<ge> defaultScalingPeriod) \<or> buckets s = []"

definition record_sample :: "float64 \<Rightarrow> int \<Rightarrow> int \<Rightarrow> dirigentState \<Rightarrow> dirigentState" where
  "record_sample v now window s =
     (if new_period now s then
        let maxBuckets = periods window;
            s1 = (if length (buckets s) < maxBuckets
                  then s\<lparr>buckets := buckets s @ [v], windowHead := length (buckets s)\<rparr>
                  else let hd = (windowHead s + 1) mod maxBuckets
                       in s\<lparr>windowHead := hd, buckets := (buckets s)[hd := v]\<rparr>)
        in s1\<lparr>lastSample := Some now\<rparr>
      else s\<lparr>buckets := (buckets s)[windowHead s := v]\<rparr>)"

text \<open>The loop of \<^verbatim>\<open>average\<close>: it walks backwards from the head and wraps around.\<close>

fun sum_back :: "nat \<Rightarrow> float64 list \<Rightarrow> nat \<Rightarrow> float64 \<Rightarrow> float64" where
  "sum_back 0 bs idx acc = acc"
| "sum_back (Suc n) bs idx acc =
     sum_back n bs (if idx = 0 then length bs - 1 else idx - 1) (fadd acc (bs ! idx))"

definition average :: "int \<Rightarrow> dirigentState \<Rightarrow> float64" where
  "average window s =
     (if buckets s = [] then 0
      else let count = min (periods window) (length (buckets s))
           in fdiv (sum_back count (buckets s) (windowHead s) 0) (rnd64 (of_nat count)))"

subsection \<open>Targets and clamps\<close>

definition minScaleTarget :: float64 where "minScaleTarget = rnd64 (1 / 100)"

definition normalizeUtilization :: "float64 \<Rightarrow> float64" where
  "normalizeUtilization v0 =
     (if v0 \<le> 0 then 1
      else let v = (if v0 > 1 then fdiv v0 100 else v0) in if v \<le> 0 \<or> v > 1 then 1 else v)"

definition resolveScaleTarget :: "FunctionSpec option \<Rightarrow> u64 \<Rightarrow> float64 \<Rightarrow> float64" where
  "resolveScaleTarget function defaultTotal utilization =
     (let scale = Option.bind function fn_scale;
          maxCC = (case scale of None \<Rightarrow> 1 | Some sc \<Rightarrow> max_concurrency sc);
          annotated = (case scale of None \<Rightarrow> 0 | Some sc \<Rightarrow> target_concurrency sc);
          total0 = float_of_u64 maxCC;
          total = (if total0 = 0 then
                     (if annotated > 0 then float_of_u64 annotated
                      else if defaultTotal > 0 then float_of_u64 defaultTotal else 1)
                   else if annotated > 0 then min (float_of_u64 annotated) total0 else total0)
      in max minScaleTarget (fmul total (normalizeUtilization utilization)))"

definition uint64_of :: "(float64 \<Rightarrow> u64) \<Rightarrow> float64 \<Rightarrow> u64" where
  "uint64_of oor x = (if 0 \<le> x \<and> x < 2 ^ 64 then of_int \<lfloor>x\<rfloor> else oor x)"

definition ceilDivFloat :: "(float64 \<Rightarrow> u64) \<Rightarrow> float64 \<Rightarrow> float64 \<Rightarrow> u64" where
  "ceilDivFloat oor v divisor = (if v \<le> 0 \<or> divisor \<le> 0 then 0 else uint64_of oor (of_int \<lceil>fdiv v divisor\<rceil>))"

definition clampBetween :: "u64 \<Rightarrow> u64 \<Rightarrow> u64 \<Rightarrow> u64" where
  "clampBetween v lo hi = (let v1 = (if v < lo then lo else v) in if hi > 0 \<and> v1 > hi then hi else v1)"

definition clampDesired :: "FunctionSpec option \<Rightarrow> u64 \<Rightarrow> u64" where
  "clampDesired function desired =
     (case Option.bind function fn_scale of
        None \<Rightarrow> desired
      | Some sc \<Rightarrow>
          let d = (if desired < min_instances sc then min_instances sc else desired)
          in if max_instances sc > 0 \<and> d > max_instances sc then max_instances sc else d)"

subsection \<open>The decision\<close>

text \<open>The update of the panic mode.\<close>

definition panic_step :: "float64 \<Rightarrow> int \<Rightarrow> int \<Rightarrow> u64 \<Rightarrow> u64 \<Rightarrow> dirigentState \<Rightarrow> dirigentState" where
  "panic_step threshold window now desiredPanic ready s =
     (if fdiv (float_of_u64 desiredPanic) (float_of_u64 ready) \<ge> threshold then
        let s1 = s\<lparr>inPanic := True, panicStarted := Some now\<rparr>
        in if desiredPanic > maxPanicInstances s1 then s1\<lparr>maxPanicInstances := desiredPanic\<rparr> else s1
      else if inPanic s \<and> (case panicStarted s of None \<Rightarrow> True | Some t \<Rightarrow> t + window < now) then
        s\<lparr>inPanic := False, panicStarted := None, maxPanicInstances := 0\<rparr>
      else s)"

definition dirigentDesired ::
  "(float64 \<Rightarrow> u64) \<Rightarrow> FunctionSpec option \<Rightarrow> u64 \<Rightarrow> u64 \<Rightarrow> int \<Rightarrow> DefaultPolicy \<Rightarrow> u64 \<times> DefaultPolicy" where
  "dirigentDesired oor function current inFlight now p =
     (let functionID = (case function of None \<Rightarrow> 0 | Some f \<Rightarrow> fn_function_id f);
          state0 = (case map_of (states p) functionID of None \<Rightarrow> newState | Some st \<Rightarrow> st);
          state1 = record_sample (float_of_u64 inFlight) now (stableWindow p) state0;
          target = resolveScaleTarget function (UnlimitedConcurrencyTarget p) (TargetUtilization p);
          stableAvg = average (stableWindow p) state1;
          panicAvg = average (panicWindow p) state1;
          ready = (if current = 0 then 1 else current);
          maxScaleUp = uint64_of oor (of_int \<lceil>fmul (maxScaleUpRate p) (float_of_u64 ready)\<rceil>);
          maxScaleDown = uint64_of oor (of_int \<lfloor>fdiv (float_of_u64 ready) (maxScaleDownRate p)\<rfloor>);
          desiredStable = clampBetween (ceilDivFloat oor stableAvg target) maxScaleDown maxScaleUp;
          desiredPanic = clampBetween (ceilDivFloat oor panicAvg target) maxScaleDown maxScaleUp;
          desiredInstant = clampBetween (ceilDivFloat oor (float_of_u64 inFlight) target) 0 maxScaleUp;
          state2 = panic_step (panicThresholdRatio p) (stableWindow p) now desiredPanic ready state1;
          desired1 = (if inPanic state2 then
                        let d = (if desiredStable < desiredPanic then desiredPanic else desiredStable)
                        in if d < maxPanicInstances state2 then maxPanicInstances state2 else d
                      else desiredStable);
          desired = (if desired1 < desiredInstant then desiredInstant else desired1)
      in (desired, p\<lparr>states := AList.update functionID state2 (states p)\<rparr>))"

definition idle_timeout :: "FunctionSpec option \<Rightarrow> DefaultPolicy \<Rightarrow> int" where
  "idle_timeout function p =
     (case Option.bind (Option.bind function fn_scale) scale_to_zero_idle_timeout of
        Some d \<Rightarrow> if d > 0 then d else ScaleToZeroAfter p
      | None \<Rightarrow> ScaleToZeroAfter p)"

definition current_scale :: "Signals \<Rightarrow> DefaultPolicy \<Rightarrow> u64" where
  "current_scale signals p =
     (if DirigentAdmission p \<and> HasLogicalScale signals then LogicalScale signals
      else if DirigentAdmission p then ucast (ReadyInstances signals) + ucast (PendingStarts signals)
      else ucast (ReadyInstances signals))"

definition observed_demand :: "Signals \<Rightarrow> u64" where
  "observed_demand signals = (if HighWater signals > InFlight signals then HighWater signals else InFlight signals)"

text \<open>The switch: the desired scale, its reason, whether it is stable, and the policy with the new sample.\<close>

definition scale_choice ::
  "(float64 \<Rightarrow> u64) \<Rightarrow> FunctionSpec option \<Rightarrow> Signals \<Rightarrow> int \<Rightarrow> DefaultPolicy \<Rightarrow> (u64 \<times> string \<times> bool) \<times> DefaultPolicy" where
  "scale_choice oor function signals now p =
     (let maxCC = (case Option.bind function fn_scale of None \<Rightarrow> 1 | Some sc \<Rightarrow> sint (max_concurrency sc));
          current = current_scale signals p;
          observed = observed_demand signals
      in if observed > 0 then
           if DirigentAdmission p \<and> current = 0 then ((1, ''dirigent-scale-from-zero'', False), p)
           else if DirigentAdmission p then
             (case dirigentDesired oor function current observed now p of (d, q) \<Rightarrow> ((d, ''dirigent-optimistic'', False), q))
           else if ColdStartPanicScaling p \<and> maxCC = 1 then
             (((if observed < current then current else observed), ''cold-start-panic'', False), p)
           else (case dirigentDesired oor function current observed now p of (d, q) \<Rightarrow> ((d, ''dirigent-in-flight'', False), q))
         else if current = 0 then ((0, ''zero'', True), p)
         else if (case LastActivity signals of None \<Rightarrow> False | Some t \<Rightarrow> now - t \<ge> idle_timeout function p)
           then ((0, ''scale-to-zero'', False), p)
         else (case dirigentDesired oor function current 0 now p of
                 (d, q) \<Rightarrow> (((if d = 0 then 1 else d), ''dirigent-idle'', False), q)))"

definition DesiredScale ::
  "(float64 \<Rightarrow> u64) \<Rightarrow> FunctionSpec option \<Rightarrow> Signals \<Rightarrow> int \<Rightarrow> DefaultPolicy \<Rightarrow> ScaleDecision \<times> DefaultPolicy" where
  "DesiredScale oor function signals now p =
     (case scale_choice oor function signals now p of ((desired, reason, isStable), p') \<Rightarrow>
        (\<lparr>dc_function_id = (case function of None \<Rightarrow> 0 | Some f \<Rightarrow> fn_function_id f),
          dc_desired_instances = clampDesired function desired, dc_reason = reason, dc_stable = isStable\<rparr>, p'))"

subsection \<open>The ring holds the latest samples\<close>

text \<open>
  The reference: the history of samples, the newest first, with one sample for each period; a sample within
  the period of the previous one replaces it.  The average is over the latest samples that fit the window.
\<close>

definition note_sample :: "float64 \<Rightarrow> int \<Rightarrow> float64 list \<times> int option \<Rightarrow> float64 list \<times> int option" where
  "note_sample v now h =
     (case h of (xs, last_t) \<Rightarrow>
        if (case last_t of None \<Rightarrow> True | Some t \<Rightarrow> now - t \<ge> defaultScalingPeriod) then (v # xs, Some now)
        else (v # tl xs, last_t))"

definition moving_average :: "int \<Rightarrow> int \<Rightarrow> float64 list \<Rightarrow> float64" where
  "moving_average window kept xs =
     (let latest = take (periods window) (take (periods kept) xs)
      in if latest = [] then 0 else fdiv (foldl fadd 0 latest) (rnd64 (of_nat (length latest))))"

definition ring_rep :: "nat \<Rightarrow> dirigentState \<Rightarrow> float64 list \<times> int option \<Rightarrow> bool" where
  "ring_rep k s h \<longleftrightarrow>
     lastSample s = snd h \<and> (snd h = None \<longleftrightarrow> fst h = []) \<and>
     length (buckets s) = min k (length (fst h)) \<and>
     (buckets s \<noteq> [] \<longrightarrow> windowHead s < length (buckets s)) \<and>
     (length (buckets s) < k \<longrightarrow> windowHead s = length (buckets s) - 1) \<and>
     (\<forall>i < length (buckets s). fst h ! i = buckets s ! ((windowHead s + length (buckets s) - i) mod length (buckets s)))"

lemma periods_pos: "0 < periods w"
  by (auto simp: periods_def Let_def)

lemma ring_rep_init: "ring_rep k newState ([], None)"
  by (simp add: ring_rep_def newState_def)

lemma mod_back:
  assumes "i < l" "h < (l :: nat)"
  shows "(h + l - i) mod l = (if i \<le> h then h - i else h + l - i)"
  using assms by (auto simp: mod_if)

lemma ring_rep_record:
  assumes rep: "ring_rep (periods w) s h"
  shows "ring_rep (periods w) (record_sample v now w s) (note_sample v now h)"
proof -
  obtain xs lt where h: "h = (xs, lt)"
    by (cases h)
  let ?k = "periods w" and ?bs = "buckets s" and ?l = "length (buckets s)" and ?hd = "windowHead s"
  have r: "lastSample s = lt" "lt = None \<longleftrightarrow> xs = []" "?l = min ?k (length xs)" "?bs \<noteq> [] \<Longrightarrow> ?hd < ?l"
    "?l < ?k \<Longrightarrow> ?hd = ?l - 1" and nth: "\<And>i. i < ?l \<Longrightarrow> xs ! i = ?bs ! ((?hd + ?l - i) mod ?l)"
    using rep by (auto simp: ring_rep_def h)
  have k: "0 < ?k"
    by (rule periods_pos)
  have empty: "?bs = [] \<longleftrightarrow> xs = []"
    using r(3) k by (metis length_0_conv min_0L min_0R min_def not_less0)
  have new: "new_period now s \<longleftrightarrow> (case lt of None \<Rightarrow> True | Some t \<Rightarrow> now - t \<ge> defaultScalingPeriod)"
    using r(1,2) empty by (auto simp: new_period_def split: option.splits)
  show ?thesis
  proof (cases "new_period now s")
    case False
    then have ne: "xs \<noteq> []" "?bs \<noteq> []" and lt: "lt \<noteq> None"
      using new r(2) empty by auto
    have hd: "?hd < ?l"
      using r(4) ne by simp
    have "(v # tl xs) ! i = ?bs[?hd := v] ! ((?hd + ?l - i) mod ?l)" if i: "i < ?l" for i
      using nth[OF i] i hd ne(1) by (cases i; cases xs) (auto simp: mod_back nth_list_update)
    moreover have "record_sample v now w s = s\<lparr>buckets := ?bs[?hd := v]\<rparr>"
      using False by (simp add: record_sample_def)
    moreover have "note_sample v now h = (v # tl xs, lt)"
      using False new by (simp add: note_sample_def h)
    ultimately show ?thesis
      using hd r(1,3,5) ne lt by (simp add: ring_rep_def)
  next
    case True
    show ?thesis
    proof (cases "?l < ?k")
      case small: True
      then have l: "length xs = ?l" "?hd = ?l - 1"
        using r(3,5) by auto
      have "(v # xs) ! i = (?bs @ [v]) ! ((?l + Suc ?l - i) mod Suc ?l)" if i: "i < Suc ?l" for i
      proof (cases i)
        case (Suc j)
        have "(?l - 1 + ?l - j) mod ?l = ?l - Suc j"
          using mod_back[of j ?l "?l - 1"] i Suc by auto
        then have "xs ! j = ?bs ! (?l - Suc j)"
          using nth[of j] i Suc unfolding l(2) by simp
        moreover have "(?l + Suc ?l - Suc j) mod Suc ?l = ?l - Suc j"
          using mod_back[of "Suc j" "Suc ?l" ?l] i Suc by simp
        ultimately show ?thesis
          using i unfolding Suc by (simp add: nth_append) linarith
      next
        case 0
        have "(?l + Suc ?l - 0) mod Suc ?l = ?l"
          using mod_back[of 0 "Suc ?l" ?l] by simp
        then show ?thesis
          unfolding 0 by (simp add: nth_append)
      qed
      moreover have "record_sample v now w s = s\<lparr>buckets := ?bs @ [v], windowHead := ?l, lastSample := Some now\<rparr>"
        using True small by (simp add: record_sample_def)
      moreover have "note_sample v now h = (v # xs, Some now)"
        using True new by (simp add: note_sample_def h)
      ultimately show ?thesis
        using small l(1) by (simp add: ring_rep_def)
    next
      case full: False
      then have l: "?l = ?k" "?bs \<noteq> []" "?k \<le> length xs"
        using r(3) k by auto
      then have hd: "?hd < ?k"
        using r(4) by simp
      let ?hd' = "(?hd + 1) mod ?k"
      have hd': "?hd' < ?k"
        using k by simp
      have "(v # xs) ! i = ?bs[?hd' := v] ! ((?hd' + ?k - i) mod ?k)" if i: "i < ?k" for i
      proof (cases i)
        case 0
        then show ?thesis
          using hd' l by simp
      next
        case (Suc j)
        have idx: "(?hd' + ?k - i) mod ?k = (?hd + ?k - j) mod ?k"
          using hd i Suc by (auto simp: mod_if)
        have "(?hd + ?k - j) mod ?k \<noteq> ?hd'"
          using hd i Suc by (auto simp: mod_if)
        then show ?thesis
          using nth[of j] i Suc l unfolding idx by simp
      qed
      moreover have "record_sample v now w s = s\<lparr>windowHead := ?hd', buckets := ?bs[?hd' := v], lastSample := Some now\<rparr>"
        using True full by (simp add: record_sample_def Let_def)
      moreover have "note_sample v now h = (v # xs, Some now)"
        using True new by (simp add: note_sample_def h)
      ultimately show ?thesis
        using l hd' by (simp add: ring_rep_def)
    qed
  qed
qed

lemma ring_rep_run:
  assumes "ring_rep (periods kept) s h"
  shows "ring_rep (periods kept) (foldl (\<lambda>s (v, now). record_sample v now kept s) s xs)
    (foldl (\<lambda>h (v, now). note_sample v now h) h xs)"
  using assms
proof (induction xs arbitrary: s h)
  case (Cons x xs)
  then show ?case
    using Cons.IH[OF ring_rep_record[OF Cons.prems]] by (cases x) simp
qed simp

lemma sum_back_foldl:
  assumes "n \<le> length bs" "idx < length bs"
  shows "sum_back n bs idx acc = foldl fadd acc (map (\<lambda>i. bs ! ((idx + length bs - i) mod length bs)) [0..<n])"
  using assms
proof (induction n arbitrary: idx acc)
  case (Suc n)
  let ?l = "length bs" and ?b = "\<lambda>k i. bs ! ((k + length bs - i) mod length bs)"
  define j where "j = (if idx = 0 then ?l - 1 else idx - 1)"
  have j: "j < ?l" "map (?b j) [0..<n] = map (?b idx \<circ> Suc) [0..<n]" "?b idx 0 = bs ! idx"
    using Suc.prems by (auto simp: j_def mod_if)
  have upt: "[0..<Suc n] = 0 # map Suc [0..<n]"
    by (simp add: upt_conv_Cons map_Suc_upt del: upt_Suc)
  have "sum_back (Suc n) bs idx acc = sum_back n bs j (fadd acc (bs ! idx))"
    by (simp add: j_def)
  also have "\<dots> = foldl fadd (fadd acc (bs ! idx)) (map (?b j) [0..<n])"
    using Suc.IH[of j] Suc.prems j(1) by simp
  also have "\<dots> = foldl fadd acc (map (?b idx) [0..<Suc n])"
    unfolding upt j(2) using j(3) by simp
  finally show ?case .
qed simp

lemma average_moving:
  assumes "ring_rep (periods kept) s h"
  shows "average window s = moving_average window kept (fst h)"
proof (cases "buckets s = []")
  case True
  then have "fst h = []"
    using assms periods_pos[of kept] by (auto simp: ring_rep_def min_def split: if_splits)
  then show ?thesis
    using True by (simp add: average_def moving_average_def)
next
  case False
  let ?l = "length (buckets s)" and ?c = "min (periods window) (length (buckets s))"
  have r: "?l = min (periods kept) (length (fst h))" "windowHead s < ?l"
    "\<And>i. i < ?l \<Longrightarrow> fst h ! i = buckets s ! ((windowHead s + ?l - i) mod ?l)"
    using assms False by (auto simp: ring_rep_def)
  have "take (periods window) (take (periods kept) (fst h)) = map (\<lambda>i. fst h ! i) [0..<?c]"
    using r(1) by (intro nth_equalityI) auto
  also have "\<dots> = map (\<lambda>i. buckets s ! ((windowHead s + ?l - i) mod ?l)) [0..<?c]"
    using r(3) by simp
  finally have latest: "take (periods window) (take (periods kept) (fst h)) = \<dots>" .
  have "?c \<noteq> 0"
    using False periods_pos[of window] by simp
  then show ?thesis
    unfolding moving_average_def latest using False r(2) by (simp add: average_def sum_back_foldl Let_def fdiv_def)
qed


subsection \<open>Quotients of whole numbers\<close>

text \<open>
  The rounded quotient of two whole numbers below \<open>2 ^ 53\<close> has the same ceiling as the exact one: the exact
  quotient is an integer or at least \<open>1 / c\<close> away from the next one, and the rounding error is smaller.
\<close>

lemma fdiv_ceiling:
  fixes d c :: nat
  assumes "0 < c" "d < 2 ^ 53"
  shows "\<lceil>fdiv (of_nat d) (of_nat c)\<rceil> = \<lceil>(of_nat d :: rat) / of_nat c\<rceil>"
proof -
  let ?x = "(of_nat d :: rat) / of_nat c" and ?r = "fdiv (of_nat d) (of_nat c)"
  have c: "(0 :: rat) < of_nat c"
    using assms(1) by simp
  have "\<bar>?r - ?x\<bar> \<le> ?x / 2 ^ 53"
    using rnd64_error[of ?x] by (simp add: fdiv_def)
  also have "\<dots> < 1 / of_nat c"
  proof -
    have "(of_nat d :: rat) < 2 ^ 53"
      using of_nat_less_iff[of d "2 ^ 53", where 'a = rat] assms(2) by simp
    then show ?thesis
      using c by (simp add: field_simps)
  qed
  finally have err: "\<bar>?r - ?x\<bar> < 1 / of_nat c" .
  show ?thesis
  proof (cases "c dvd d")
    case True
    then obtain k where k: "d = c * k" ..
    then have x: "?x = of_nat k"
      using assms(1) by simp
    have "k < 2 ^ 53"
      using k assms by (metis dual_order.strict_trans2 nat_mult_le_cancel_disj mult.commute mult_le_mono2 nat_mult_1_right Suc_leI One_nat_def)
    then have "?r = of_nat k"
      using rnd64_int[of "int k"] x by (simp add: fdiv_def)
    then show ?thesis
      using x by simp
  next
    case False
    define k where "k = d div c"
    have "d = c * k + d mod c" "d mod c < c" "0 < d mod c"
      using False assms(1) by (simp_all add: k_def mod_greater_zero_iff_not_dvd)
    then have k: "c * k < d" "d < c * (k + 1)"
      by (linarith, simp)
    have "of_nat (c * k + 1) \<le> (of_nat d :: rat)" "of_nat (d + 1) \<le> (of_nat (c * (k + 1)) :: rat)"
      using k by (simp_all only: of_nat_le_iff)
    then have "of_nat (c * k + 1) / of_nat c \<le> ?x" "of_nat (d + 1) / of_nat c \<le> (of_nat (c * (k + 1)) / of_nat c :: rat)"
      using c by (intro divide_right_mono; simp)+
    moreover have "of_nat (c * k + 1) / of_nat c = of_nat k + 1 / (of_nat c :: rat)" "of_nat (d + 1) / of_nat c = ?x + 1 / of_nat c"
      "of_nat (c * (k + 1)) / of_nat c = (of_nat k + 1 :: rat)"
      using c by (simp_all add: add_divide_distrib)
    ultimately have "of_nat k + 1 / of_nat c \<le> ?x" "?x + 1 / of_nat c \<le> of_nat k + 1"
      by simp_all
    moreover have "(0 :: rat) < 1 / of_nat c"
      using c by simp
    ultimately have "of_nat k < ?r" "?r < of_nat k + 1" "of_nat k < ?x" "?x < of_nat k + 1"
      using err unfolding abs_less_iff by linarith+
    then have "\<lceil>?r\<rceil> = int k + 1" "\<lceil>?x\<rceil> = int k + 1"
      by (auto intro!: ceiling_unique)
    then show ?thesis
      by simp
  qed
qed

subsection \<open>The decision covers the demand\<close>

definition max_up :: "(float64 \<Rightarrow> u64) \<Rightarrow> u64 \<Rightarrow> DefaultPolicy \<Rightarrow> u64" where
  "max_up oor current p =
     uint64_of oor (of_int \<lceil>fmul (maxScaleUpRate p) (float_of_u64 (if current = 0 then 1 else current))\<rceil>)"

definition instant :: "(float64 \<Rightarrow> u64) \<Rightarrow> FunctionSpec option \<Rightarrow> u64 \<Rightarrow> u64 \<Rightarrow> DefaultPolicy \<Rightarrow> u64" where
  "instant oor function current inFlight p =
     clampBetween (ceilDivFloat oor (float_of_u64 inFlight)
       (resolveScaleTarget function (UnlimitedConcurrencyTarget p) (TargetUtilization p))) 0 (max_up oor current p)"

lemma le_raised: "x \<le> (if d < x then x else d)" for x d :: u64
  by (auto simp: not_less)

lemma dirigent_instant: "instant oor function current inFlight p \<le> fst (dirigentDesired oor function current inFlight now p)"
  unfolding dirigentDesired_def instant_def max_up_def Let_def fst_conv by (rule le_raised)

lemma clampDesired_cases:
  "desired \<le> clampDesired function desired \<or>
   (\<exists>sc. Option.bind function fn_scale = Some sc \<and> 0 < max_instances sc \<and> clampDesired function desired = max_instances sc)"
  by (auto simp: clampDesired_def Let_def split: option.splits)

lemma clampBetween_up: "v \<le> clampBetween v 0 hi \<or> (0 < hi \<and> clampBetween v 0 hi = hi)"
  by (auto simp: clampBetween_def Let_def)

lemma uint64_of_int:
  assumes "0 \<le> k" "k < 2 ^ 64"
  shows "uint64_of oor (of_int k) = of_int k" "unat (uint64_of oor (of_int k)) = nat k"
proof -
  have "(of_int k :: rat) < 2 ^ 64"
    using assms(2) of_int_less_iff[of k "2 ^ 64", where 'a = rat] by simp
  then show *: "uint64_of oor (of_int k) = of_int k"
    using assms(1) by (simp add: uint64_of_def)
  show "unat (uint64_of oor (of_int k)) = nat k"
    unfolding * using assms by (simp add: unat_eq_nat_uint uint_word_of_int)
qed

lemma minScaleTarget_bounds: "0 < minScaleTarget" "1 / 200 \<le> minScaleTarget" "minScaleTarget \<le> 1"
  using rnd64_ge[of "1 / 100"] rnd64_le[of "1 / 100"] by (simp_all add: minScaleTarget_def)

lemma normalizeUtilization_bounds: "0 < normalizeUtilization v" "normalizeUtilization v \<le> 1"
  by (auto simp: normalizeUtilization_def Let_def)

text \<open>The target of an instance is at most its concurrency, whatever set point and headroom are configured.\<close>

lemma resolveScaleTarget_le:
  assumes "fn_scale f = Some sc" "0 < max_concurrency sc" "unat (max_concurrency sc) < 2 ^ 53"
  shows "resolveScaleTarget (Some f) tot u \<le> of_nat (unat (max_concurrency sc))"
proof -
  define c :: rat where "c = of_nat (unat (max_concurrency sc))"
  have "0 < unat (max_concurrency sc)"
    using assms(2) by (simp add: word_less_nat_alt)
  then have c: "1 \<le> c"
    unfolding c_def using of_nat_mono[of 1 "unat (max_concurrency sc)"] by simp
  have exact: "float_of_u64 (max_concurrency sc) = c" "rnd64 c = c"
    using float_of_u64_exact[OF assms(3)] unfolding c_def float_of_u64_def by simp_all
  have le: "fmul x (normalizeUtilization u) \<le> c" if x: "0 \<le> x" "x \<le> c" for x
  proof (cases "x = 0")
    case False
    then have "0 < x * normalizeUtilization u" "x * normalizeUtilization u \<le> c"
      using x normalizeUtilization_bounds[of u] mult_mono[of x c "normalizeUtilization u" 1] by (auto intro: mult_pos_pos)
    then have "rnd64 (x * normalizeUtilization u) \<le> rnd64 c"
      by (rule rnd64_mono)
    then show ?thesis
      by (simp only: fmul_def exact(2))
  qed (use c in \<open>simp add: fmul_def\<close>)
  have "resolveScaleTarget (Some f) tot u =
      max minScaleTarget (fmul (if target_concurrency sc > 0 then min (float_of_u64 (target_concurrency sc)) c else c)
        (normalizeUtilization u))"
    using assms(1) c by (simp add: resolveScaleTarget_def Let_def exact(1))
  also have "\<dots> \<le> c"
    using c minScaleTarget_bounds(3) float_of_u64_nonneg[of "target_concurrency sc"] by (auto intro!: max.boundedI le)
  finally show ?thesis
    unfolding c_def .
qed

lemma max_up_exact:
  assumes "MaxScaleUpRate p \<le> 0" "unat current < 2 ^ 43"
  shows "unat (max_up oor current p) = 1000 * max 1 (unat current)"
proof -
  let ?r = "if current = 0 then 1 else current"
  define r where "r = max 1 (unat current)"
  have u: "unat ?r = r"
    by (auto simp: r_def max_def unat_eq_0 not_le)
  have small: "r < 2 ^ 43"
    using assms(2) by (simp add: r_def)
  have "float_of_u64 ?r = of_nat r"
    using float_of_u64_exact[of ?r] small unfolding u by simp
  then have "fmul (maxScaleUpRate p) (float_of_u64 ?r) = rnd64 (of_int (1000 * int r))"
    using assms(1) by (simp add: fmul_def maxScaleUpRate_def defaultMaxScaleUpRate_def)
  also have "\<dots> = of_int (1000 * int r)"
    using small by (intro rnd64_int) simp
  finally have f: "fmul (maxScaleUpRate p) (float_of_u64 ?r) = of_int (1000 * int r)" .
  have "unat (uint64_of oor (of_int (1000 * int r))) = nat (1000 * int r)"
    using small by (intro uint64_of_int(2)) auto
  then show ?thesis
    unfolding max_up_def f r_def[symmetric] by (simp add: nat_mult_distrib)
qed

lemma scaled_le: "unat v \<le> unat w \<Longrightarrow> x \<le> unat v * k \<Longrightarrow> x \<le> unat w * k" for v w :: u64
  by (rule order_trans[OF _ mult_le_mono1])

lemma ceilDivFloat_ceiling:
  assumes "0 < d" "d < 2 ^ 53" "1 / 200 \<le> t"
  shows "0 < \<lceil>fdiv (of_nat d) t\<rceil>" "unat (ceilDivFloat oor (of_nat d) t) = nat \<lceil>fdiv (of_nat d) t\<rceil>"
proof -
  let ?x = "(of_nat d :: rat) / t"
  have t: "0 < t"
    using assms(3) by (rule less_le_trans[rotated]) simp
  have d: "(0 :: rat) < of_nat d" "(of_nat d :: rat) < 2 ^ 53"
    using assms(1,2) of_nat_less_iff[of d "2 ^ 53", where 'a = rat] by simp_all
  have x: "0 < ?x"
    using d(1) t by simp
  have "?x \<le> 2 ^ 53 / (1 / 200)"
    using d assms(3) by (intro frac_le) auto
  then have "2 * ?x \<le> 2 ^ 62"
    by simp
  moreover have lo: "?x / 2 \<le> fdiv (of_nat d) t" and "fdiv (of_nat d) t \<le> 2 * ?x"
    using rnd64_ge[of ?x] rnd64_le[of ?x] x by (simp_all add: fdiv_def)
  ultimately have r: "fdiv (of_nat d) t \<le> 2 ^ 62" "0 < fdiv (of_nat d) t"
    using less_le_trans[OF half_gt_zero[OF x] lo] by (simp_all only: order_trans)
  let ?k = "\<lceil>fdiv (of_nat d) t\<rceil>"
  have k: "0 < ?k" "?k \<le> 2 ^ 62"
    using r by (simp_all add: ceiling_le_iff)
  then have "unat (uint64_of oor (of_int ?k)) = nat ?k"
    by (intro uint64_of_int(2)) auto
  moreover have "ceilDivFloat oor (of_nat d) t = uint64_of oor (of_int ?k)"
    using d t by (simp add: ceilDivFloat_def not_le)
  ultimately show "0 < ?k" "unat (ceilDivFloat oor (of_nat d) t) = nat ?k"
    using k by auto
qed

lemma ceilDivFloat_pos: "0 < d \<Longrightarrow> d < 2 ^ 53 \<Longrightarrow> 1 / 200 \<le> t \<Longrightarrow> ceilDivFloat oor (of_nat d) t \<noteq> 0"
  using ceilDivFloat_ceiling(1)[of d t] ceilDivFloat_ceiling(2)[of d t oor] by auto

text \<open>Rounding loses no request: instances for a target of at most \<open>c\<close> have room for the demand.\<close>

lemma ceilDivFloat_covers:
  assumes "0 < d" "d < 2 ^ 53" "1 / 200 \<le> t" "t \<le> of_nat c"
  shows "d \<le> unat (ceilDivFloat oor (of_nat d) t) * c"
proof -
  let ?k = "\<lceil>fdiv (of_nat d) t\<rceil>" and ?q = "(of_nat d :: rat) / of_nat c"
  have t: "0 < t"
    using assms(3) by (rule less_le_trans[rotated]) simp
  then have "(0 :: rat) < of_nat c"
    using assms(4) by (rule less_le_trans)
  then have c: "0 < c" "(0 :: rat) < of_nat c"
    by simp_all
  have "0 < ?q" "?q \<le> of_nat d / t"
    using assms(1,4) c t by (auto intro: divide_left_mono)
  then have "fdiv (of_nat d) (of_nat c) \<le> fdiv (of_nat d) t"
    unfolding fdiv_def by (rule rnd64_mono)
  then have "\<lceil>?q\<rceil> \<le> ?k"
    unfolding fdiv_ceiling[OF c(1) assms(2), symmetric] by (rule ceiling_mono)
  then have "?q \<le> of_int ?k"
    by (simp only: ceiling_le_iff)
  then have "(of_nat d :: rat) \<le> of_int ?k * of_nat c"
    using c(2) by (simp only: pos_divide_le_eq)
  then have "int d \<le> ?k * int c"
    by (metis (no_types, lifting) of_int_le_iff of_int_mult of_int_of_nat_eq)
  then have "int d \<le> int (nat ?k * c)"
    using ceilDivFloat_ceiling(1)[OF assms(1-3)] by simp
  then show ?thesis
    unfolding ceilDivFloat_ceiling(2)[OF assms(1-3)] by (simp only: of_nat_le_iff)
qed

lemma resolveScaleTarget_min: "1 / 200 \<le> resolveScaleTarget f tot u"
  unfolding resolveScaleTarget_def Let_def using minScaleTarget_bounds(2) by (simp add: le_max_iff_disj)

lemma instant_covers:
  assumes "fn_scale f = Some sc" "0 < max_concurrency sc" "unat (max_concurrency sc) < 2 ^ 53"
    and "0 < inFlight" "unat inFlight < 2 ^ 53"
  shows "unat inFlight \<le> unat (instant oor (Some f) current inFlight p) * unat (max_concurrency sc) \<or>
    (0 < max_up oor current p \<and> instant oor (Some f) current inFlight p = max_up oor current p)"
proof -
  let ?v = "ceilDivFloat oor (of_nat (unat inFlight)) (resolveScaleTarget (Some f) (UnlimitedConcurrencyTarget p) (TargetUtilization p))"
  have "0 < unat inFlight"
    using assms(4) by (simp add: word_less_nat_alt)
  then have "unat inFlight \<le> unat ?v * unat (max_concurrency sc)"
    by (rule ceilDivFloat_covers[OF _ assms(5) resolveScaleTarget_min resolveScaleTarget_le[OF assms(1-3)]])
  moreover have "instant oor (Some f) current inFlight p = clampBetween ?v 0 (max_up oor current p)"
    using float_of_u64_exact[OF assms(5)] by (simp add: instant_def)
  ultimately show ?thesis
    using clampBetween_up[of ?v "max_up oor current p"] by (auto simp: word_le_nat_alt intro: scaled_le)
qed

lemma clampBetween_nonzero: "v \<noteq> 0 \<Longrightarrow> clampBetween v 0 hi \<noteq> 0"
  by (auto simp: clampBetween_def Let_def)

lemma dirigent_nonzero:
  assumes "0 < inFlight" "unat inFlight < 2 ^ 53"
  shows "fst (dirigentDesired oor f current inFlight now p) \<noteq> 0"
proof -
  have "0 < unat inFlight"
    using assms(1) by (simp add: word_less_nat_alt)
  then have "instant oor f current inFlight p \<noteq> 0"
    unfolding instant_def float_of_u64_exact[OF assms(2)]
    by (intro clampBetween_nonzero ceilDivFloat_pos assms(2) resolveScaleTarget_min)
  then show ?thesis
    using dirigent_instant[of oor f current inFlight p now] by (metis word_coorder.extremum_uniqueI)
qed

lemma clampDesired_nonzero: "d \<noteq> 0 \<Longrightarrow> clampDesired f d \<noteq> 0"
  using clampDesired_cases[of d f] by (metis less_irrefl word_coorder.extremum_uniqueI)

subsection \<open>Runs of the policy\<close>

type_synonym policy_call = "FunctionSpec option \<times> Signals \<times> int"

definition policy_run :: "(float64 \<Rightarrow> u64) \<Rightarrow> policy_call list \<Rightarrow> DefaultPolicy \<Rightarrow> DefaultPolicy" where
  "policy_run oor calls p = foldl (\<lambda>q (f, signals, now). snd (DesiredScale oor f signals now q)) p calls"

definition ring_ok :: "nat \<Rightarrow> dirigentState \<Rightarrow> bool" where
  "ring_ok k s \<longleftrightarrow> length (buckets s) \<le> k \<and> (buckets s \<noteq> [] \<longrightarrow> windowHead s < length (buckets s))"

lemma ring_ok_record: "ring_ok (periods w) s \<Longrightarrow> ring_ok (periods w) (record_sample v now w s)"
  using periods_pos[of w] by (auto simp: ring_ok_def record_sample_def Let_def intro: less_le_trans)

lemma ring_ok_panic [simp]: "ring_ok k (panic_step th w now d r s) = ring_ok k s"
  by (auto simp: panic_step_def ring_ok_def Let_def)

definition rings_ok :: "DefaultPolicy \<Rightarrow> bool" where
  "rings_ok p \<longleftrightarrow> (\<forall>fid s. map_of (states p) fid = Some s \<longrightarrow> ring_ok (periods (stableWindow p)) s)"

lemma dirigent_states:
  "\<exists>th w d r. snd (dirigentDesired oor f current inFlight now p) =
     p\<lparr>states := AList.update (case f of None \<Rightarrow> 0 | Some f \<Rightarrow> fn_function_id f)
       (panic_step th w now d r (record_sample (float_of_u64 inFlight) now (stableWindow p)
         (case map_of (states p) (case f of None \<Rightarrow> 0 | Some f \<Rightarrow> fn_function_id f) of None \<Rightarrow> newState | Some st \<Rightarrow> st)))
       (states p)\<rparr>"
  unfolding dirigentDesired_def Let_def snd_conv by blast

lemma stableWindow_states [simp]: "stableWindow (p\<lparr>states := m\<rparr>) = stableWindow p"
  by (simp add: stableWindow_def)

lemma rings_ok_dirigent:
  assumes "rings_ok p"
  shows "rings_ok (snd (dirigentDesired oor f current inFlight now p))"
proof -
  let ?fid = "case f of None \<Rightarrow> 0 | Some f \<Rightarrow> fn_function_id f"
  let ?st = "case map_of (states p) ?fid of None \<Rightarrow> newState | Some st \<Rightarrow> st"
  let ?rec = "record_sample (float_of_u64 inFlight) now (stableWindow p) ?st"
  have "ring_ok (periods (stableWindow p)) ?st"
    using assms by (auto simp: rings_ok_def ring_ok_def newState_def split: option.splits)
  then have "ring_ok (periods (stableWindow p)) ?rec"
    by (rule ring_ok_record)
  moreover obtain th w d r where "snd (dirigentDesired oor f current inFlight now p) =
      p\<lparr>states := AList.update ?fid (panic_step th w now d r ?rec) (states p)\<rparr>"
    using dirigent_states[of oor f current inFlight now p] by blast
  ultimately show ?thesis
    using assms by (auto simp: rings_ok_def update_conv')
qed

lemma scale_choice_policy:
  "snd (scale_choice oor f signals now p) = p \<or>
   (\<exists>c i. snd (scale_choice oor f signals now p) = snd (dirigentDesired oor f c i now p))"
  by (auto simp: scale_choice_def Let_def split_beta)

lemma rings_ok_step: "rings_ok p \<Longrightarrow> rings_ok (snd (DesiredScale oor f signals now p))"
  using scale_choice_policy[of oor f signals now p] rings_ok_dirigent[of p oor f]
  by (auto simp: DesiredScale_def split_beta)

subsection \<open>Properties\<close>

text \<open>
  Property C36.  The ring of samples implements the moving average: after any sequence of samples, the average over a
  window is the mean, in the order of \<^verbatim>\<open>float64\<close> additions of the code, of the latest samples that fit the window,
  where a period counts with its last sample.
\<close>

theorem window_refines:
  "average window (foldl (\<lambda>s (v, now). record_sample v now kept s) newState xs) =
   moving_average window kept (fst (foldl (\<lambda>h (v, now). note_sample v now h) ([], None) xs))"
  by (rule average_moving[OF ring_rep_run[OF ring_rep_init]])

text \<open>
  Property C37.  In every state that calls of the policy reach, every ring has at most as many buckets as periods fit
  the stable window and its head is the index of a bucket: the accesses of \<^verbatim>\<open>record\<close> and \<^verbatim>\<open>average\<close> are in range.
\<close>

theorem ring_indices_valid:
  assumes "states p = []" "map_of (states (policy_run oor calls p)) fid = Some s"
  shows "length (buckets s) \<le> periods (stableWindow (policy_run oor calls p)) \<and>
    (buckets s = [] \<or> windowHead s < length (buckets s))"
proof -
  have "rings_ok (policy_run oor calls q)" if "rings_ok q" for q
    using that by (induction calls arbitrary: q) (auto simp: policy_run_def rings_ok_step split: prod.splits)
  moreover have "rings_ok p"
    using assms(1) by (simp add: rings_ok_def)
  ultimately show ?thesis
    using assms(2) by (auto simp: rings_ok_def ring_ok_def)
qed

definition sample_policy :: DefaultPolicy where
  "sample_policy =
     \<lparr>ScaleToZeroAfter = 60 * second, UnlimitedConcurrencyTarget = 0, TargetUtilization = 0, ColdStartPanicScaling = False,
      DirigentAdmission = False, StableWindow = 0, PanicWindow = 0, PanicThresholdRatio = 0, MaxScaleUpRate = 0,
      MaxScaleDownRate = 0, states = []\<rparr>"

definition sample_scale :: ScalePolicySpec where
  "sample_scale =
     \<lparr>min_instances = 0, max_instances = 0, target_concurrency = 0, max_concurrency = 3, scale_to_zero_idle_timeout = None,
      cold_start_timeout = None, request_timeout = None, max_concurrent_cold_starts = 0, max_queue_depth = 0, queue_timeout = None\<rparr>"

definition sample_function :: FunctionSpec where
  "sample_function = \<lparr>fn_user_id = 1, fn_function_id = 7, fn_runtime = None, fn_scale = Some sample_scale\<rparr>"

definition sample_signals :: "u64 \<Rightarrow> int option \<Rightarrow> Signals" where
  "sample_signals demand last_t =
     \<lparr>ReadyInstances = 1, PendingStarts = 0, PendingStops = 0, LogicalScale = 0, HasLogicalScale = False,
      AvailableConcurrency = 0, InFlight = demand, HighWater = 0, Executing = demand, QueueDepth = 0, OldestQueueAge = 0,
      LastActivity = last_t\<rparr>"

theorem ring_indices_valid_witness:
  "\<exists>s. map_of (states (policy_run (\<lambda>_. 0) [(Some sample_function, sample_signals 8 (Some 0), 0)] sample_policy)) 7 = Some s \<and>
     windowHead s < length (buckets s)"
proof -
  let ?p = "policy_run (\<lambda>_. 0) [(Some sample_function, sample_signals 8 (Some 0), 0)] sample_policy"
  have s: "map_option (\<lambda>s. length (buckets s)) (map_of (states ?p) 7) = Some 1"
    by code_simp
  then obtain s where "map_of (states ?p) 7 = Some s" "length (buckets s) = 1"
    by auto
  then have "map_of (states ?p) 7 = Some s" "buckets s \<noteq> []"
    by auto
  moreover have "states sample_policy = []"
    by (simp add: sample_policy_def)
  ultimately show ?thesis
    using ring_indices_valid[of sample_policy "\<lambda>_. 0" "[(Some sample_function, sample_signals 8 (Some 0), 0)]" 7 s] by blast
qed

text \<open>
  Property C34.  The desired scale serves the demand at once.  For a function whose instances take \<open>c\<close> requests each,
  \<open>0 < c < 2 ^ 53\<close>, and a positive demand below \<open>2 ^ 53\<close> requests in flight or seen since the last decision, the
  instances have room for the whole demand, whatever set point, headroom, windows and growth rate are
  configured, with three exceptions: the limit of instances of the function is reached, the limit of
  the growth of one decision is reached, or the leaf admits optimistically and has no instance yet,
  when one instance or the minimum of the function is asked for.  Rounding does not lose a request.
  The growth limit is 1000 times the current scale, and at least 1000, when no rate is configured.
\<close>

theorem demand_covered:
  assumes f: "fn_scale f = Some sc" "0 < max_concurrency sc" "unat (max_concurrency sc) < 2 ^ 53"
    and d: "0 < observed_demand signals" "unat (observed_demand signals) < 2 ^ 53"
    and n: "n = dc_desired_instances (fst (DesiredScale oor (Some f) signals now p))"
    and up: "up = max_up oor (current_scale signals p) p"
  shows "(unat (observed_demand signals) \<le> unat n * unat (max_concurrency sc) \<or>
      (0 < max_instances sc \<and> n = max_instances sc) \<or> (0 < up \<and> up \<le> n) \<or>
      (DirigentAdmission p \<and> current_scale signals p = 0 \<and> n = max 1 (min_instances sc))) \<and>
    (MaxScaleUpRate p \<le> 0 \<and> unat (current_scale signals p) < 2 ^ 43 \<longrightarrow>
      unat up = 1000 * max 1 (unat (current_scale signals p)))"
proof -
  let ?d = "observed_demand signals" and ?c = "current_scale signals p" and ?k = "max_concurrency sc"
  define w where "w = fst (fst (scale_choice oor (Some f) signals now p))"
  have w: "n = clampDesired (Some f) w"
    by (simp add: n DesiredScale_def w_def split_beta)
  have grown: "unat w \<le> unat n \<or> (0 < max_instances sc \<and> n = max_instances sc)"
    using clampDesired_cases[of w "Some f"] f(1) by (auto simp: w word_le_nat_alt)
  consider (zero) "DirigentAdmission p" "?c = 0"
    | (panic) "\<not> DirigentAdmission p" "ColdStartPanicScaling p" "sint ?k = 1"
    | (window) "\<not> (DirigentAdmission p \<and> ?c = 0)" "\<not> (\<not> DirigentAdmission p \<and> ColdStartPanicScaling p \<and> sint ?k = 1)"
    by blast
  then have "unat ?d \<le> unat n * unat ?k \<or> (0 < max_instances sc \<and> n = max_instances sc) \<or> (0 < up \<and> up \<le> n) \<or>
      (DirigentAdmission p \<and> ?c = 0 \<and> n = max 1 (min_instances sc))"
  proof cases
    case zero
    then have "w = 1"
      using d(1) by (simp add: w_def scale_choice_def Let_def)
    then have "n = max 1 (min_instances sc) \<or> (0 < max_instances sc \<and> n = max_instances sc)"
      using f(1) by (auto simp: w clampDesired_def Let_def max_def)
    then show ?thesis
      using zero by blast
  next
    case panic
    then have "w = (if ?d < ?c then ?c else ?d)"
      using d(1) f(1) by (simp add: w_def scale_choice_def Let_def)
    then have "unat ?d \<le> unat w"
      by (auto simp: word_less_nat_alt)
    moreover have "0 < unat ?k"
      using f(2) by (simp add: word_less_nat_alt)
    ultimately have "unat ?d \<le> unat w * unat ?k"
      by (metis le_trans mult.right_neutral mult_le_mono2 Suc_leI One_nat_def)
    then show ?thesis
      using grown scaled_le[of w n] by blast
  next
    case window
    then have "w = fst (dirigentDesired oor (Some f) ?c ?d now p)"
      using d(1) f(1) by (auto simp: w_def scale_choice_def Let_def split_beta)
    then have le: "instant oor (Some f) ?c ?d p \<le> w"
      using dirigent_instant by simp
    then have "unat ?d \<le> unat w * unat ?k \<or> (0 < up \<and> up \<le> w)"
      using instant_covers[OF f d, of oor ?c p] scaled_le[of "instant oor (Some f) ?c ?d p" w] by (auto simp: up word_le_nat_alt)
    then show ?thesis
      using grown scaled_le[of w n] by (auto simp: word_le_nat_alt)
  qed
  then show ?thesis
    using max_up_exact[of p ?c oor] by (simp add: up)
qed

definition soft_function :: FunctionSpec where
  "soft_function = sample_function\<lparr>fn_scale := Some (sample_scale\<lparr>target_concurrency := 2\<rparr>)\<rparr>"

text \<open>Eight requests on instances of three, which the autoscaler fills with two: four instances.\<close>

theorem demand_covered_witness:
  "let n = dc_desired_instances (fst (DesiredScale (\<lambda>_. 0) (Some soft_function) (sample_signals 8 None) 0 sample_policy))
   in n = 4 \<and> 8 \<le> unat n * 3 \<and> unat (max_up (\<lambda>_. 0) 1 sample_policy) = 1000"
proof -
  let ?up = "max_up (\<lambda>_. 0) 1 sample_policy"
  have n: "4 = dc_desired_instances (fst (DesiredScale (\<lambda>_. 0) (Some soft_function) (sample_signals 8 None) 0 sample_policy))"
    by code_simp
  have v: "observed_demand (sample_signals 8 None) = 8" "current_scale (sample_signals 8 None) sample_policy = 1"
    by code_simp+
  have up: "?up = max_up (\<lambda>_. 0) (current_scale (sample_signals 8 None) sample_policy) sample_policy"
    by (simp only: v)
  have "unat ?up = 1000 \<and> (8 \<le> unat (4 :: u64) * 3 \<or> 0 < ?up \<and> ?up \<le> 4)"
    using demand_covered[OF _ _ _ _ _ n up, of "sample_scale\<lparr>target_concurrency := 2\<rparr>"] v
    by (simp add: soft_function_def sample_function_def sample_scale_def sample_policy_def)
  then show ?thesis
    by (auto simp: Let_def n[symmetric] word_le_nat_alt)
qed

text \<open>
  Property C35.  A running function is scaled to zero only when it is idle: if instances are ready and the decision is
  zero then no request is in flight or was seen since the last decision, and the last activity is at least the
  idle timeout of the function ago.
\<close>

theorem scale_to_zero_only_idle:
  assumes "current_scale signals p \<noteq> 0" "unat (observed_demand signals) < 2 ^ 53"
    and zero: "dc_desired_instances (fst (DesiredScale oor f signals now p)) = 0"
  shows "observed_demand signals = 0 \<and> dc_reason (fst (DesiredScale oor f signals now p)) = ''scale-to-zero'' \<and>
    (\<exists>t. LastActivity signals = Some t \<and> now - t \<ge> idle_timeout f p)"
proof -
  let ?d = "observed_demand signals" and ?c = "current_scale signals p"
  have z: "fst (fst (scale_choice oor f signals now p)) = 0"
    using zero clampDesired_nonzero by (fastforce simp: DesiredScale_def split_beta)
  have "?d = 0"
  proof (rule ccontr)
    assume "?d \<noteq> 0"
    then have d: "0 < ?d"
      by (simp add: word_gt_0)
    then show False
      using z dirigent_nonzero[OF d assms(2), of oor f ?c now p] assms(1)
      by (auto simp: scale_choice_def Let_def split_beta word_gt_0 split: if_splits option.splits)
  qed
  then have "\<exists>t. LastActivity signals = Some t \<and> now - t \<ge> idle_timeout f p"
    using z assms(1) by (auto simp: scale_choice_def Let_def split_beta split: if_splits option.splits)
  then show ?thesis
    using \<open>?d = 0\<close> assms(1) by (auto simp: DesiredScale_def scale_choice_def Let_def)
qed

theorem scale_to_zero_only_idle_witness:
  "dc_desired_instances (fst (DesiredScale (\<lambda>_. 0) (Some sample_function) (sample_signals 0 (Some 0)) (60 * second) sample_policy)) = 0 \<and>
   dc_reason (fst (DesiredScale (\<lambda>_. 0) (Some sample_function) (sample_signals 0 (Some 0)) (60 * second) sample_policy)) = ''scale-to-zero''"
proof -
  have "current_scale (sample_signals 0 (Some 0)) sample_policy \<noteq> 0" "observed_demand (sample_signals 0 (Some 0)) = 0"
    "dc_desired_instances (fst (DesiredScale (\<lambda>_. 0) (Some sample_function) (sample_signals 0 (Some 0)) (60 * second) sample_policy)) = 0"
    by code_simp+
  then show ?thesis
    using scale_to_zero_only_idle[of "sample_signals 0 (Some 0)" sample_policy "\<lambda>_. 0" "Some sample_function" "60 * second"] by simp
qed

end
