(* ===== verification/Routing_Model.thy ===== *)
theory Routing_Model
  imports Chbl Core_State Float64
begin

text \<open>
  The routing policies of the ingress, \<^verbatim>\<open>pkg/ingress/routing\<close>: topology, health of the leaves, and for each
  policy its model (what frames of the leaves update) and its picker (what requests read).  The policy by
  available capacity is in the next theory.

  A Go struct that embeds another is a record that extends it.  A picker keeps the slots of its model
  by reference; the operation \<^verbatim>\<open>Pick\<close> therefore takes the values of these slots as an argument.  The counters that
  a picker owns are fields of the picker; settings that a picker copies from its model and that never change are
  read from the model.  The reads of one request are taken at one moment.
\<close>

unbundle bit_operations_syntax

subsection \<open>Requests, targets and frames\<close>

record RouteRequest =
  UserID :: u64
  FunctionID :: u64

datatype RouteReason =
    NoReason | ReasonRandom | ReasonRoundRobin | ReasonConsistentHashingHome
  | ReasonBoundedLoadsHome | ReasonBoundedLoadsForwarded | ReasonBoundedLoadsLeastLoaded
  | ReasonRJCHHome | ReasonRJCHJump | ReasonRJCHLeastLoaded
  | ReasonCHRLUHome | ReasonCHRLUForwarded | ReasonCHRLULeastLoaded
  | ReasonLeastLoadedLeaf | ReasonAvailableCapacity | ReasonColdCacheFallback

record LeafAddress =
  la_HTTPAddress :: string
  la_ControlAddress :: string

record LeafTarget =
  LeafID :: u64
  HTTPAddress :: string
  target_reason :: RouteReason

definition noTarget :: LeafTarget where
  "noTarget = \<lparr>LeafID = 0, HTTPAddress = '''', target_reason = NoReason\<rparr>"

text \<open>The errors of a request; \<open>IndexPanic\<close> stands for an index out of range.\<close>

datatype route_error = ErrRoutingUnavailable | NoHealthyLeaves | IndexPanic

text \<open>The frame of a leaf as the policies see it.\<close>

record LeafState =
  ls_ConfigVersion :: u64
  ls_LeafID :: u64
  ls_Revision :: u64
  ls_FullSnapshot :: bool
  ls_HealthyWorkers :: u32
  ls_LeafLoad :: float64
  ls_HasLeafLoad :: bool
  ls_AggregateInFlight :: u64
  ls_HasAggregateInFlight :: bool
  ls_Capacities :: "FunctionCapacity list"

definition leafOnly :: "u64 \<Rightarrow> LeafState" where
  "leafOnly i =
     \<lparr>ls_ConfigVersion = 0, ls_LeafID = i, ls_Revision = 0, ls_FullSnapshot = False, ls_HealthyWorkers = 0,
      ls_LeafLoad = 0, ls_HasLeafLoad = False, ls_AggregateInFlight = 0, ls_HasAggregateInFlight = False, ls_Capacities = []\<rparr>"

datatype UpdateResult = NoChange | ChangedInPlace | PublishPicker

definition hashFunctionID :: "u64 \<Rightarrow> u64" where
  "hashFunctionID functionID =
     (let x1 = functionID XOR drop_bit 33 functionID;
          x2 = x1 * 0xff51afd7ed558ccd;
          x3 = x2 XOR drop_bit 33 x2;
          x4 = x3 * 0xc4ceb9fe1a85ec53
      in x4 XOR drop_bit 33 x4)"

subsection \<open>Topology and health\<close>

record Topology =
  tp_leaves :: "LeafTarget list"
  tp_index :: "(u64, nat) gomap"
  tp_control :: "(u64, string) gomap"

definition add_leaf :: "(u64, LeafAddress) gomap \<Rightarrow> Topology \<Rightarrow> u64 \<Rightarrow> Topology" where
  "add_leaf addrs t i =
     (case map_of addrs i of
        None \<Rightarrow> t
      | Some a \<Rightarrow>
          \<lparr>tp_leaves = tp_leaves t @ [\<lparr>LeafID = i, HTTPAddress = la_HTTPAddress a, target_reason = NoReason\<rparr>],
           tp_index = AList.update i (length (tp_leaves t)) (tp_index t),
           tp_control = AList.update i (la_ControlAddress a) (tp_control t)\<rparr>)"

definition NewTopology :: "(u64, LeafAddress) gomap \<Rightarrow> Topology" where
  "NewTopology addrs =
     foldl (add_leaf addrs) \<lparr>tp_leaves = [], tp_index = [], tp_control = []\<rparr> (sort (map fst addrs))"

definition Topology_IDs :: "Topology \<Rightarrow> u64 list" where
  "Topology_IDs t = map LeafID (tp_leaves t)"

definition ControlAddress :: "Topology \<Rightarrow> u64 \<Rightarrow> string" where
  "ControlAddress t leafID = (case map_of (tp_control t) leafID of None \<Rightarrow> '''' | Some a \<Rightarrow> a)"

text \<open>A read of the index at a missing key gives \<open>0\<close>.\<close>

definition leaf_slot :: "Topology \<Rightarrow> u64 \<Rightarrow> nat" where
  "leaf_slot t i = (case map_of (tp_index t) i of None \<Rightarrow> 0 | Some k \<Rightarrow> k)"

record membership =
  mb_topology :: Topology
  mb_healthy :: "(u64, bool) gomap"

definition newMembership :: "Topology \<Rightarrow> membership" where
  "newMembership t = \<lparr>mb_topology = t, mb_healthy = []\<rparr>"

definition leaf_healthy :: "'a membership_scheme \<Rightarrow> u64 \<Rightarrow> bool" where
  "leaf_healthy m i \<longleftrightarrow> map_of (mb_healthy m) i = Some True"

definition setHealthy :: "u64 \<Rightarrow> bool \<Rightarrow> 'a membership_scheme \<Rightarrow> bool \<times> 'a membership_scheme" where
  "setHealthy leafID h m = (leaf_healthy m leafID \<noteq> h, m\<lparr>mb_healthy := AList.update leafID h (mb_healthy m)\<rparr>)"

definition healthyLeaves :: "'a membership_scheme \<Rightarrow> LeafTarget list" where
  "healthyLeaves m = filter (\<lambda>l. leaf_healthy m (LeafID l)) (tp_leaves (mb_topology m))"

subsection \<open>Random\<close>

record randomModel = membership +
  rm_seed :: u64

definition NewModel_random :: "u64 \<Rightarrow> Topology \<Rightarrow> randomModel" where
  "NewModel_random seed t = membership.extend (newMembership t) \<lparr>rm_seed = seed\<rparr>"

definition ReplaceLeaf_random :: "LeafState \<Rightarrow> randomModel \<Rightarrow> UpdateResult \<times> randomModel" where
  "ReplaceLeaf_random s m =
     (case setHealthy (ls_LeafID s) (ls_HealthyWorkers s > 0) m of
        (changed, m1) \<Rightarrow> (if changed then PublishPicker else NoChange, m1))"

definition LeafDisconnected_random :: "u64 \<Rightarrow> randomModel \<Rightarrow> UpdateResult \<times> randomModel" where
  "LeafDisconnected_random i = ReplaceLeaf_random (leafOnly i)"

record randomPicker =
  rp_leaves :: "LeafTarget list"
  rp_seed :: u64
  rp_counter :: u64

definition Picker_random :: "randomModel \<Rightarrow> randomPicker" where
  "Picker_random m = \<lparr>rp_leaves = healthyLeaves m, rp_seed = rm_seed m, rp_counter = 0\<rparr>"

definition Pick_random :: "randomPicker \<Rightarrow> (route_error + LeafTarget) \<times> randomPicker" where
  "Pick_random p =
     (let n = length (rp_leaves p) in
      if n = 0 then (Inl NoHealthyLeaves, p)
      else let c = rp_counter p + 1;
               idx = unat (hashFunctionID (c XOR rp_seed p) mod of_nat n)
           in (Inr ((rp_leaves p ! idx)\<lparr>target_reason := ReasonRandom\<rparr>), p\<lparr>rp_counter := c\<rparr>))"

subsection \<open>Round robin\<close>

definition ReplaceLeaf_roundRobin :: "LeafState \<Rightarrow> membership \<Rightarrow> UpdateResult \<times> membership" where
  "ReplaceLeaf_roundRobin s m =
     (case setHealthy (ls_LeafID s) (ls_HealthyWorkers s > 0) m of
        (changed, m1) \<Rightarrow> (if changed then PublishPicker else NoChange, m1))"

definition LeafDisconnected_roundRobin :: "u64 \<Rightarrow> membership \<Rightarrow> UpdateResult \<times> membership" where
  "LeafDisconnected_roundRobin i = ReplaceLeaf_roundRobin (leafOnly i)"

record roundRobinPicker =
  rr_leaves :: "LeafTarget list"
  rr_counter :: u64

definition Picker_roundRobin :: "membership \<Rightarrow> roundRobinPicker" where
  "Picker_roundRobin m = \<lparr>rr_leaves = healthyLeaves m, rr_counter = 0\<rparr>"

text \<open>The remainder of Go keeps the sign of the dividend.\<close>

definition go_rem :: "int \<Rightarrow> int \<Rightarrow> int" where
  "go_rem a b = (if a < 0 then - ((- a) mod b) else a mod b)"

definition Pick_roundRobin :: "roundRobinPicker \<Rightarrow> (route_error + LeafTarget) \<times> roundRobinPicker" where
  "Pick_roundRobin p =
     (let n = length (rr_leaves p) in
      if n = 0 then (Inl NoHealthyLeaves, p)
      else let c = rr_counter p + 1; idx = go_rem (sint (c - 1)) (int n); q = p\<lparr>rr_counter := c\<rparr>
           in if idx < 0 then (Inl IndexPanic, q)
              else (Inr ((rr_leaves p ! nat idx)\<lparr>target_reason := ReasonRoundRobin\<rparr>), q))"

subsection \<open>Least loaded\<close>

record leastLoadedModel = membership +
  lm_inFlight :: "u64 list"

definition NewModel_leastLoaded :: "Topology \<Rightarrow> leastLoadedModel" where
  "NewModel_leastLoaded t = membership.extend (newMembership t) \<lparr>lm_inFlight = replicate (length (tp_leaves t)) 0\<rparr>"

text \<open>The last lines of the updates of policies with values: a change of health asks for a new picker.\<close>

definition update_result :: "bool \<Rightarrow> bool \<Rightarrow> UpdateResult" where
  "update_result healthChanged valueChanged =
     (if healthChanged then PublishPicker else if valueChanged then ChangedInPlace else NoChange)"

definition ReplaceLeaf_leastLoaded :: "LeafState \<Rightarrow> leastLoadedModel \<Rightarrow> UpdateResult \<times> leastLoadedModel" where
  "ReplaceLeaf_leastLoaded s m =
     (case setHealthy (ls_LeafID s) (ls_HealthyWorkers s > 0) m of
        (healthChanged, m1) \<Rightarrow>
          (case (if ls_FullSnapshot s \<or> ls_HasAggregateInFlight s then map_of (tp_index (mb_topology m1)) (ls_LeafID s) else None) of
             None \<Rightarrow> (update_result healthChanged False, m1)
           | Some i \<Rightarrow>
               if lm_inFlight m1 ! i \<noteq> ls_AggregateInFlight s
               then (update_result healthChanged True, m1\<lparr>lm_inFlight := (lm_inFlight m1)[i := ls_AggregateInFlight s]\<rparr>)
               else (update_result healthChanged False, m1)))"

definition LeafDisconnected_leastLoaded :: "u64 \<Rightarrow> leastLoadedModel \<Rightarrow> UpdateResult \<times> leastLoadedModel" where
  "LeafDisconnected_leastLoaded i m =
     (case setHealthy i False m of (changed, m1) \<Rightarrow> (if changed then PublishPicker else NoChange, m1))"

record leastLoadedPicker =
  lp_leaves :: "LeafTarget list"
  lp_slots :: "nat list"

definition Picker_leastLoaded :: "leastLoadedModel \<Rightarrow> leastLoadedPicker" where
  "Picker_leastLoaded m =
     (let leaves = healthyLeaves m
      in \<lparr>lp_leaves = leaves, lp_slots = map (\<lambda>l. leaf_slot (mb_topology m) (LeafID l)) leaves\<rparr>)"

definition least_scan :: "u64 list \<Rightarrow> nat list \<Rightarrow> nat \<Rightarrow> nat \<Rightarrow> nat" where
  "least_scan inFlight slots best i = (if inFlight ! (slots ! i) < inFlight ! (slots ! best) then i else best)"

definition Pick_leastLoaded :: "u64 list \<Rightarrow> leastLoadedPicker \<Rightarrow> route_error + LeafTarget" where
  "Pick_leastLoaded inFlight p =
     (if lp_leaves p = [] then Inl NoHealthyLeaves
      else let best = foldl (least_scan inFlight (lp_slots p)) 0 [1..<length (lp_leaves p)]
           in Inr ((lp_leaves p ! best)\<lparr>target_reason := ReasonLeastLoadedLeaf\<rparr>))"

subsection \<open>Consistent hashing\<close>

record consistentModel = membership +
  cm_template :: Ring
  cm_ring :: "Ring option"
  cm_dirty :: bool

definition NewModel_consistent :: "Topology \<Rightarrow> consistentModel" where
  "NewModel_consistent t =
     membership.extend (newMembership t) \<lparr>cm_template = NewRing (Topology_IDs t), cm_ring = None, cm_dirty = False\<rparr>"

definition ReplaceLeaf_consistent :: "LeafState \<Rightarrow> consistentModel \<Rightarrow> UpdateResult \<times> consistentModel" where
  "ReplaceLeaf_consistent s m =
     (case setHealthy (ls_LeafID s) (ls_HealthyWorkers s > 0) m of
        (changed, m1) \<Rightarrow> if changed then (PublishPicker, m1\<lparr>cm_dirty := True\<rparr>) else (NoChange, m1))"

definition LeafDisconnected_consistent :: "u64 \<Rightarrow> consistentModel \<Rightarrow> UpdateResult \<times> consistentModel" where
  "LeafDisconnected_consistent i = ReplaceLeaf_consistent (leafOnly i)"

definition by_id :: "LeafTarget list \<Rightarrow> (u64, LeafTarget) gomap" where
  "by_id leaves = foldl (\<lambda>b l. AList.update (LeafID l) l b) [] leaves"

record consistentPicker =
  cp_ring :: "Ring option"
  cp_byID :: "(u64, LeafTarget) gomap"
  cp_order :: "u64 list"

definition Picker_consistent :: "consistentModel \<Rightarrow> consistentPicker \<times> consistentModel" where
  "Picker_consistent m =
     (let leaves = healthyLeaves m;
          m1 = (if cm_ring m = None \<or> cm_dirty m
                then m\<lparr>cm_ring := Some (Subset (cm_template m) (leaf_healthy m)), cm_dirty := False\<rparr> else m)
      in (\<lparr>cp_ring = cm_ring m1, cp_byID = by_id leaves, cp_order = map LeafID leaves\<rparr>, m1))"

definition Pick_consistent :: "RouteRequest \<Rightarrow> consistentPicker \<Rightarrow> route_error + LeafTarget" where
  "Pick_consistent req p =
     (case cp_ring p of
        None \<Rightarrow> Inl NoHealthyLeaves
      | Some ring \<Rightarrow>
          if cp_byID p = [] then Inl NoHealthyLeaves
          else case map_of (cp_byID p) (Home ring (FunctionID req)) of
                 Some target \<Rightarrow> Inr (target\<lparr>target_reason := ReasonConsistentHashingHome\<rparr>)
               | None \<Rightarrow>
                   (case cp_order p of
                      [] \<Rightarrow> Inl NoHealthyLeaves
                    | i # _ \<Rightarrow> Inr ((case map_of (cp_byID p) i of None \<Rightarrow> noTarget | Some t \<Rightarrow> t)
                                    \<lparr>target_reason := ReasonConsistentHashingHome\<rparr>)))"

subsection \<open>Bounded loads\<close>

record boundedLoadsModel = membership +
  bm_loads :: "float64 list"
  bm_template :: Ring
  bm_ring :: "Ring option"
  bm_dirty :: bool
  bm_bound :: float64
  bm_maxChainLen :: int

definition NewModel_boundedLoads :: "float64 \<Rightarrow> int \<Rightarrow> Topology \<Rightarrow> boundedLoadsModel" where
  "NewModel_boundedLoads b maxChainLen t =
     membership.extend (newMembership t)
       \<lparr>bm_loads = replicate (length (tp_leaves t)) 0, bm_template = NewRing (Topology_IDs t), bm_ring = None,
        bm_dirty = False, bm_bound = NormalizeBound b, bm_maxChainLen = NormalizeMaxChainLen maxChainLen\<rparr>"

definition ReplaceLeaf_boundedLoads ::
  "LeafState \<Rightarrow> 'a boundedLoadsModel_scheme \<Rightarrow> UpdateResult \<times> 'a boundedLoadsModel_scheme" where
  "ReplaceLeaf_boundedLoads s m =
     (case setHealthy (ls_LeafID s) (ls_HealthyWorkers s > 0) m of
        (healthChanged, m0) \<Rightarrow>
          let m1 = (if healthChanged then m0\<lparr>bm_dirty := True\<rparr> else m0) in
          case (if ls_FullSnapshot s \<or> ls_HasLeafLoad s then map_of (tp_index (mb_topology m1)) (ls_LeafID s) else None) of
            None \<Rightarrow> (update_result healthChanged False, m1)
          | Some i \<Rightarrow>
              if bm_loads m1 ! i \<noteq> ls_LeafLoad s
              then (update_result healthChanged True, m1\<lparr>bm_loads := (bm_loads m1)[i := ls_LeafLoad s]\<rparr>)
              else (update_result healthChanged False, m1))"

definition LeafDisconnected_boundedLoads ::
  "u64 \<Rightarrow> 'a boundedLoadsModel_scheme \<Rightarrow> UpdateResult \<times> 'a boundedLoadsModel_scheme" where
  "LeafDisconnected_boundedLoads i m =
     (case setHealthy i False m of
        (changed, m1) \<Rightarrow> if changed then (PublishPicker, m1\<lparr>bm_dirty := True\<rparr>) else (NoChange, m1))"

record boundedLoadsPicker =
  bp_ring :: "Ring option"
  bp_ringIDs :: "u64 list"
  bp_ringSlots :: "nat list"
  bp_leaves :: "LeafTarget list"
  bp_byID :: "(u64, LeafTarget) gomap"
  bp_index :: "(u64, nat) gomap"
  bp_bound :: float64
  bp_maxChainLen :: int

definition Picker_boundedLoads ::
  "'a boundedLoadsModel_scheme \<Rightarrow> boundedLoadsPicker \<times> 'a boundedLoadsModel_scheme" where
  "Picker_boundedLoads m =
     (let leaves = healthyLeaves m;
          ring = (case bm_ring m of
                    Some r \<Rightarrow> if bm_dirty m then Subset (bm_template m) (leaf_healthy m) else r
                  | None \<Rightarrow> Subset (bm_template m) (leaf_healthy m));
          m1 = (if bm_ring m = None \<or> bm_dirty m then m\<lparr>bm_ring := Some ring, bm_dirty := False\<rparr> else m)
      in (\<lparr>bp_ring = Some ring, bp_ringIDs = ids ring, bp_ringSlots = map (leaf_slot (mb_topology m)) (ids ring),
           bp_leaves = leaves, bp_byID = by_id leaves, bp_index = tp_index (mb_topology m),
           bp_bound = bm_bound m, bp_maxChainLen = bm_maxChainLen m\<rparr>, m1))"

definition picker_Load :: "float64 list \<Rightarrow> boundedLoadsPicker \<Rightarrow> u64 \<Rightarrow> float64" where
  "picker_Load loads p i = loads ! (case map_of (bp_index p) i of None \<Rightarrow> 0 | Some k \<Rightarrow> k)"

text \<open>The scan keeps the best ID and its load.\<close>

definition id_scan :: "u64 \<times> float64 \<Rightarrow> u64 \<times> float64 \<Rightarrow> u64 \<times> float64" where
  "id_scan acc cand =
     (case acc of (best, bestLoad) \<Rightarrow> case cand of (i, load) \<Rightarrow>
        if load < bestLoad \<or> (load = bestLoad \<and> i < best) then (i, load) else acc)"

definition picker_LeastLoadedID :: "float64 list \<Rightarrow> boundedLoadsPicker \<Rightarrow> u64" where
  "picker_LeastLoadedID loads p =
     (case zip (bp_ringIDs p) (map (\<lambda>k. loads ! k) (bp_ringSlots p)) of
        [] \<Rightarrow> 0
      | c # cs \<Rightarrow> fst (foldl id_scan c cs))"

text \<open>The picker as the reader of loads that \<^verbatim>\<open>chbl.ForwardBy\<close> takes.\<close>

definition picker_reader :: "float64 list \<Rightarrow> boundedLoadsPicker \<Rightarrow> LoadReader" where
  "picker_reader loads p = \<lparr>Load = picker_Load loads p, LeastLoadedID = Some (picker_LeastLoadedID loads p)\<rparr>"

fun boundedLoadsReason :: "Reason \<Rightarrow> RouteReason" where
  "boundedLoadsReason ReasonHome = ReasonBoundedLoadsHome"
| "boundedLoadsReason ReasonForwarded = ReasonBoundedLoadsForwarded"
| "boundedLoadsReason ReasonLeastLoaded = ReasonBoundedLoadsLeastLoaded"

definition Pick_boundedLoads :: "RouteRequest \<Rightarrow> float64 list \<Rightarrow> boundedLoadsPicker \<Rightarrow> route_error + LeafTarget" where
  "Pick_boundedLoads req loads p =
     (case bp_ring p of
        None \<Rightarrow> Inl NoHealthyLeaves
      | Some ring \<Rightarrow>
          if bp_leaves p = [] then Inl NoHealthyLeaves
          else let home = Home ring (FunctionID req) in
               case ForwardBy (Some ring) (picker_reader loads p) (bp_bound p) (bp_maxChainLen p) home of
                 (leafID, reason) \<Rightarrow>
                   Inr ((case map_of (bp_byID p) leafID of Some target \<Rightarrow> target | None \<Rightarrow> hd (bp_leaves p))
                        \<lparr>target_reason := boundedLoadsReason reason\<rparr>))"

definition target_of :: "(u64, LeafTarget) gomap \<Rightarrow> u64 \<Rightarrow> RouteReason \<Rightarrow> LeafTarget" where
  "target_of m i reason = (case map_of m i of None \<Rightarrow> noTarget | Some t \<Rightarrow> t)\<lparr>target_reason := reason\<rparr>"

subsection \<open>Random jumps\<close>

definition jump_candidate :: "boundedLoadsPicker \<Rightarrow> u64 \<Rightarrow> nat \<Rightarrow> u64" where
  "jump_candidate b fid attempt =
     LeafID (bp_leaves b ! unat (hashFunctionID (fid XOR (of_nat attempt * 0x9e3779b97f4a7c15)) mod of_nat (length (bp_leaves b))))"

fun jump_loop :: "nat \<Rightarrow> float64 list \<Rightarrow> boundedLoadsPicker \<Rightarrow> u64 \<Rightarrow> u64 \<Rightarrow> nat \<Rightarrow> u64" where
  "jump_loop 0 loads b fid home attempt = home"
| "jump_loop (Suc left) loads b fid home attempt =
     (let candidate = jump_candidate b fid attempt in
      if picker_Load loads b candidate < bp_bound b then candidate
      else jump_loop left loads b fid home (attempt + 1))"

definition Pick_randomJump :: "RouteRequest \<Rightarrow> float64 list \<Rightarrow> boundedLoadsPicker \<Rightarrow> route_error + LeafTarget" where
  "Pick_randomJump req loads b =
     (case bp_ring b of
        None \<Rightarrow> Inl NoHealthyLeaves
      | Some ring \<Rightarrow>
          if bp_leaves b = [] then Inl NoHealthyLeaves
          else let home = Home ring (FunctionID req) in
               if picker_Load loads b home \<ge> bp_bound b
               then let i = jump_loop (nat (bp_maxChainLen b)) loads b (FunctionID req) home 1 in
                    if i = home then Inr (target_of (bp_byID b) (picker_LeastLoadedID loads b) ReasonRJCHLeastLoaded)
                    else Inr (target_of (bp_byID b) i ReasonRJCHJump)
               else Inr (target_of (bp_byID b) home ReasonRJCHHome))"

subsection \<open>Random load updates\<close>

text \<open>
  \<^verbatim>\<open>chrlu.go\<close>.  The clock, the conversion of a floating point number outside the range of \<^verbatim>\<open>int64\<close>, and
  the Box-Muller value of two uniform numbers, which needs a logarithm, a root and a cosine, are arguments.
  The array of \<open>2 ^ 14\<close> atomic pointers is a map from the slots in use.
\<close>

definition chrluSampleSlots :: nat where "chrluSampleSlots = 2 ^ 14"

record latencyEstimate =
  coldMS :: float64
  warmMS :: float64

record chrluPolicy =
  cr_bound :: float64
  cr_maxBound :: float64
  cr_coldTimeMS :: float64
  cr_warmTimeMS :: float64
  cr_popularIATMS :: float64
  cr_noiseStddev :: float64
  cr_maxChainLen :: int
  cr_samplePercent :: u32
  cr_latencies :: "(u64, latencyEstimate) gomap"
  cr_heartbeatSeconds :: float64

record iatSample =
  is_functionID :: u64
  is_lastUnixNano :: u64
  is_averageIAT :: int

record chrluModel = boundedLoadsModel +
  um_samples :: "(nat, iatSample) gomap"
  um_counter :: u64
  um_samplePercent :: u32
  um_popularIAT :: int
  um_noiseStddev :: float64
  um_maxBound :: float64
  um_defaultLatency :: latencyEstimate
  um_latencies :: "(u64, latencyEstimate) gomap"
  um_heartbeatSeconds :: float64

definition positive_or :: "float64 \<Rightarrow> float64 \<Rightarrow> float64" where
  "positive_or v dflt = (if v \<le> 0 then dflt else v)"

definition int64_of :: "(float64 \<Rightarrow> int) \<Rightarrow> float64 \<Rightarrow> int" where
  "int64_of conv x =
     (let t = (if x < 0 then - \<lfloor>- x\<rfloor> else \<lfloor>x\<rfloor>) in if - (2 ^ 63) \<le> t \<and> t < 2 ^ 63 then t else conv x)"

definition NewModel_chrlu :: "(float64 \<Rightarrow> int) \<Rightarrow> int \<Rightarrow> chrluPolicy \<Rightarrow> Topology \<Rightarrow> chrluModel" where
  "NewModel_chrlu conv now p t =
     boundedLoadsModel.extend (NewModel_boundedLoads (cr_bound p) (cr_maxChainLen p) t)
       \<lparr>um_samples = [], um_counter = of_int now,
        um_samplePercent = (if cr_samplePercent p = 0 \<or> cr_samplePercent p > 100 then 20 else cr_samplePercent p),
        um_popularIAT = int64_of conv (fmul (positive_or (cr_popularIATMS p) 1000) 1000000),
        um_noiseStddev = positive_or (cr_noiseStddev p) (rnd64 (1 / 10)),
        um_maxBound = positive_or (cr_maxBound p) 6,
        um_defaultLatency = \<lparr>coldMS = cr_coldTimeMS p, warmMS = cr_warmTimeMS p\<rparr>,
        um_latencies = cr_latencies p,
        um_heartbeatSeconds = positive_or (cr_heartbeatSeconds p) (1 / 2)\<rparr>"

text \<open>A product or quotient at or beyond \<open>2 ^ 1024\<close> is an infinity.\<close>

definition overflows :: "float64 \<Rightarrow> bool" where
  "overflows x \<longleftrightarrow> \<bar>x\<bar> \<ge> 2 ^ 1024"

definition boundFor :: "u64 \<Rightarrow> boundedLoadsPicker \<Rightarrow> chrluModel \<Rightarrow> float64" where
  "boundFor fid b m =
     (let estimate = (case map_of (um_latencies m) fid of None \<Rightarrow> um_defaultLatency m | Some e \<Rightarrow> e);
          ratio = fdiv (coldMS estimate) (warmMS estimate);
          bnd = (if coldMS estimate > 0 \<and> warmMS estimate > 0
                 then if overflows ratio \<or> overflows (fmul (bp_bound b) ratio) then bp_bound b else fmul (bp_bound b) ratio
                 else bp_bound b)
      in min bnd (um_maxBound m))"

definition popular_sample :: "chrluModel \<Rightarrow> int \<Rightarrow> bool" where
  "popular_sample m average \<longleftrightarrow> average > 0 \<and> average \<le> um_popularIAT m"

definition next_sample :: "u64 \<Rightarrow> u64 \<Rightarrow> iatSample option \<Rightarrow> iatSample" where
  "next_sample fid nowNS old =
     \<lparr>is_functionID = fid, is_lastUnixNano = nowNS,
      is_averageIAT =
        (case old of
           None \<Rightarrow> 0
         | Some o' \<Rightarrow>
             if is_functionID o' \<noteq> fid then 0
             else let iat = sint (nowNS - is_lastUnixNano o') in
                  if is_averageIAT o' > 0
                  then let total = sint (word_of_int (is_averageIAT o' + iat) :: u64)
                       in if total < 0 then - (- total div 2) else total div 2
                  else iat)\<rparr>"

definition observeIAT :: "u64 \<Rightarrow> int \<Rightarrow> chrluModel \<Rightarrow> (int \<times> bool) \<times> chrluModel" where
  "observeIAT fid now m =
     (let h = hashFunctionID fid in
      if h mod 100 \<ge> ucast (um_samplePercent m) then ((0, False), m)
      else let slot = unat (h mod of_nat chrluSampleSlots); nowNS = of_int now; old = map_of (um_samples m) slot in
           case old of
             Some o' \<Rightarrow>
               if is_functionID o' = fid \<and> nowNS \<le> is_lastUnixNano o'
               then ((is_averageIAT o', popular_sample m (is_averageIAT o')), m)
               else let s = next_sample fid nowNS old
                    in ((is_averageIAT s, popular_sample m (is_averageIAT s)), m\<lparr>um_samples := AList.update slot s (um_samples m)\<rparr>)
           | None \<Rightarrow>
               let s = next_sample fid nowNS old
               in ((is_averageIAT s, popular_sample m (is_averageIAT s)), m\<lparr>um_samples := AList.update slot s (um_samples m)\<rparr>))"

definition gaussian :: "(float64 \<Rightarrow> float64 \<Rightarrow> float64) \<Rightarrow> u64 \<Rightarrow> u64 \<Rightarrow> chrluModel \<Rightarrow> float64 \<times> chrluModel" where
  "gaussian box fid leafID m =
     (let c = um_counter m + 1;
          x = (c XOR fid) XOR (leafID * 0x9e3779b97f4a7c15);
          u1 = fdiv (float_of_u64 (drop_bit 11 (hashFunctionID x) + 1)) (2 ^ 53);
          u2 = fdiv (float_of_u64 (drop_bit 11 (hashFunctionID (x XOR 0xbf58476d1ce4e5b9)))) (2 ^ 53)
      in (box u1 u2, m\<lparr>um_counter := c\<rparr>))"

text \<open>\<^verbatim>\<open>time.Duration.Seconds\<close> of a positive duration.\<close>

definition Seconds :: "int \<Rightarrow> float64" where
  "Seconds d = fadd (rnd64 (of_int (d div 1000000000))) (fdiv (rnd64 (of_int (d mod 1000000000))) 1000000000)"

fun noisy_walk ::
  "nat \<Rightarrow> (float64 \<Rightarrow> float64 \<Rightarrow> float64) \<Rightarrow> Ring \<Rightarrow> boundedLoadsPicker \<Rightarrow> u64 \<Rightarrow> float64 \<Rightarrow> float64 \<Rightarrow> nat \<Rightarrow> u64 \<Rightarrow>
     chrluModel \<Rightarrow> (u64 \<times> RouteReason) option \<times> chrluModel" where
  "noisy_walk 0 box ring b fid mean bnd step i m = (None, m)"
| "noisy_walk (Suc left) box ring b fid mean bnd step i m =
     (case gaussian box fid i m of
        (g, m1) \<Rightarrow>
          let load = fadd (fadd (picker_Load (bm_loads m) b i) mean) (fmul g (um_noiseStddev m)) in
          if load < bnd then (Some (i, if step = 0 then ReasonCHRLUHome else ReasonCHRLUForwarded), m1)
          else noisy_walk left box ring b fid mean bnd (step + 1) (Next ring i) m1)"

fun chrluReason :: "Reason \<Rightarrow> RouteReason" where
  "chrluReason ReasonHome = ReasonCHRLUHome"
| "chrluReason ReasonForwarded = ReasonCHRLUForwarded"
| "chrluReason ReasonLeastLoaded = ReasonCHRLULeastLoaded"

definition Pick_chrlu ::
  "(float64 \<Rightarrow> float64 \<Rightarrow> float64) \<Rightarrow> int \<Rightarrow> RouteRequest \<Rightarrow> boundedLoadsPicker \<Rightarrow> chrluModel \<Rightarrow>
     (route_error + LeafTarget) \<times> chrluModel" where
  "Pick_chrlu box now req b m =
     (case bp_ring b of
        None \<Rightarrow> (Inl NoHealthyLeaves, m)
      | Some ring \<Rightarrow>
          if bp_leaves b = [] then (Inl NoHealthyLeaves, m)
          else
            let fid = FunctionID req; home = Home ring fid; bnd = boundFor fid b m in
            case observeIAT fid now m of
              ((iat, popular), m1) \<Rightarrow>
                if \<not> popular then
                  (case ForwardBy (Some ring) (picker_reader (bm_loads m1) b) bnd (bp_maxChainLen b) home of
                     (i, reason) \<Rightarrow> (Inr (target_of (bp_byID b) i (chrluReason reason)), m1))
                else
                  (case noisy_walk (nat (bp_maxChainLen b + 1)) box ring b fid (fdiv (um_heartbeatSeconds m1) (Seconds iat)) bnd 0 home m1 of
                     (Some (i, reason), m2) \<Rightarrow> (Inr (target_of (bp_byID b) i reason), m2)
                   | (None, m2) \<Rightarrow>
                       (Inr (target_of (bp_byID b) (picker_LeastLoadedID (bm_loads m2) b) ReasonCHRLULeastLoaded), m2)))"

subsection \<open>Facts on topology and health\<close>

text \<open>A well-formed topology; a slice of Go has fewer than \<open>2 ^ 63\<close> elements.\<close>

definition topology_ok :: "Topology \<Rightarrow> bool" where
  "topology_ok t \<longleftrightarrow>
     length (tp_leaves t) < 2 ^ 63 \<and> distinct (Topology_IDs t) \<and>
     (\<forall>i k. map_of (tp_index t) i = Some k \<longleftrightarrow> k < length (tp_leaves t) \<and> LeafID (tp_leaves t ! k) = i)"

lemma topology_slot:
  "topology_ok t \<Longrightarrow> map_of (tp_index t) i = Some k \<Longrightarrow> k < length (tp_leaves t) \<and> LeafID (tp_leaves t ! k) = i"
  by (simp add: topology_ok_def)

lemma setHealthy_fields:
  assumes "setHealthy i h m = (c, m1)"
  shows "mb_topology m1 = mb_topology m" "mb_healthy m1 = AList.update i h (mb_healthy m)" "c \<longleftrightarrow> leaf_healthy m i \<noteq> h"
    "leaf_healthy m1 = (leaf_healthy m)(i := h)"
  using assms by (auto simp: setHealthy_def leaf_healthy_def fun_eq_iff go_map_simps)

lemma unat_mod_less: "0 < n \<Longrightarrow> n < 2 ^ 64 \<Longrightarrow> unat ((x :: u64) mod of_nat n) < n"
proof -
  assume "0 < n" "n < 2 ^ 64"
  then have "unat (of_nat n :: u64) = n"
    by (simp add: unsigned_of_nat take_bit_nat_eq_self)
  then show ?thesis
    using \<open>0 < n\<close> by (simp add: unat_mod_distrib)
qed

lemma healthyLeaves_index:
  "t \<in> set (healthyLeaves m) \<longleftrightarrow>
     (\<exists>k < length (tp_leaves (mb_topology m)). t = tp_leaves (mb_topology m) ! k \<and> leaf_healthy m (LeafID t))"
  by (auto simp: healthyLeaves_def in_set_conv_nth)

lemma length_healthyLeaves: "topology_ok (mb_topology m) \<Longrightarrow> length (healthyLeaves m) < 2 ^ 63"
  unfolding healthyLeaves_def topology_ok_def using length_filter_le le_less_trans by blast

lemma hash_pick_in:
  assumes "length ls < 2 ^ 63" "ls \<noteq> []"
  shows "ls ! unat ((x :: u64) mod of_nat (length ls)) \<in> set ls"
  using assms unat_mod_less[of "length ls" x] by simp

lemma leaves_by_id:
  "topology_ok t \<Longrightarrow> x \<in> set (tp_leaves t) \<Longrightarrow> y \<in> set (tp_leaves t) \<Longrightarrow> LeafID x = LeafID y \<Longrightarrow> x = y"
  by (auto simp: topology_ok_def Topology_IDs_def distinct_map inj_on_def)

lemma add_leaf_loop:
  assumes "set xs \<subseteq> fst ` set addrs" "distinct xs"
  shows "Topology_IDs (foldl (add_leaf addrs) \<lparr>tp_leaves = [], tp_index = [], tp_control = []\<rparr> xs) = xs \<and>
    (\<forall>i k. map_of (tp_index (foldl (add_leaf addrs) \<lparr>tp_leaves = [], tp_index = [], tp_control = []\<rparr> xs)) i = Some k \<longleftrightarrow>
       k < length xs \<and> xs ! k = i)"
  using assms
proof (induction xs rule: rev_induct)
  case (snoc x xs)
  define t where "t = foldl (add_leaf addrs) \<lparr>tp_leaves = [], tp_index = [], tp_control = []\<rparr> xs"
  have IH: "Topology_IDs t = xs" "\<And>i k. map_of (tp_index t) i = Some k \<longleftrightarrow> k < length xs \<and> xs ! k = i"
    unfolding t_def using snoc by auto
  obtain a where a: "map_of addrs x = Some a"
    using snoc.prems(1) by (cases "map_of addrs x") (auto simp: map_of_eq_None_iff)
  have len: "length (tp_leaves t) = length xs"
    using IH(1) by (metis Topology_IDs_def length_map)
  have "Topology_IDs (add_leaf addrs t x) = xs @ [x]"
    using IH(1) a by (simp add: add_leaf_def Topology_IDs_def)
  moreover have "map_of (tp_index (add_leaf addrs t x)) i = Some k \<longleftrightarrow> k < length (xs @ [x]) \<and> (xs @ [x]) ! k = i" for i k
    using IH(2)[of i k] a len snoc.prems(2) by (auto simp: add_leaf_def go_map_simps nth_append less_Suc_eq)
  ultimately show ?case
    by (simp add: t_def)
qed (simp add: Topology_IDs_def)

lemma NewTopology_ok:
  assumes "gomap_inv addrs" "length addrs < 2 ^ 63"
  shows "topology_ok (NewTopology addrs)" "Topology_IDs (NewTopology addrs) = sort (map fst addrs)"
proof -
  note L = add_leaf_loop[of "sort (map fst addrs)" addrs]
  have d: "distinct (sort (map fst addrs))"
    using assms(1) by (simp add: gomap_inv_def)
  show ids: "Topology_IDs (NewTopology addrs) = sort (map fst addrs)"
    using L d by (simp add: NewTopology_def)
  have len: "length (tp_leaves (NewTopology addrs)) = length addrs"
    using arg_cong[OF ids, of length] by (simp add: Topology_IDs_def)
  have "LeafID (tp_leaves (NewTopology addrs) ! k) = sort (map fst addrs) ! k" if "k < length addrs" for k
    using arg_cong[OF ids, of "\<lambda>xs. xs ! k"] that len by (simp add: Topology_IDs_def)
  then show "topology_ok (NewTopology addrs)"
    using L d assms(2) len by (auto simp: topology_ok_def ids NewTopology_def)
qed

end
