(* ===== verification/Routing_Capacity.thy ===== *)
theory Routing_Capacity
  imports Routing_Model
begin

text \<open>
  The routing policy by available capacity, \<^verbatim>\<open>pkg/ingress/routing/availablecapacity.go\<close>.  The model keeps one cell
  per function with the sorted routes of the leaves; a cell publishes an immutable copy of its routes and
  the model publishes a table of the cells.  Both tables hold pointers to the same cells, so the cells
  live in a heap and a pointer is an index.

  The first part translates the code.  The second part shows that the model implements a table from leaf
  and function to available concurrency, that a commit publishes exactly that table, and what a request gets.
\<close>

subsection \<open>The model\<close>

record capacityRoute =
  cr_leaf :: nat
  cr_available :: u64

record capacityCell =
  cc_fn :: u64
  cc_parts :: "capacityRoute list"
  cc_pub :: "capacityRoute list option"
  cc_dirty :: bool

text \<open>A set of function IDs is a map to \<^typ>\<open>unit\<close>, as in the source.\<close>

record availableCapacityModel = membership +
  am_byLeaf :: "(u64, (u64, unit) gomap) gomap"
  am_cells :: "(u64, nat) gomap"
  am_heap :: "capacityCell list"
  am_pub :: "(u64, nat) gomap option"
  am_dirtyCells :: "nat list"
  am_keysDirty :: bool
  am_active :: bool

definition NewModel_availableCapacity :: "Topology \<Rightarrow> availableCapacityModel" where
  "NewModel_availableCapacity t =
     membership.extend (newMembership t)
       \<lparr>am_byLeaf = [], am_cells = [], am_heap = [], am_pub = None, am_dirtyCells = [], am_keysDirty = False, am_active = False\<rparr>"

definition routeSlot :: "capacityRoute list \<Rightarrow> nat \<Rightarrow> nat" where
  "routeSlot routes leaf = search_loop (\<lambda>mid. \<not> cr_leaf (routes ! mid) < leaf) 0 (length routes)"

definition set_cell :: "nat \<Rightarrow> (capacityCell \<Rightarrow> capacityCell) \<Rightarrow> availableCapacityModel \<Rightarrow> availableCapacityModel" where
  "set_cell r f m = m\<lparr>am_heap := (am_heap m)[r := f (am_heap m ! r)]\<rparr>"

definition touch :: "nat \<Rightarrow> availableCapacityModel \<Rightarrow> availableCapacityModel" where
  "touch r m =
     (if cc_dirty (am_heap m ! r) then m
      else (set_cell r (cc_dirty_update (\<lambda>_. True)) m)\<lparr>am_dirtyCells := am_dirtyCells m @ [r]\<rparr>)"

text \<open>The cell of a function, allocated when there is none.\<close>

definition get_cell :: "u64 \<Rightarrow> availableCapacityModel \<Rightarrow> nat \<times> availableCapacityModel" where
  "get_cell fn m =
     (case map_of (am_cells m) fn of
        Some r \<Rightarrow> (r, m)
      | None \<Rightarrow>
          (length (am_heap m),
           m\<lparr>am_heap := am_heap m @ [\<lparr>cc_fn = fn, cc_parts = [], cc_pub = None, cc_dirty = False\<rparr>],
             am_cells := AList.update fn (length (am_heap m)) (am_cells m), am_keysDirty := True\<rparr>))"

definition upsert :: "u64 \<Rightarrow> nat \<Rightarrow> u64 \<Rightarrow> availableCapacityModel \<Rightarrow> availableCapacityModel" where
  "upsert fn leaf available m0 =
     (case get_cell fn m0 of
        (r, m) \<Rightarrow>
          let parts = cc_parts (am_heap m ! r); i = routeSlot parts leaf in
          if i < length parts \<and> cr_leaf (parts ! i) = leaf then
            if cr_available (parts ! i) = available then m
            else touch r (set_cell r (cc_parts_update (\<lambda>_. parts[i := (parts ! i)\<lparr>cr_available := available\<rparr>])) m)
          else touch r (set_cell r (cc_parts_update (\<lambda>_. take i parts @ \<lparr>cr_leaf = leaf, cr_available = available\<rparr> # drop i parts)) m))"

definition remove_route :: "u64 \<Rightarrow> nat \<Rightarrow> availableCapacityModel \<Rightarrow> availableCapacityModel" where
  "remove_route fn leaf m =
     (case map_of (am_cells m) fn of
        None \<Rightarrow> m
      | Some r \<Rightarrow>
          let parts = cc_parts (am_heap m ! r); i = routeSlot parts leaf in
          if i = length parts \<or> cr_leaf (parts ! i) \<noteq> leaf then m
          else touch r (set_cell r (cc_parts_update (\<lambda>_. take i parts @ drop (i + 1) parts)) m))"

definition commit_cell :: "availableCapacityModel \<Rightarrow> nat \<Rightarrow> availableCapacityModel" where
  "commit_cell m r =
     (let cell = am_heap m ! r in
      if cc_parts cell = []
      then (set_cell r (\<lambda>c. c\<lparr>cc_pub := Some [], cc_dirty := False\<rparr>) m)
             \<lparr>am_cells := AList.delete (cc_fn cell) (am_cells m), am_keysDirty := True\<rparr>
      else set_cell r (\<lambda>c. c\<lparr>cc_pub := Some (cc_parts cell), cc_dirty := False\<rparr>) m)"

definition commit :: "availableCapacityModel \<Rightarrow> bool \<times> availableCapacityModel" where
  "commit m =
     (if am_dirtyCells m = [] then (False, m)
      else let m1 = (foldl commit_cell m (am_dirtyCells m))\<lparr>am_dirtyCells := []\<rparr>;
               m2 = (if am_keysDirty m1 then m1\<lparr>am_pub := Some (am_cells m1), am_keysDirty := False\<rparr> else m1)
           in (True, m2))"

text \<open>The last lines of \<^verbatim>\<open>ReplaceLeaf\<close> and \<^verbatim>\<open>Apply\<close>.\<close>

definition publish_changes :: "bool \<Rightarrow> availableCapacityModel \<Rightarrow> UpdateResult \<times> availableCapacityModel" where
  "publish_changes healthChanged m =
     (if \<not> am_active m then (NoChange, m)
      else case commit m of (changed, m1) \<Rightarrow> (update_result healthChanged changed, m1))"

definition replace_capacity ::
  "nat \<Rightarrow> (u64, unit) gomap \<times> availableCapacityModel \<Rightarrow> FunctionCapacity \<Rightarrow> (u64, unit) gomap \<times> availableCapacityModel" where
  "replace_capacity leaf acc c =
     (case acc of (nxt, m) \<Rightarrow>
        if fc_deleted c then acc
        else (AList.update (fc_function_id c) () nxt, upsert (fc_function_id c) leaf (fc_available_concurrency c) m))"

definition drop_missing :: "nat \<Rightarrow> (u64, unit) gomap \<Rightarrow> availableCapacityModel \<Rightarrow> u64 \<Rightarrow> availableCapacityModel" where
  "drop_missing leaf nxt m fn = (if map_of nxt fn = None then remove_route fn leaf m else m)"

definition leaf_functions :: "u64 \<Rightarrow> availableCapacityModel \<Rightarrow> (u64, unit) gomap" where
  "leaf_functions i m = (case map_of (am_byLeaf m) i of None \<Rightarrow> [] | Some fs \<Rightarrow> fs)"

definition ReplaceLeaf_availableCapacity ::
  "u64 list \<Rightarrow> LeafState \<Rightarrow> availableCapacityModel \<Rightarrow> UpdateResult \<times> availableCapacityModel" where
  "ReplaceLeaf_availableCapacity order s m =
     (case setHealthy (ls_LeafID s) (ls_HealthyWorkers s > 0) m of
        (healthChanged, m1) \<Rightarrow>
          (case map_of (tp_index (mb_topology m1)) (ls_LeafID s) of
             None \<Rightarrow> (if healthChanged then PublishPicker else NoChange, m1)
           | Some leaf \<Rightarrow>
               (case foldl (replace_capacity leaf) ([], m1) (ls_Capacities s) of
                  (nxt, m2) \<Rightarrow>
                    let previous = leaf_functions (ls_LeafID s) m1;
                        m3 = foldl (drop_missing leaf nxt) m2 (map_range order previous)
                    in publish_changes healthChanged (m3\<lparr>am_byLeaf := AList.update (ls_LeafID s) nxt (am_byLeaf m3)\<rparr>))))"

definition apply_capacity :: "u64 \<Rightarrow> nat \<Rightarrow> availableCapacityModel \<Rightarrow> FunctionCapacity \<Rightarrow> availableCapacityModel" where
  "apply_capacity i leaf m c =
     (let fn = fc_function_id c; fs = leaf_functions i m in
      if fc_deleted c
      then remove_route fn leaf (m\<lparr>am_byLeaf := AList.update i (AList.delete fn fs) (am_byLeaf m)\<rparr>)
      else upsert fn leaf (fc_available_concurrency c) (m\<lparr>am_byLeaf := AList.update i (AList.update fn () fs) (am_byLeaf m)\<rparr>))"

definition Apply_availableCapacity :: "LeafState \<Rightarrow> availableCapacityModel \<Rightarrow> UpdateResult \<times> availableCapacityModel" where
  "Apply_availableCapacity s m =
     (case setHealthy (ls_LeafID s) (ls_HealthyWorkers s > 0) m of
        (healthChanged, m1) \<Rightarrow>
          (case map_of (tp_index (mb_topology m1)) (ls_LeafID s) of
             None \<Rightarrow> (if healthChanged then PublishPicker else NoChange, m1)
           | Some leaf \<Rightarrow> publish_changes healthChanged (foldl (apply_capacity (ls_LeafID s) leaf) m1 (ls_Capacities s))))"

definition LeafDisconnected_availableCapacity :: "u64 \<Rightarrow> availableCapacityModel \<Rightarrow> UpdateResult \<times> availableCapacityModel" where
  "LeafDisconnected_availableCapacity i m =
     (case setHealthy i False m of (changed, m1) \<Rightarrow> (if changed then PublishPicker else NoChange, m1))"

subsection \<open>The picker\<close>

record availableCapacityPicker =
  ap_leaves :: "LeafTarget list"
  ap_healthyLeaves :: "LeafTarget list"
  ap_healthy :: "bool list"
  ap_counter :: u64

definition Picker_availableCapacity :: "availableCapacityModel \<Rightarrow> availableCapacityPicker \<times> availableCapacityModel" where
  "Picker_availableCapacity m =
     (let m1 = (snd (commit m))\<lparr>am_active := True\<rparr>; leaves = tp_leaves (mb_topology m1)
      in (\<lparr>ap_leaves = leaves, ap_healthyLeaves = healthyLeaves m1,
           ap_healthy = map (\<lambda>l. leaf_healthy m1 (LeafID l)) leaves, ap_counter = 0\<rparr>, m1))"

definition coldFallback :: "u64 \<Rightarrow> availableCapacityPicker \<Rightarrow> LeafTarget" where
  "coldFallback fid p =
     (ap_healthyLeaves p ! unat (hashFunctionID fid mod of_nat (length (ap_healthyLeaves p))))
       \<lparr>target_reason := ReasonColdCacheFallback\<rparr>"

definition best_scan :: "bool list \<Rightarrow> u64 \<times> nat \<Rightarrow> capacityRoute \<Rightarrow> u64 \<times> nat" where
  "best_scan up acc route =
     (case acc of (best, ties) \<Rightarrow>
        if \<not> up ! cr_leaf route then acc
        else if ties = 0 \<or> cr_available route > best then (cr_available route, 1)
        else if cr_available route = best then (best, ties + 1) else acc)"

fun choose_route :: "bool list \<Rightarrow> u64 \<Rightarrow> nat \<Rightarrow> capacityRoute list \<Rightarrow> capacityRoute option" where
  "choose_route up best chosen [] = None"
| "choose_route up best chosen (r # rs) =
     (if up ! cr_leaf r \<and> cr_available r = best
      then if chosen = 0 then Some r else choose_route up best (chosen - 1) rs
      else choose_route up best chosen rs)"

text \<open>The routes a request sees: the published table, then the published routes of its cell.\<close>

definition published_routes :: "u64 \<Rightarrow> availableCapacityModel \<Rightarrow> capacityRoute list option" where
  "published_routes fid m =
     (case am_pub m of
        None \<Rightarrow> None
      | Some outer \<Rightarrow> (case map_of outer fid of None \<Rightarrow> None | Some r \<Rightarrow> cc_pub (am_heap m ! r)))"

definition Pick_availableCapacity ::
  "RouteRequest \<Rightarrow> availableCapacityModel \<Rightarrow> availableCapacityPicker \<Rightarrow> (route_error + LeafTarget) \<times> availableCapacityPicker" where
  "Pick_availableCapacity req m p =
     (if ap_healthyLeaves p = [] then (Inl NoHealthyLeaves, p)
      else case published_routes (FunctionID req) m of
             None \<Rightarrow> (Inr (coldFallback (FunctionID req) p), p)
           | Some entries \<Rightarrow>
               (case foldl (best_scan (ap_healthy p)) (0, 0) entries of
                  (best, ties) \<Rightarrow>
                    if ties = 0 then (Inr (coldFallback (FunctionID req) p), p)
                    else
                      let chosen = unat (ap_counter p mod of_nat ties); q = p\<lparr>ap_counter := ap_counter p + 1\<rparr> in
                      case choose_route (ap_healthy p) best chosen entries of
                        Some route \<Rightarrow> (Inr ((ap_leaves p ! cr_leaf route)\<lparr>target_reason := ReasonAvailableCapacity\<rparr>), q)
                      | None \<Rightarrow> (Inr (coldFallback (FunctionID req) p), q)))"

subsection \<open>Sorted routes\<close>

definition routes_ok :: "nat \<Rightarrow> capacityRoute list \<Rightarrow> bool" where
  "routes_ok n parts \<longleftrightarrow> sorted_wrt (<) (map cr_leaf parts) \<and> (\<forall>r \<in> set parts. cr_leaf r < n)"

definition route_map :: "capacityRoute list \<Rightarrow> nat \<Rightarrow> u64 option" where
  "route_map parts = map_of (map (\<lambda>r. (cr_leaf r, cr_available r)) parts)"

lemma route_map_Nil [simp]: "route_map [] l = None"
  by (simp add: route_map_def)



lemma route_map_Cons: "route_map (r # rs) l = (if l = cr_leaf r then Some (cr_available r) else route_map rs l)"
  by (simp add: route_map_def)

lemma route_map_eq_None: "route_map rs l = None \<longleftrightarrow> l \<notin> cr_leaf ` set rs"
  by (auto simp: route_map_def map_of_eq_None_iff image_iff)

lemma route_map_app:
  "route_map (xs @ ys) l = (if l \<in> cr_leaf ` set xs then route_map xs l else route_map ys l)"
  by (induction xs) (auto simp: route_map_Cons)

lemma route_map_SomeI: "routes_ok n rs \<Longrightarrow> r \<in> set rs \<Longrightarrow> route_map rs (cr_leaf r) = Some (cr_available r)"
proof (induction rs)
  case (Cons x xs)
  then show ?case
    by (force simp: route_map_Cons routes_ok_def)
qed simp

lemma route_map_SomeD: "route_map rs l = Some a \<Longrightarrow> \<exists>r \<in> set rs. cr_leaf r = l \<and> cr_available r = a"
  by (induction rs) (auto simp: route_map_Cons split: if_splits)

lemma routeSlot_split:
  assumes "routes_ok n parts"
  obtains ls rs where "parts = ls @ rs" "routeSlot parts leaf = length ls"
    "\<forall>r \<in> set ls. cr_leaf r < leaf" "\<forall>r \<in> set rs. leaf \<le> cr_leaf r"
proof -
  let ?f = "\<lambda>mid. \<not> cr_leaf (parts ! mid) < leaf" and ?i = "routeSlot parts leaf"
  have mono: "?f b" if fa: "?f a" and le: "a \<le> b" and b: "b < length parts" for a b
  proof (cases "a = b")
    case True
    then show ?thesis
      using fa by simp
  next
    case False
    then have "cr_leaf (parts ! a) < cr_leaf (parts ! b)"
      using assms le b sorted_wrt_nth_less[of "(<)" "map cr_leaf parts" a b] by (auto simp: routes_ok_def)
    then show ?thesis
      using fa by simp
  qed
  have i: "?i = sort_Search (length parts) ?f"
    by (simp add: routeSlot_def sort_Search_def)
  have m: "\<forall>a b. ?f a \<longrightarrow> a \<le> b \<longrightarrow> b < length parts \<longrightarrow> ?f b"
    using mono by blast
  have le: "?i \<le> length parts"
    unfolding i by (rule sort_Search_least(1)[OF m])
  have low: "cr_leaf (parts ! k) < leaf" if "k < ?i" for k
    using sort_Search_least(2)[OF m, of k] that i by simp
  have high: "leaf \<le> cr_leaf (parts ! k)" if "?i \<le> k" "k < length parts" for k
    using sort_Search_least(3)[OF m, of k] that i by simp
  show thesis
  proof (rule that[of "take ?i parts" "drop ?i parts"])
    show "\<forall>r \<in> set (take ?i parts). cr_leaf r < leaf"
      using low le by (auto simp: in_set_conv_nth)
    show "\<forall>r \<in> set (drop ?i parts). leaf \<le> cr_leaf r"
      using high le by (auto simp: in_set_conv_nth)
  qed (use le in simp_all)
qed

lemma routes_ok_append:
  "routes_ok n (xs @ ys) \<longleftrightarrow> routes_ok n xs \<and> routes_ok n ys \<and> (\<forall>x \<in> set xs. \<forall>y \<in> set ys. cr_leaf x < cr_leaf y)"
  by (auto simp: routes_ok_def sorted_wrt_append)

lemma routes_ok_Cons:
  "routes_ok n (x # ys) \<longleftrightarrow> cr_leaf x < n \<and> (\<forall>y \<in> set ys. cr_leaf x < cr_leaf y) \<and> routes_ok n ys"
  by (auto simp: routes_ok_def)

text \<open>The three changes of a sorted list of routes: an update in place, an insertion, a removal.\<close>

lemma route_found:
  assumes ok: "routes_ok n parts" and i: "i = routeSlot parts leaf" "i < length parts" "cr_leaf (parts ! i) = leaf"
  shows "route_map parts leaf = Some (cr_available (parts ! i))"
    and "routes_ok n (parts[i := (parts ! i)\<lparr>cr_available := a\<rparr>])"
    and "route_map (parts[i := (parts ! i)\<lparr>cr_available := a\<rparr>]) = (route_map parts)(leaf \<mapsto> a)"
    and "routes_ok n (take i parts @ drop (i + 1) parts)"
    and "route_map (take i parts @ drop (i + 1) parts) = (route_map parts)(leaf := None)"
proof -
  obtain ls rs where s: "parts = ls @ rs" "routeSlot parts leaf = length ls"
    "\<forall>r \<in> set ls. cr_leaf r < leaf" "\<forall>r \<in> set rs. leaf \<le> cr_leaf r"
    by (rule routeSlot_split[OF ok])
  have len: "i = length ls"
    using i s by simp
  obtain x xs where rs: "rs = x # xs"
    using i s len by (cases rs) auto
  have x1: "parts ! i = x"
    unfolding len s(1) rs by simp
  have x: "parts ! i = x" "cr_leaf x = leaf"
    using x1 i(3) by simp_all
  have forms: "parts[i := (parts ! i)\<lparr>cr_available := a\<rparr>] = ls @ x\<lparr>cr_available := a\<rparr> # xs"
    "take i parts @ drop (i + 1) parts = ls @ xs"
    unfolding x(1) len s(1) rs by simp_all
  have notin: "leaf \<notin> cr_leaf ` set ls" "leaf \<notin> cr_leaf ` set xs"
    using s ok x by (auto simp: rs routes_ok_append routes_ok_Cons)
  show "route_map parts leaf = Some (cr_available (parts ! i))"
    using notin by (simp add: x(1)) (simp add: s(1) rs route_map_app route_map_Cons x(2))
  show "routes_ok n (parts[i := (parts ! i)\<lparr>cr_available := a\<rparr>])" "routes_ok n (take i parts @ drop (i + 1) parts)"
    using ok unfolding forms by (auto simp: s(1) rs routes_ok_append routes_ok_Cons)
  show "route_map (parts[i := (parts ! i)\<lparr>cr_available := a\<rparr>]) = (route_map parts)(leaf \<mapsto> a)"
    "route_map (take i parts @ drop (i + 1) parts) = (route_map parts)(leaf := None)"
    unfolding forms
    by (rule ext, rename_tac l, case_tac "l = leaf"; use notin in \<open>simp add: s(1) rs route_map_app route_map_Cons x(2) route_map_eq_None\<close>)+
qed

lemma route_missing:
  assumes ok: "routes_ok n parts" and i: "i = routeSlot parts leaf" "\<not> (i < length parts \<and> cr_leaf (parts ! i) = leaf)"
    and leaf: "leaf < n"
  shows "route_map parts leaf = None"
    and "routes_ok n (take i parts @ \<lparr>cr_leaf = leaf, cr_available = a\<rparr> # drop i parts)"
    and "route_map (take i parts @ \<lparr>cr_leaf = leaf, cr_available = a\<rparr> # drop i parts) = (route_map parts)(leaf \<mapsto> a)"
proof -
  obtain ls rs where s: "parts = ls @ rs" "routeSlot parts leaf = length ls"
    "\<forall>r \<in> set ls. cr_leaf r < leaf" "\<forall>r \<in> set rs. leaf \<le> cr_leaf r"
    by (rule routeSlot_split[OF ok])
  have len: "i = length ls"
    using i s by simp
  have above: "\<forall>r \<in> set rs. leaf < cr_leaf r"
  proof (cases rs)
    case (Cons x xs)
    then have "leaf < cr_leaf x"
      using i s len by fastforce
    moreover have "\<forall>y \<in> set xs. cr_leaf x < cr_leaf y"
      using ok s Cons by (simp add: routes_ok_append routes_ok_Cons)
    ultimately show ?thesis
      using Cons by auto
  qed simp
  have form: "take i parts = ls" "drop i parts = rs"
    unfolding len s(1) by auto
  show "route_map parts leaf = None"
    using s above by (auto simp: route_map_eq_None)
  show "routes_ok n (take i parts @ \<lparr>cr_leaf = leaf, cr_available = a\<rparr> # drop i parts)"
    unfolding form using ok s(3) above leaf unfolding s(1) by (auto simp: routes_ok_append routes_ok_Cons)
  show "route_map (take i parts @ \<lparr>cr_leaf = leaf, cr_available = a\<rparr> # drop i parts) = (route_map parts)(leaf \<mapsto> a)"
  proof (rule ext)
    fix l
    have "leaf \<notin> cr_leaf ` set ls"
      using s(3) by auto
    then show "route_map (take i parts @ \<lparr>cr_leaf = leaf, cr_available = a\<rparr> # drop i parts) l = ((route_map parts)(leaf \<mapsto> a)) l"
      unfolding form by (cases "l = leaf") (simp_all add: s(1) route_map_app route_map_Cons)
  qed
qed

subsection \<open>The cells\<close>

text \<open>
  The invariant of the cells.  The set \<open>X\<close> holds cells in the middle of an update: they need not be
  published or dirty yet.
\<close>

definition published_table :: "availableCapacityModel \<Rightarrow> (u64, nat) gomap" where
  "published_table m = (case am_pub m of None \<Rightarrow> [] | Some t \<Rightarrow> t)"

definition cells_wf :: "availableCapacityModel \<Rightarrow> bool" where
  "cells_wf m \<longleftrightarrow>
     (\<forall>fn r. map_of (am_cells m) fn = Some r \<longrightarrow> r < length (am_heap m) \<and> cc_fn (am_heap m ! r) = fn) \<and>
     (\<forall>r < length (am_heap m). routes_ok (length (tp_leaves (mb_topology m))) (cc_parts (am_heap m ! r)))"

definition dirty_wf :: "availableCapacityModel \<Rightarrow> bool" where
  "dirty_wf m \<longleftrightarrow>
     distinct (am_dirtyCells m) \<and> set (am_dirtyCells m) = {r. r < length (am_heap m) \<and> cc_dirty (am_heap m ! r)} \<and>
     (\<forall>r \<in> set (am_dirtyCells m). map_of (am_cells m) (cc_fn (am_heap m ! r)) = Some r)"

definition published_wf :: "nat set \<Rightarrow> availableCapacityModel \<Rightarrow> bool" where
  "published_wf X m \<longleftrightarrow>
     (\<forall>fn r. map_of (am_cells m) fn = Some r \<longrightarrow> r \<notin> X \<longrightarrow> \<not> cc_dirty (am_heap m ! r) \<longrightarrow>
        cc_pub (am_heap m ! r) = Some (cc_parts (am_heap m ! r)) \<and> cc_parts (am_heap m ! r) \<noteq> []) \<and>
     (\<not> am_keysDirty m \<longrightarrow> map_of (published_table m) = map_of (am_cells m)) \<and>
     (am_keysDirty m \<longrightarrow> X = {} \<longrightarrow> am_dirtyCells m \<noteq> [])"

definition capacity_wf :: "nat set \<Rightarrow> availableCapacityModel \<Rightarrow> bool" where
  "capacity_wf X m \<longleftrightarrow> cells_wf m \<and> dirty_wf m \<and> published_wf X m"

text \<open>The table that the model implements.\<close>

definition cell_routes :: "availableCapacityModel \<Rightarrow> u64 \<Rightarrow> capacityRoute list" where
  "cell_routes m fn = (case map_of (am_cells m) fn of None \<Rightarrow> [] | Some r \<Rightarrow> cc_parts (am_heap m ! r))"

definition cap_table :: "availableCapacityModel \<Rightarrow> nat \<Rightarrow> u64 \<Rightarrow> u64 option" where
  "cap_table m leaf fn = route_map (cell_routes m fn) leaf"

lemma cap_table_cong:
  assumes "am_cells m' = am_cells m" "am_heap m' = am_heap m"
  shows "cell_routes m' = cell_routes m" "cap_table m' = cap_table m"
proof -
  show "cell_routes m' = cell_routes m"
    by (rule ext) (simp add: cell_routes_def assms split: option.split)
  then show "cap_table m' = cap_table m"
    by (simp add: cap_table_def fun_eq_iff)
qed

text \<open>Replacing the routes of a cell and touching it.\<close>

definition write_cell :: "nat \<Rightarrow> capacityRoute list \<Rightarrow> availableCapacityModel \<Rightarrow> availableCapacityModel" where
  "write_cell r parts m = touch r (set_cell r (cc_parts_update (\<lambda>_. parts)) m)"

lemma write_cell_fields [simp]:
  "am_cells (write_cell r parts m) = am_cells m" "am_pub (write_cell r parts m) = am_pub m"
  "am_keysDirty (write_cell r parts m) = am_keysDirty m" "am_byLeaf (write_cell r parts m) = am_byLeaf m"
  "am_active (write_cell r parts m) = am_active m" "mb_topology (write_cell r parts m) = mb_topology m"
  "mb_healthy (write_cell r parts m) = mb_healthy m" "length (am_heap (write_cell r parts m)) = length (am_heap m)"
  "published_table (write_cell r parts m) = published_table m"
  by (simp_all add: write_cell_def touch_def set_cell_def published_table_def)

lemma dirty_again: "cc_dirty c \<Longrightarrow> c\<lparr>cc_parts := parts, cc_dirty := True\<rparr> = c\<lparr>cc_parts := parts\<rparr>"
  by (cases c) simp

lemma heap_write_cell:
  assumes "r < length (am_heap m)"
  shows "am_heap (write_cell r parts m) = (am_heap m)[r := (am_heap m ! r)\<lparr>cc_parts := parts, cc_dirty := True\<rparr>]"
    and "am_dirtyCells (write_cell r parts m) = (if cc_dirty (am_heap m ! r) then am_dirtyCells m else am_dirtyCells m @ [r])"
  using assms by (auto simp: write_cell_def touch_def set_cell_def dirty_again)

lemma cells_inj:
  "cells_wf m \<Longrightarrow> map_of (am_cells m) fn = Some r \<Longrightarrow> map_of (am_cells m) fn' = Some r \<Longrightarrow> fn' = fn"
  by (metis cells_wf_def)

lemma write_cell_wf:
  assumes wf: "capacity_wf {r} m" and r: "map_of (am_cells m) fn = Some r"
    and ok: "routes_ok (length (tp_leaves (mb_topology m))) parts"
  shows "capacity_wf {} (write_cell r parts m)"
    and "cell_routes (write_cell r parts m) = (cell_routes m)(fn := parts)"
proof -
  have lt: "r < length (am_heap m)" and fn: "cc_fn (am_heap m ! r) = fn"
    using wf r by (auto simp: capacity_wf_def cells_wf_def)
  note heap = heap_write_cell[OF lt, of parts]
  have nth: "am_heap (write_cell r parts m) ! k =
      (if k = r then (am_heap m ! r)\<lparr>cc_parts := parts, cc_dirty := True\<rparr> else am_heap m ! k)" for k
    using lt by (simp add: heap)
  have "cells_wf (write_cell r parts m)"
    using wf ok by (auto simp: capacity_wf_def cells_wf_def nth)
  moreover have "dirty_wf (write_cell r parts m)"
    using wf lt r fn by (auto simp: capacity_wf_def dirty_wf_def nth heap(2))
  moreover have "published_wf {} (write_cell r parts m)"
    using wf lt by (auto simp: capacity_wf_def dirty_wf_def published_wf_def nth heap(2))
  ultimately show "capacity_wf {} (write_cell r parts m)"
    by (simp add: capacity_wf_def)
  show "cell_routes (write_cell r parts m) = (cell_routes m)(fn := parts)"
  proof (rule ext)
    fix f
    show "cell_routes (write_cell r parts m) f = ((cell_routes m)(fn := parts)) f"
    proof (cases "f = fn")
      case True
      then show ?thesis
        using r by (simp add: cell_routes_def nth)
    next
      case False
      then have "map_of (am_cells m) f \<noteq> Some r"
        using cells_inj[of m fn r f] wf r by (auto simp: capacity_wf_def)
      with False show ?thesis
        by (simp add: cell_routes_def nth split: option.split)
    qed
  qed
qed

lemma get_cell_fields:
  assumes "get_cell fn m = (r, m')"
  shows "mb_topology m' = mb_topology m" "mb_healthy m' = mb_healthy m" "am_byLeaf m' = am_byLeaf m"
    "am_active m' = am_active m"
  using assms by (auto simp: get_cell_def split: option.splits)

lemma get_cell_wf:
  assumes wf: "capacity_wf {} m" and g: "get_cell fn m = (r, m')"
  shows "capacity_wf {r} m'" and "map_of (am_cells m') fn = Some r" and "cell_routes m' = cell_routes m"
    and "cc_parts (am_heap m' ! r) = cell_routes m fn"
proof -
  have "capacity_wf {r} m' \<and> map_of (am_cells m') fn = Some r \<and> cell_routes m' = cell_routes m \<and>
      cc_parts (am_heap m' ! r) = cell_routes m fn"
  proof (cases "map_of (am_cells m) fn")
    case (Some k)
    then have "m' = m" "r = k"
      using g by (auto simp: get_cell_def)
    then show ?thesis
      using wf Some by (auto simp: capacity_wf_def published_wf_def cell_routes_def)
  next
    case None
    let ?c = "\<lparr>cc_fn = fn, cc_parts = [], cc_pub = None, cc_dirty = False\<rparr>"
    have m': "m' = m\<lparr>am_heap := am_heap m @ [?c], am_cells := AList.update fn (length (am_heap m)) (am_cells m), am_keysDirty := True\<rparr>"
      and r: "r = length (am_heap m)"
      using g None by (auto simp: get_cell_def)
    have lt: "k < length (am_heap m)" if "map_of (am_cells m) f = Some k" for f k
      using wf that by (auto simp: capacity_wf_def cells_wf_def)
    have "cells_wf m'"
      using wf lt by (auto simp: m' capacity_wf_def cells_wf_def go_map_simps nth_append routes_ok_def dest: less_SucI)
    moreover have "dirty_wf m'"
      using wf None by (fastforce simp: m' capacity_wf_def dirty_wf_def go_map_simps nth_append)
    moreover have "published_wf {r} m'"
      using wf lt by (fastforce simp: m' r capacity_wf_def published_wf_def go_map_simps nth_append)
    moreover have "cell_routes m' = cell_routes m"
      using None lt by (auto simp: fun_eq_iff m' cell_routes_def go_map_simps nth_append split: option.splits)
    ultimately show ?thesis
      using None by (auto simp: capacity_wf_def m' r go_map_simps cell_routes_def)
  qed
  then show "capacity_wf {r} m'" "map_of (am_cells m') fn = Some r" "cell_routes m' = cell_routes m"
    "cc_parts (am_heap m' ! r) = cell_routes m fn"
    by simp_all
qed

lemma capacity_wf_weaken: "capacity_wf {} m \<Longrightarrow> capacity_wf X m"
  by (auto simp: capacity_wf_def published_wf_def)

lemma cell_routes_ok: "capacity_wf X m \<Longrightarrow> routes_ok (length (tp_leaves (mb_topology m))) (cell_routes m fn)"
  by (auto simp: capacity_wf_def cells_wf_def cell_routes_def routes_ok_def split: option.splits)

text \<open>What an update keeps besides the table.\<close>

definition same_frame :: "availableCapacityModel \<Rightarrow> availableCapacityModel \<Rightarrow> bool" where
  "same_frame m' m \<longleftrightarrow>
     mb_topology m' = mb_topology m \<and> mb_healthy m' = mb_healthy m \<and> am_byLeaf m' = am_byLeaf m \<and> am_active m' = am_active m"

lemma same_frame_refl [simp]: "same_frame m m"
  by (simp add: same_frame_def)

lemma same_frame_trans: "same_frame m2 m1 \<Longrightarrow> same_frame m1 m \<Longrightarrow> same_frame m2 m"
  by (simp add: same_frame_def)

lemma same_frame_write_cell [simp]: "same_frame (write_cell r parts m) m' \<longleftrightarrow> same_frame m m'"
  by (simp add: same_frame_def)

lemma upsert_wf:
  assumes wf: "capacity_wf {} m" and leaf: "leaf < length (tp_leaves (mb_topology m))"
  shows "capacity_wf {} (upsert fn leaf a m)"
    and "cap_table (upsert fn leaf a m) = (\<lambda>l f. if l = leaf \<and> f = fn then Some a else cap_table m l f)"
    and "same_frame (upsert fn leaf a m) m"
proof -
  obtain r m' where g: "get_cell fn m = (r, m')"
    by fastforce
  note G = get_cell_wf[OF wf g] and F = get_cell_fields[OF g]
  let ?parts = "cell_routes m fn" and ?n = "length (tp_leaves (mb_topology m))"
  let ?i = "routeSlot ?parts leaf"
  have ok: "routes_ok ?n ?parts"
    by (rule cell_routes_ok[OF wf])
  define new where
    "new = (if ?i < length ?parts \<and> cr_leaf (?parts ! ?i) = leaf then ?parts[?i := (?parts ! ?i)\<lparr>cr_available := a\<rparr>]
            else take ?i ?parts @ \<lparr>cr_leaf = leaf, cr_available = a\<rparr> # drop ?i ?parts)"
  have new: "routes_ok ?n new" "route_map new = (route_map ?parts)(leaf \<mapsto> a)"
    using route_found(2,3)[OF ok refl, of leaf a] route_missing(2,3)[OF ok refl, of leaf a] leaf by (auto simp: new_def)
  have up: "upsert fn leaf a m =
      (if ?i < length ?parts \<and> cr_leaf (?parts ! ?i) = leaf \<and> cr_available (?parts ! ?i) = a then m' else write_cell r new m')"
    by (simp add: upsert_def g G(4) Let_def write_cell_def new_def)
  consider (same) "?i < length ?parts" "cr_leaf (?parts ! ?i) = leaf" "cr_available (?parts ! ?i) = a" "upsert fn leaf a m = m'"
    | (new) "upsert fn leaf a m = write_cell r new m'"
    using up by (auto split: if_splits)
  then have "capacity_wf {} (upsert fn leaf a m) \<and>
      cap_table (upsert fn leaf a m) = (\<lambda>l f. if l = leaf \<and> f = fn then Some a else cap_table m l f) \<and>
      same_frame (upsert fn leaf a m) m"
  proof cases
    case same
    have "m' = m"
      using same g by (auto simp: get_cell_def cell_routes_def split: option.splits)
    moreover have "cap_table m leaf fn = Some a"
      using route_found(1)[OF ok refl same(1,2)] same(3) by (simp add: cap_table_def)
    ultimately show ?thesis
      using wf same(4) by (auto simp: fun_eq_iff)
  next
    case new': new
    have W: "capacity_wf {} (write_cell r new m')" "cell_routes (write_cell r new m') = (cell_routes m')(fn := new)"
      using write_cell_wf[OF G(1,2), of new] new(1) F by simp_all
    have "cap_table (write_cell r new m') = (\<lambda>l f. if l = leaf \<and> f = fn then Some a else cap_table m l f)"
      using new(2) by (auto simp: fun_eq_iff cap_table_def W(2) G(3))
    moreover have "same_frame (write_cell r new m') m"
      using F by (simp add: same_frame_def)
    ultimately show ?thesis
      using W(1) by (simp add: new')
  qed
  then show "capacity_wf {} (upsert fn leaf a m)"
    and "cap_table (upsert fn leaf a m) = (\<lambda>l f. if l = leaf \<and> f = fn then Some a else cap_table m l f)"
    and "same_frame (upsert fn leaf a m) m"
    by simp_all
qed

lemma remove_route_wf:
  assumes wf: "capacity_wf {} m" and leaf: "leaf < length (tp_leaves (mb_topology m))"
  shows "capacity_wf {} (remove_route fn leaf m)"
    and "cap_table (remove_route fn leaf m) = (\<lambda>l f. if l = leaf \<and> f = fn then None else cap_table m l f)"
    and "same_frame (remove_route fn leaf m) m"
proof -
  let ?parts = "cell_routes m fn" and ?n = "length (tp_leaves (mb_topology m))"
  let ?i = "routeSlot ?parts leaf" and ?new = "take (routeSlot (cell_routes m fn) leaf) ?parts @ drop (routeSlot (cell_routes m fn) leaf + 1) ?parts"
  have ok: "routes_ok ?n ?parts"
    by (rule cell_routes_ok[OF wf])
  consider (keep) "cap_table m leaf fn = None" "remove_route fn leaf m = m"
    | (del) r where "map_of (am_cells m) fn = Some r" "?i < length ?parts" "cr_leaf (?parts ! ?i) = leaf"
        "remove_route fn leaf m = write_cell r ?new m"
  proof (cases "map_of (am_cells m) fn")
    case None
    then show thesis
      by (intro keep) (simp_all add: cap_table_def cell_routes_def remove_route_def)
  next
    case (Some r)
    have p: "cc_parts (am_heap m ! r) = ?parts"
      using Some by (simp add: cell_routes_def)
    have le: "?i \<le> length ?parts"
      by (rule routeSlot_split[OF ok, of leaf]) simp
    show thesis
    proof (cases "?i < length ?parts \<and> cr_leaf (?parts ! ?i) = leaf")
      case True
      then show thesis
        by (intro del[OF Some]) (simp_all add: remove_route_def Some p Let_def write_cell_def)
    next
      case False
      then have "?i = length ?parts \<or> cr_leaf (?parts ! ?i) \<noteq> leaf"
        using le by linarith
      then have "remove_route fn leaf m = m"
        by (simp add: remove_route_def Some p Let_def)
      then show thesis
        by (intro keep) (simp_all add: cap_table_def route_missing(1)[OF ok refl False leaf])
    qed
  qed
  then have "capacity_wf {} (remove_route fn leaf m) \<and>
      cap_table (remove_route fn leaf m) = (\<lambda>l f. if l = leaf \<and> f = fn then None else cap_table m l f) \<and>
      same_frame (remove_route fn leaf m) m"
  proof cases
    case keep
    then show ?thesis
      using wf by (auto simp: fun_eq_iff)
  next
    case del
    define new where "new = ?new"
    have N: "routes_ok ?n new" "route_map new = (route_map ?parts)(leaf := None)"
      unfolding new_def by (rule route_found(4,5)[OF ok refl del(2,3)])+
    note W = write_cell_wf[OF capacity_wf_weaken[OF wf] del(1) N(1)]
    have "cap_table (write_cell r new m) = (\<lambda>l f. if l = leaf \<and> f = fn then None else cap_table m l f)"
      using N(2) by (auto simp: fun_eq_iff cap_table_def W(2))
    then show ?thesis
      unfolding del(4) new_def[symmetric] using W(1) by simp
  qed
  then show "capacity_wf {} (remove_route fn leaf m)"
    and "cap_table (remove_route fn leaf m) = (\<lambda>l f. if l = leaf \<and> f = fn then None else cap_table m l f)"
    and "same_frame (remove_route fn leaf m) m"
    by simp_all
qed

subsection \<open>Publication\<close>

text \<open>The loop of \<^verbatim>\<open>commit\<close> with the cells \<open>ds\<close> still to come.\<close>

definition committing :: "nat list \<Rightarrow> availableCapacityModel \<Rightarrow> bool" where
  "committing ds m \<longleftrightarrow>
     cells_wf m \<and> distinct ds \<and>
     (\<forall>r \<in> set ds. r < length (am_heap m) \<and> map_of (am_cells m) (cc_fn (am_heap m ! r)) = Some r) \<and>
     (\<forall>r < length (am_heap m). cc_dirty (am_heap m ! r) \<longrightarrow> r \<in> set ds) \<and>
     (\<forall>fn r. map_of (am_cells m) fn = Some r \<longrightarrow> r \<notin> set ds \<longrightarrow>
        cc_pub (am_heap m ! r) = Some (cc_parts (am_heap m ! r)) \<and> cc_parts (am_heap m ! r) \<noteq> []) \<and>
     (\<not> am_keysDirty m \<longrightarrow> map_of (published_table m) = map_of (am_cells m))"

lemma commit_cell_fields [simp]:
  "mb_topology (commit_cell m r) = mb_topology m" "mb_healthy (commit_cell m r) = mb_healthy m"
  "am_byLeaf (commit_cell m r) = am_byLeaf m" "am_active (commit_cell m r) = am_active m"
  "am_pub (commit_cell m r) = am_pub m" "am_dirtyCells (commit_cell m r) = am_dirtyCells m"
  "published_table (commit_cell m r) = published_table m"
  "length (am_heap (commit_cell m r)) = length (am_heap m)"
  by (simp_all add: commit_cell_def set_cell_def Let_def published_table_def)

lemma commit_cell_nth:
  "r < length (am_heap m) \<Longrightarrow> am_heap (commit_cell m r) ! k =
     (if k = r then (am_heap m ! r)\<lparr>cc_pub := Some (cc_parts (am_heap m ! r)), cc_dirty := False\<rparr> else am_heap m ! k)"
  by (simp add: commit_cell_def set_cell_def Let_def)

lemma commit_cell_cells:
  "am_cells (commit_cell m r) =
     (if cc_parts (am_heap m ! r) = [] then AList.delete (cc_fn (am_heap m ! r)) (am_cells m) else am_cells m)"
  "am_keysDirty (commit_cell m r) = (cc_parts (am_heap m ! r) = [] \<or> am_keysDirty m)"
  by (simp_all add: commit_cell_def set_cell_def Let_def)

lemma committing_step:
  assumes c: "committing (r # ds) m"
  shows "committing ds (commit_cell m r)" and "cell_routes (commit_cell m r) = cell_routes m"
proof -
  have lt: "r < length (am_heap m)" and r: "map_of (am_cells m) (cc_fn (am_heap m ! r)) = Some r"
    and wf: "cells_wf m" and d: "distinct (r # ds)"
    using c by (auto simp: committing_def)
  note nth = commit_cell_nth[OF lt]
  have cells: "map_of (am_cells (commit_cell m r)) f = Some k \<Longrightarrow> map_of (am_cells m) f = Some k" for f k
    by (auto simp: commit_cell_cells go_map_simps split: if_splits)
  have kept: "map_of (am_cells (commit_cell m r)) (cc_fn (am_heap m ! k)) = Some k" if k: "k \<in> set ds" for k
  proof -
    have mk: "map_of (am_cells m) (cc_fn (am_heap m ! k)) = Some k" and ne: "k \<noteq> r"
      using c d k by (auto simp: committing_def)
    then have "cc_fn (am_heap m ! k) \<noteq> cc_fn (am_heap m ! r)"
      using r by auto
    then show ?thesis
      using mk by (simp add: commit_cell_cells go_map_simps)
  qed
  have gone: "cc_parts (am_heap m ! r) \<noteq> []" if "map_of (am_cells (commit_cell m r)) f = Some r" for f
  proof
    assume "cc_parts (am_heap m ! r) = []"
    moreover have "f = cc_fn (am_heap m ! r)"
      using wf cells[OF that] by (auto simp: cells_wf_def)
    ultimately show False
      using that by (simp add: commit_cell_cells go_map_simps)
  qed
  have "cells_wf (commit_cell m r)"
    using wf cells by (auto simp: cells_wf_def nth)
  moreover have "\<forall>k \<in> set ds. k < length (am_heap m) \<and> map_of (am_cells (commit_cell m r)) (cc_fn (am_heap (commit_cell m r) ! k)) = Some k"
    using c d kept by (auto simp: committing_def nth)
  moreover have "\<forall>k < length (am_heap m). cc_dirty (am_heap (commit_cell m r) ! k) \<longrightarrow> k \<in> set ds"
    using c by (auto simp: committing_def nth)
  moreover have "cc_pub (am_heap (commit_cell m r) ! k) = Some (cc_parts (am_heap (commit_cell m r) ! k)) \<and>
      cc_parts (am_heap (commit_cell m r) ! k) \<noteq> []"
    if k: "map_of (am_cells (commit_cell m r)) f = Some k" "k \<notin> set ds" for f k
  proof (cases "k = r")
    case True
    then show ?thesis
      using gone[of f] k(1) by (simp add: nth)
  next
    case False
    then show ?thesis
      using c k(2) cells[OF k(1)] by (auto simp: committing_def nth)
  qed
  moreover have "\<not> am_keysDirty (commit_cell m r) \<longrightarrow> map_of (published_table m) = map_of (am_cells (commit_cell m r))"
    using c by (auto simp: committing_def commit_cell_cells)
  ultimately show "committing ds (commit_cell m r)"
    using d by (simp add: committing_def)
  show "cell_routes (commit_cell m r) = cell_routes m"
  proof (rule ext)
    fix f
    show "cell_routes (commit_cell m r) f = cell_routes m f"
    proof (cases "cc_parts (am_heap m ! r) = [] \<and> f = cc_fn (am_heap m ! r)")
      case True
      then show ?thesis
        using r by (simp add: cell_routes_def commit_cell_cells go_map_simps)
    next
      case False
      then have "map_of (am_cells (commit_cell m r)) f = map_of (am_cells m) f"
        by (auto simp: commit_cell_cells go_map_simps)
      then show ?thesis
        by (simp add: cell_routes_def nth split: option.split)
    qed
  qed
qed

lemma committing_loop:
  "committing ds m \<Longrightarrow>
     committing [] (foldl commit_cell m ds) \<and> cell_routes (foldl commit_cell m ds) = cell_routes m \<and>
     same_frame (foldl commit_cell m ds) m"
proof (induction ds arbitrary: m)
  case (Cons r ds)
  have "same_frame (commit_cell m r) m"
    by (simp add: same_frame_def)
  then show ?case
    using Cons.IH[OF committing_step(1)[OF Cons.prems]] committing_step(2)[OF Cons.prems] same_frame_trans by auto
qed simp

lemma commit_wf:
  assumes wf: "capacity_wf {} m" and com: "commit m = (b, m')"
  shows "capacity_wf {} m'" "am_dirtyCells m' = []" "cell_routes m' = cell_routes m" "same_frame m' m"
    and "\<not> b \<Longrightarrow> m' = m"
proof -
  have "capacity_wf {} m' \<and> am_dirtyCells m' = [] \<and> cell_routes m' = cell_routes m \<and> same_frame m' m \<and> (\<not> b \<longrightarrow> m' = m)"
  proof (cases "am_dirtyCells m = []")
    case True
    then show ?thesis
      using com wf by (simp add: commit_def)
  next
    case False
    let ?l = "foldl commit_cell m (am_dirtyCells m)"
    have "committing (am_dirtyCells m) m"
      using wf by (auto simp: capacity_wf_def committing_def dirty_wf_def published_wf_def cells_wf_def)
    then have L: "committing [] ?l" "cell_routes ?l = cell_routes m" "same_frame ?l m"
      using committing_loop by blast+
    have b: "b" and m': "m' = (let m1 = ?l\<lparr>am_dirtyCells := []\<rparr>
        in if am_keysDirty m1 then m1\<lparr>am_pub := Some (am_cells m1), am_keysDirty := False\<rparr> else m1)"
      using com False by (simp_all add: commit_def Let_def)
    have f: "am_heap m' = am_heap ?l" "am_cells m' = am_cells ?l" "am_dirtyCells m' = []" "\<not> am_keysDirty m'"
      "mb_topology m' = mb_topology ?l" "same_frame m' ?l"
      by (simp_all add: m' Let_def same_frame_def)
    have t: "map_of (published_table m') = map_of (am_cells ?l)"
      using L(1) by (simp add: m' Let_def published_table_def committing_def)
    have "capacity_wf {} m'"
      using L(1) f t by (auto simp: capacity_wf_def committing_def cells_wf_def dirty_wf_def published_wf_def)
    moreover have "cell_routes m' = cell_routes m"
      unfolding L(2)[symmetric] by (rule ext) (simp add: cell_routes_def f split: option.split)
    ultimately show ?thesis
      using f(3,6) L(3) b same_frame_trans by blast
  qed
  then show "capacity_wf {} m'" "am_dirtyCells m' = []" "cell_routes m' = cell_routes m" "same_frame m' m"
    and "\<not> b \<Longrightarrow> m' = m"
    by blast+
qed

text \<open>After a commit a request sees exactly the table of the writer.\<close>

lemma published_routes_clean:
  assumes wf: "capacity_wf {} m" and clean: "am_dirtyCells m = []"
  shows "published_routes fid m = (if cell_routes m fid = [] then None else Some (cell_routes m fid))"
proof -
  have nd: "\<not> cc_dirty (am_heap m ! r)" if "map_of (am_cells m) f = Some r" for f r
    using wf clean that by (auto simp: capacity_wf_def dirty_wf_def cells_wf_def)
  have t: "map_of (published_table m) = map_of (am_cells m)"
    using wf clean by (auto simp: capacity_wf_def published_wf_def)
  have "published_routes fid m = (case map_of (am_cells m) fid of None \<Rightarrow> None | Some r \<Rightarrow> cc_pub (am_heap m ! r))"
    unfolding t[symmetric] by (simp add: published_routes_def published_table_def split: option.split)
  also have "\<dots> = (if cell_routes m fid = [] then None else Some (cell_routes m fid))"
  proof (cases "map_of (am_cells m) fid")
    case (Some r)
    then show ?thesis
      using wf nd[OF Some] by (simp add: cell_routes_def capacity_wf_def published_wf_def)
  qed (simp add: cell_routes_def)
  finally show ?thesis .
qed

subsection \<open>Frames\<close>

text \<open>What the capacities of a full frame, or of a delta, mean for the functions of one leaf.\<close>

definition replace_view :: "(u64 \<rightharpoonup> u64) \<Rightarrow> FunctionCapacity list \<Rightarrow> (u64 \<rightharpoonup> u64)" where
  "replace_view = foldl (\<lambda>v c. if fc_deleted c then v else v(fc_function_id c \<mapsto> fc_available_concurrency c))"

definition apply_view :: "(u64 \<rightharpoonup> u64) \<Rightarrow> FunctionCapacity list \<Rightarrow> (u64 \<rightharpoonup> u64)" where
  "apply_view = foldl (\<lambda>v c. v(fc_function_id c := (if fc_deleted c then None else Some (fc_available_concurrency c))))"

definition by_leaf_ok :: "availableCapacityModel \<Rightarrow> bool" where
  "by_leaf_ok m \<longleftrightarrow>
     (\<forall>i leaf. map_of (tp_index (mb_topology m)) i = Some leaf \<longrightarrow>
        (\<forall>fn. map_of (leaf_functions i m) fn = None \<longleftrightarrow> cap_table m leaf fn = None))"

definition capacity_inv :: "availableCapacityModel \<Rightarrow> bool" where
  "capacity_inv m \<longleftrightarrow>
     topology_ok (mb_topology m) \<and> capacity_wf {} m \<and> by_leaf_ok m \<and> (am_active m \<longrightarrow> am_dirtyCells m = [])"

lemma replace_view_simps [simp]:
  "replace_view v [] = v"
  "replace_view v (cs @ [c]) f =
     (if f = fc_function_id c \<and> \<not> fc_deleted c then Some (fc_available_concurrency c) else replace_view v cs f)"
  by (simp_all add: replace_view_def)

lemma apply_view_simps [simp]:
  "apply_view v [] = v"
  "apply_view v (cs @ [c]) f =
     (if f = fc_function_id c then if fc_deleted c then None else Some (fc_available_concurrency c) else apply_view v cs f)"
  by (simp_all add: apply_view_def)

lemma replace_view_from: "replace_view v cs f = (case replace_view Map.empty cs f of None \<Rightarrow> v f | Some a \<Rightarrow> Some a)"
  by (induction cs rule: rev_induct) simp_all

lemma replace_loop:
  assumes "capacity_wf {} m" "leaf < length (tp_leaves (mb_topology m))" "foldl (replace_capacity leaf) (nxt, m) cs = (nxt', m')"
  shows "capacity_wf {} m' \<and> same_frame m' m \<and>
     cap_table m' = (cap_table m)(leaf := replace_view (cap_table m leaf) cs) \<and>
     (\<forall>f. map_of nxt' f = None \<longleftrightarrow> map_of nxt f = None \<and> replace_view Map.empty cs f = None)"
  using assms
proof (induction cs arbitrary: nxt' m' rule: rev_induct)
  case (snoc c cs)
  obtain nxt1 m1 where 1: "foldl (replace_capacity leaf) (nxt, m) cs = (nxt1, m1)"
    by fastforce
  note IH = snoc.IH[OF snoc.prems(1,2) 1]
  have wf: "capacity_wf {} m1" and leaf: "leaf < length (tp_leaves (mb_topology m1))"
    using IH snoc.prems(2) by (auto simp: same_frame_def)
  have step: "replace_capacity leaf (nxt1, m1) c = (nxt', m')"
    using snoc.prems(3) 1 by simp
  show ?case
  proof (cases "fc_deleted c")
    case True
    then show ?thesis
      using IH step by (simp add: replace_capacity_def fun_eq_iff)
  next
    case False
    have e: "nxt' = AList.update (fc_function_id c) () nxt1" "m' = upsert (fc_function_id c) leaf (fc_available_concurrency c) m1"
      using step False by (simp_all add: replace_capacity_def)
    note U = upsert_wf[OF wf leaf, of "fc_function_id c" "fc_available_concurrency c", folded e(2)]
    have "cap_table m' = (cap_table m)(leaf := replace_view (cap_table m leaf) (cs @ [c]))"
      using IH False by (auto simp: U(2) fun_eq_iff)
    moreover have "\<forall>f. map_of nxt' f = None \<longleftrightarrow> map_of nxt f = None \<and> replace_view Map.empty (cs @ [c]) f = None"
      using IH False by (auto simp: e(1) go_map_simps)
    ultimately show ?thesis
      using U(1,3) IH same_frame_trans by blast
  qed
qed simp

lemma drop_loop:
  assumes "capacity_wf {} m" "leaf < length (tp_leaves (mb_topology m))"
  shows "capacity_wf {} (foldl (drop_missing leaf nxt) m fs) \<and> same_frame (foldl (drop_missing leaf nxt) m fs) m \<and>
     cap_table (foldl (drop_missing leaf nxt) m fs) =
       (cap_table m)(leaf := (\<lambda>f. if f \<in> set fs \<and> map_of nxt f = None then None else cap_table m leaf f))"
  using assms
proof (induction fs rule: rev_induct)
  case (snoc g fs)
  let ?m1 = "foldl (drop_missing leaf nxt) m fs"
  note IH = snoc.IH[OF snoc.prems]
  have wf: "capacity_wf {} ?m1" and leaf: "leaf < length (tp_leaves (mb_topology ?m1))"
    using IH snoc.prems(2) by (auto simp: same_frame_def)
  note R = remove_route_wf[OF wf leaf, of g]
  show ?case
  proof (cases "map_of nxt g = None")
    case True
    then have "foldl (drop_missing leaf nxt) m (fs @ [g]) = remove_route g leaf ?m1"
      by (simp add: drop_missing_def)
    moreover have "cap_table (remove_route g leaf ?m1) =
        (cap_table m)(leaf := (\<lambda>f. if f \<in> set (fs @ [g]) \<and> map_of nxt f = None then None else cap_table m leaf f))"
      using IH True by (auto simp: R(2) fun_eq_iff)
    ultimately show ?thesis
      using R(1,3) IH same_frame_trans by metis
  next
    case False
    then show ?thesis
      using IH by (auto simp: drop_missing_def fun_eq_iff)
  qed
qed simp

text \<open>The last lines of both updates, from a model whose frame is that of \<open>m\<close>.\<close>

lemma publish_changes_wf:
  assumes wf: "capacity_wf {} m" and p: "publish_changes h m = (res, m')"
  shows "capacity_wf {} m'" "cap_table m' = cap_table m" "same_frame m' m" "am_active m' \<longrightarrow> am_dirtyCells m' = []"
    and "am_active m \<Longrightarrow> res \<noteq> PublishPicker \<Longrightarrow> \<not> h"
proof -
  obtain b mc where c: "commit m = (b, mc)"
    by fastforce
  note C = commit_wf[OF wf c]
  have "capacity_wf {} m' \<and> cap_table m' = cap_table m \<and> same_frame m' m \<and> (am_active m' \<longrightarrow> am_dirtyCells m' = []) \<and>
      (am_active m \<longrightarrow> res \<noteq> PublishPicker \<longrightarrow> \<not> h)"
  proof (cases "am_active m")
    case True
    then have "m' = mc" "res = update_result h b"
      using p c by (simp_all add: publish_changes_def)
    then show ?thesis
      using C by (simp add: cap_table_def fun_eq_iff update_result_def)
  next
    case False
    then show ?thesis
      using p wf by (simp add: publish_changes_def)
  qed
  then show "capacity_wf {} m'" "cap_table m' = cap_table m" "same_frame m' m" "am_active m' \<longrightarrow> am_dirtyCells m' = []"
    and "am_active m \<Longrightarrow> res \<noteq> PublishPicker \<Longrightarrow> \<not> h"
    by blast+
qed

text \<open>A model that differs in the health of its leaves only.\<close>

lemma capacity_health:
  assumes "setHealthy i h m = (c, m1)"
  shows "capacity_wf X m1 = capacity_wf X m" "cap_table m1 = cap_table m" "am_byLeaf m1 = am_byLeaf m"
    "am_active m1 = am_active m" "am_dirtyCells m1 = am_dirtyCells m" "leaf_functions k m1 = leaf_functions k m"
    "by_leaf_ok m1 = by_leaf_ok m"
proof -
  have m1: "m1 = m\<lparr>mb_healthy := AList.update i h (mb_healthy m)\<rparr>"
    using assms by (simp add: setHealthy_def)
  show "capacity_wf X m1 = capacity_wf X m" "am_byLeaf m1 = am_byLeaf m" "am_active m1 = am_active m" "am_dirtyCells m1 = am_dirtyCells m"
    "leaf_functions k m1 = leaf_functions k m"
    by (simp_all add: m1 capacity_wf_def cells_wf_def dirty_wf_def published_wf_def published_table_def leaf_functions_def)
  show "cap_table m1 = cap_table m"
    by (rule cap_table_cong) (simp_all add: m1)
  then show "by_leaf_ok m1 = by_leaf_ok m"
    by (simp add: m1 by_leaf_ok_def leaf_functions_def)
qed

text \<open>What an update must establish; \<open>view\<close> is the new row of the leaf.\<close>

definition capacity_step :: "u64 \<Rightarrow> bool \<Rightarrow> (u64 \<rightharpoonup> u64) \<Rightarrow> availableCapacityModel \<Rightarrow> UpdateResult \<Rightarrow> availableCapacityModel \<Rightarrow> bool" where
  "capacity_step i h view m res m' \<longleftrightarrow>
     capacity_inv m' \<and> mb_topology m' = mb_topology m \<and> leaf_healthy m' = (leaf_healthy m)(i := h) \<and> am_active m' = am_active m \<and>
     (\<forall>leaf. cap_table m' leaf = (if map_of (tp_index (mb_topology m)) i = Some leaf then view else cap_table m leaf)) \<and>
     (am_active m \<longrightarrow> res \<noteq> PublishPicker \<longrightarrow> leaf_healthy m i = h)"

lemma by_leaf_row:
  assumes t: "topology_ok (mb_topology m)" and bl: "by_leaf_ok m" and i: "map_of (tp_index (mb_topology m)) i = Some leaf"
    and row: "cap_table m' = (cap_table m)(leaf := view)" and top: "mb_topology m' = mb_topology m"
    and own: "\<And>f. map_of (leaf_functions i m') f = None \<longleftrightarrow> view f = None"
    and other: "\<And>k. k \<noteq> i \<Longrightarrow> leaf_functions k m' = leaf_functions k m"
  shows "by_leaf_ok m'"
  unfolding by_leaf_ok_def
proof (intro allI impI)
  fix k l f
  assume k: "map_of (tp_index (mb_topology m')) k = Some l"
  show "map_of (leaf_functions k m') f = None \<longleftrightarrow> cap_table m' l f = None"
  proof (cases "k = i")
    case True
    then show ?thesis
      using k i own[of f] by (simp add: top row)
  next
    case False
    then have "l \<noteq> leaf"
      using t k i topology_slot[of "mb_topology m"] by (metis top)
    then show ?thesis
      using bl k False other by (simp add: by_leaf_ok_def row top)
  qed
qed

lemma ReplaceLeaf_capacity:
  assumes inv: "capacity_inv m" and r: "ReplaceLeaf_availableCapacity order s m = (res, m')"
  shows "capacity_step (ls_LeafID s) (ls_HealthyWorkers s > 0) (replace_view Map.empty (ls_Capacities s)) m res m'"
proof -
  let ?i = "ls_LeafID s" and ?h = "ls_HealthyWorkers s > 0" and ?v = "replace_view Map.empty (ls_Capacities s)"
  obtain c m1 where s: "setHealthy ?i ?h m = (c, m1)"
    by fastforce
  note H = setHealthy_fields[OF s] and K = capacity_health[OF s]
  show ?thesis
  proof (cases "map_of (tp_index (mb_topology m)) ?i")
    case None
    then have "m' = m1" "res = (if c then PublishPicker else NoChange)"
      using r by (simp_all add: ReplaceLeaf_availableCapacity_def s H(1))
    then show ?thesis
      using inv None H K by (auto simp: capacity_step_def capacity_inv_def)
  next
    case (Some leaf)
    have lt: "leaf < length (tp_leaves (mb_topology m1))"
      using inv topology_slot[OF _ Some] by (simp add: capacity_inv_def H(1))
    obtain nxt m2 where l: "foldl (replace_capacity leaf) ([], m1) (ls_Capacities s) = (nxt, m2)"
      by fastforce
    have R: "capacity_wf {} m2" "same_frame m2 m1"
      "cap_table m2 = (cap_table m)(leaf := replace_view (cap_table m leaf) (ls_Capacities s))"
      "\<And>f. map_of nxt f = None \<longleftrightarrow> ?v f = None"
      using replace_loop[OF _ lt l] inv by (auto simp: capacity_inv_def K)
    define fs where "fs = map_range order (leaf_functions ?i m)"
    define m3 where "m3 = foldl (drop_missing leaf nxt) m2 fs"
    have D: "capacity_wf {} m3" "same_frame m3 m2"
      "cap_table m3 = (cap_table m2)(leaf := (\<lambda>f. if f \<in> set fs \<and> map_of nxt f = None then None else cap_table m2 leaf f))"
      unfolding m3_def using drop_loop[OF R(1)] lt R(2) by (auto simp: same_frame_def)
    have fs: "f \<in> set fs \<longleftrightarrow> cap_table m leaf f \<noteq> None" for f
    proof -
      have "map_of (leaf_functions ?i m) f = None \<longleftrightarrow> cap_table m leaf f = None"
        using inv Some by (simp add: capacity_inv_def by_leaf_ok_def)
      then show ?thesis
        unfolding fs_def set_map_range map_of_eq_None_iff by metis
    qed
    have row: "cap_table m3 = (cap_table m)(leaf := ?v)"
    proof (rule ext)
      fix l
      have "(\<lambda>f. if f \<in> set fs \<and> map_of nxt f = None then None else cap_table m2 leaf f) = ?v"
      proof (rule ext)
        fix f
        show "(if f \<in> set fs \<and> map_of nxt f = None then None else cap_table m2 leaf f) = ?v f"
          using R(4)[of f] fs[of f] replace_view_from[of "cap_table m leaf" "ls_Capacities s" f] by (auto simp: R(3) split: option.splits)
      qed
      then show "cap_table m3 l = ((cap_table m)(leaf := ?v)) l"
        by (simp add: D(3)) (simp add: R(3))
    qed
    define m4 where "m4 = m3\<lparr>am_byLeaf := AList.update ?i nxt (am_byLeaf m3)\<rparr>"
    have p: "publish_changes c m4 = (res, m')"
      using r by (simp add: ReplaceLeaf_availableCapacity_def s H(1) Some l Let_def m4_def m3_def fs_def K)
    have top: "mb_topology m4 = mb_topology m" "mb_healthy m4 = mb_healthy m1" "am_active m4 = am_active m"
      "am_byLeaf m4 = AList.update ?i nxt (am_byLeaf m)"
      using D(2) R(2) H(1) K(3,4) by (simp_all add: m4_def same_frame_def)
    have wf4: "capacity_wf {} m4"
      using D(1) by (simp add: m4_def capacity_wf_def cells_wf_def dirty_wf_def published_wf_def published_table_def)
    note P = publish_changes_wf[OF wf4 p]
    have row4: "cap_table m' = (cap_table m)(leaf := ?v)"
      unfolding P(2) row[symmetric] by (rule cap_table_cong) (simp_all add: m4_def)
    have fr: "mb_topology m' = mb_topology m" "mb_healthy m' = mb_healthy m1" "am_active m' = am_active m"
      "am_byLeaf m' = AList.update ?i nxt (am_byLeaf m)"
      using P(3) top by (simp_all add: same_frame_def)
    have "by_leaf_ok m'"
      using inv R(4)
      by (intro by_leaf_row[where m = m, OF _ _ Some row4 fr(1)])
        (simp_all add: capacity_inv_def leaf_functions_def fr(4) go_map_simps)
    moreover have "leaf_healthy m' = (leaf_healthy m)(?i := ?h)"
      using H(4) fr(2) by (simp add: leaf_healthy_def fun_eq_iff)
    moreover have "\<not> c" if "am_active m" "res \<noteq> PublishPicker"
      using P(5) that top(3) by simp
    ultimately show ?thesis
      using inv P(1,4) row4 fr(1,3) Some H(3) by (auto simp: capacity_step_def capacity_inv_def)
  qed
qed

lemma apply_loop:
  assumes "topology_ok (mb_topology m)" "capacity_wf {} m" "by_leaf_ok m" "map_of (tp_index (mb_topology m)) i = Some leaf"
  shows "capacity_wf {} (foldl (apply_capacity i leaf) m cs) \<and> by_leaf_ok (foldl (apply_capacity i leaf) m cs) \<and>
     mb_topology (foldl (apply_capacity i leaf) m cs) = mb_topology m \<and> mb_healthy (foldl (apply_capacity i leaf) m cs) = mb_healthy m \<and>
     am_active (foldl (apply_capacity i leaf) m cs) = am_active m \<and>
     cap_table (foldl (apply_capacity i leaf) m cs) = (cap_table m)(leaf := apply_view (cap_table m leaf) cs)"
  using assms
proof (induction cs rule: rev_induct)
  case (snoc c cs)
  define m1 where "m1 = foldl (apply_capacity i leaf) m cs"
  note IH = snoc.IH[OF snoc.prems, folded m1_def]
  define fs where "fs = (if fc_deleted c then AList.delete (fc_function_id c) (leaf_functions i m1)
                         else AList.update (fc_function_id c) () (leaf_functions i m1))"
  define m2 where "m2 = m1\<lparr>am_byLeaf := AList.update i fs (am_byLeaf m1)\<rparr>"
  define m3 where "m3 = (if fc_deleted c then remove_route (fc_function_id c) leaf m2
                         else upsert (fc_function_id c) leaf (fc_available_concurrency c) m2)"
  have step: "foldl (apply_capacity i leaf) m (cs @ [c]) = m3"
    by (simp add: m1_def[symmetric] apply_capacity_def Let_def m3_def m2_def fs_def)
  have i: "map_of (tp_index (mb_topology m1)) i = Some leaf" and t: "topology_ok (mb_topology m1)"
    using IH snoc.prems(1,4) by auto
  have wf2: "capacity_wf {} m2" and leaf: "leaf < length (tp_leaves (mb_topology m2))"
    using IH topology_slot[OF t i]
    by (auto simp: m2_def capacity_wf_def cells_wf_def dirty_wf_def published_wf_def published_table_def)
  have tab2: "cap_table m2 = cap_table m1"
    by (rule cap_table_cong) (simp_all add: m2_def)
  have wf3: "capacity_wf {} m3" and fr: "same_frame m3 m2"
    using upsert_wf(1,3)[OF wf2 leaf] remove_route_wf(1,3)[OF wf2 leaf] by (auto simp: m3_def)
  let ?v = "\<lambda>f. if f = fc_function_id c then if fc_deleted c then None else Some (fc_available_concurrency c) else cap_table m1 leaf f"
  have row: "cap_table m3 = (cap_table m1)(leaf := ?v)"
    using upsert_wf(2)[OF wf2 leaf] remove_route_wf(2)[OF wf2 leaf] by (auto simp: m3_def tab2 fun_eq_iff)
  have frame: "mb_topology m3 = mb_topology m1" "mb_healthy m3 = mb_healthy m1" "am_active m3 = am_active m1"
    "am_byLeaf m3 = AList.update i fs (am_byLeaf m1)"
    using fr by (simp_all add: same_frame_def m2_def)
  have "by_leaf_ok m3"
  proof (rule by_leaf_row[OF t _ i row frame(1)])
    have "map_of (leaf_functions i m1) f = None \<longleftrightarrow> cap_table m1 leaf f = None" for f
      using IH i by (simp add: by_leaf_ok_def)
    then show "map_of (leaf_functions i m3) f = None \<longleftrightarrow> ?v f = None" for f
      by (simp add: leaf_functions_def frame(4) go_map_simps fs_def)
    show "leaf_functions k m3 = leaf_functions k m1" if "k \<noteq> i" for k
      using that by (simp add: leaf_functions_def frame(4) go_map_simps)
  qed (use IH in simp)
  moreover have "cap_table m3 = (cap_table m)(leaf := apply_view (cap_table m leaf) (cs @ [c]))"
    using IH by (auto simp: row fun_eq_iff)
  ultimately show ?case
    unfolding step using wf3 frame IH by metis
qed simp

lemma Apply_capacity:
  assumes inv: "capacity_inv m" and r: "Apply_availableCapacity s m = (res, m')"
    and view: "\<And>leaf. map_of (tp_index (mb_topology m)) (ls_LeafID s) = Some leaf \<Longrightarrow> view = apply_view (cap_table m leaf) (ls_Capacities s)"
  shows "capacity_step (ls_LeafID s) (ls_HealthyWorkers s > 0) view m res m'"
proof -
  let ?i = "ls_LeafID s" and ?h = "ls_HealthyWorkers s > 0"
  obtain c m1 where s: "setHealthy ?i ?h m = (c, m1)"
    by fastforce
  note H = setHealthy_fields[OF s] and K = capacity_health[OF s]
  show ?thesis
  proof (cases "map_of (tp_index (mb_topology m)) ?i")
    case None
    then have "m' = m1" "res = (if c then PublishPicker else NoChange)"
      using r by (simp_all add: Apply_availableCapacity_def s H(1))
    then show ?thesis
      using inv None H K by (auto simp: capacity_step_def capacity_inv_def)
  next
    case (Some leaf)
    define m2 where "m2 = foldl (apply_capacity ?i leaf) m1 (ls_Capacities s)"
    have L: "capacity_wf {} m2 \<and> by_leaf_ok m2 \<and> mb_topology m2 = mb_topology m1 \<and> mb_healthy m2 = mb_healthy m1 \<and>
        am_active m2 = am_active m1 \<and> cap_table m2 = (cap_table m1)(leaf := apply_view (cap_table m1 leaf) (ls_Capacities s))"
      unfolding m2_def using inv Some by (intro apply_loop) (simp_all add: capacity_inv_def H(1) K)
    have p: "publish_changes c m2 = (res, m')"
      using r by (simp add: Apply_availableCapacity_def s H(1) Some m2_def)
    note P = publish_changes_wf[OF _ p]
    have wf2: "capacity_wf {} m2"
      using L by simp
    have fr: "mb_topology m' = mb_topology m" "mb_healthy m' = mb_healthy m1" "am_active m' = am_active m" "am_byLeaf m' = am_byLeaf m2"
      using P(3)[OF wf2] L H(1) K(4) by (simp_all add: same_frame_def)
    have row: "cap_table m' = (cap_table m)(leaf := view)"
      using P(2)[OF wf2] L view[OF Some] by (simp add: K)
    have "by_leaf_ok m'"
      using L P(2)[OF wf2] by (simp add: by_leaf_ok_def leaf_functions_def fr H(1))
    moreover have "leaf_healthy m' = (leaf_healthy m)(?i := ?h)"
      using H(4) fr(2) by (simp add: leaf_healthy_def fun_eq_iff)
    moreover have "\<not> c" if "am_active m" "res \<noteq> PublishPicker"
      using P(5)[OF wf2] that L K(4) by simp
    ultimately show ?thesis
      using inv P(1,4)[OF wf2] row fr(1,3) Some H(3) by (auto simp: capacity_step_def capacity_inv_def)
  qed
qed

lemma Disconnected_capacity:
  assumes inv: "capacity_inv m" and r: "LeafDisconnected_availableCapacity i m = (res, m')"
  shows "capacity_inv m'" "mb_topology m' = mb_topology m" "leaf_healthy m' = (leaf_healthy m)(i := False)"
    "am_active m' = am_active m" "cap_table m' = cap_table m" "res \<noteq> PublishPicker \<longrightarrow> \<not> leaf_healthy m i"
proof -
  obtain c m1 where s: "setHealthy i False m = (c, m1)"
    by fastforce
  have m': "m' = m1" "res = (if c then PublishPicker else NoChange)"
    using r s by (simp_all add: LeafDisconnected_availableCapacity_def)
  note H = setHealthy_fields[OF s] and K = capacity_health[OF s]
  show "capacity_inv m'" "mb_topology m' = mb_topology m" "leaf_healthy m' = (leaf_healthy m)(i := False)"
    "am_active m' = am_active m" "cap_table m' = cap_table m" "res \<noteq> PublishPicker \<longrightarrow> \<not> leaf_healthy m i"
    using inv H K by (auto simp: m' capacity_inv_def)
qed

lemma Picker_capacity:
  assumes inv: "capacity_inv m" and p: "Picker_availableCapacity m = (p, m')"
  shows "capacity_inv m'" "mb_topology m' = mb_topology m" "leaf_healthy m' = leaf_healthy m" "am_active m'"
    "cap_table m' = cap_table m"
    "ap_leaves p = tp_leaves (mb_topology m')" "ap_healthyLeaves p = healthyLeaves m'"
    "ap_healthy p = map (\<lambda>l. leaf_healthy m' (LeafID l)) (tp_leaves (mb_topology m'))" "ap_counter p = 0"
proof -
  obtain b mc where c: "commit m = (b, mc)"
    by fastforce
  note C = commit_wf[OF _ c]
  have wf: "capacity_wf {} m"
    using inv by (simp add: capacity_inv_def)
  have m': "m' = mc\<lparr>am_active := True\<rparr>"
    using p c by (simp add: Picker_availableCapacity_def Let_def)
  have tab: "cap_table m' = cap_table m"
  proof -
    have "cap_table m' = cap_table mc"
      by (rule cap_table_cong) (simp_all add: m')
    then show ?thesis
      using C(3)[OF wf] by (simp add: cap_table_def fun_eq_iff)
  qed
  have fr: "mb_topology m' = mb_topology m" "mb_healthy m' = mb_healthy m" "am_byLeaf m' = am_byLeaf m"
    using C(4)[OF wf] by (simp_all add: m' same_frame_def)
  have "capacity_wf {} m'" "am_dirtyCells m' = []"
    using C(1,2)[OF wf]
    by (simp_all add: m' capacity_wf_def cells_wf_def dirty_wf_def published_wf_def published_table_def)
  moreover have "by_leaf_ok m'"
    using inv tab by (simp add: capacity_inv_def by_leaf_ok_def leaf_functions_def fr)
  ultimately show "capacity_inv m'"
    using inv fr by (simp add: capacity_inv_def)
  show "mb_topology m' = mb_topology m" "leaf_healthy m' = leaf_healthy m" "am_active m'" "cap_table m' = cap_table m"
    using fr tab by (simp_all add: leaf_healthy_def fun_eq_iff m')
  show "ap_leaves p = tp_leaves (mb_topology m')" "ap_healthyLeaves p = healthyLeaves m'"
    "ap_healthy p = map (\<lambda>l. leaf_healthy m' (LeafID l)) (tp_leaves (mb_topology m'))" "ap_counter p = 0"
    using p c by (auto simp: Picker_availableCapacity_def Let_def m')
qed

subsection \<open>Requests\<close>

text \<open>The picker that a model has published last.\<close>

definition capacity_current :: "availableCapacityPicker \<Rightarrow> availableCapacityModel \<Rightarrow> bool" where
  "capacity_current p m \<longleftrightarrow>
     am_active m \<and> ap_leaves p = tp_leaves (mb_topology m) \<and> ap_healthyLeaves p = healthyLeaves m \<and>
     ap_healthy p = map (\<lambda>l. leaf_healthy m (LeafID l)) (tp_leaves (mb_topology m))"

lemma best_scan_result:
  "foldl (best_scan up) (0, 0) rs = (best, ties) \<Longrightarrow>
     (ties = 0 \<longleftrightarrow> (\<forall>r \<in> set rs. \<not> up ! cr_leaf r)) \<and>
     (ties \<noteq> 0 \<longrightarrow> ties = length (filter (\<lambda>r. up ! cr_leaf r \<and> cr_available r = best) rs) \<and>
        (\<forall>r \<in> set rs. up ! cr_leaf r \<longrightarrow> cr_available r \<le> best))"
proof (induction rs arbitrary: best ties rule: rev_induct)
  case (snoc r rs)
  obtain b t where bt: "foldl (best_scan up) (0, 0) rs = (b, t)"
    by fastforce
  note IH = snoc.IH[OF bt]
  have step: "best_scan up (b, t) r = (best, ties)"
    using snoc.prems bt by simp
  consider (down) "\<not> up ! cr_leaf r" | (new) "up ! cr_leaf r" "t = 0 \<or> cr_available r > b"
    | (tie) "up ! cr_leaf r" "t \<noteq> 0" "cr_available r = b" | (less) "up ! cr_leaf r" "t \<noteq> 0" "cr_available r < b"
    by force
  then show ?case
  proof cases
    case down
    then have "best = b" "ties = t"
      using step by (auto simp: best_scan_def)
    then show ?thesis
      using IH down by auto
  next
    case new
    then have e: "best = cr_available r" "ties = 1"
      using step by (auto simp: best_scan_def)
    have "\<forall>x \<in> set rs. up ! cr_leaf x \<longrightarrow> cr_available x < cr_available r"
      using IH new(2) by fastforce
    then have "filter (\<lambda>x. up ! cr_leaf x \<and> cr_available x = best) rs = []" "\<forall>x \<in> set rs. up ! cr_leaf x \<longrightarrow> cr_available x \<le> best"
      by (auto simp: e filter_empty_conv)
    then show ?thesis
      using new(1) e by auto
  next
    case tie
    then have "best = b" "ties = t + 1"
      using step by (auto simp: best_scan_def)
    then show ?thesis
      using IH tie by auto
  next
    case less
    then have "\<not> b < cr_available r" "cr_available r \<noteq> b"
      by auto
    then have "best = b" "ties = t"
      using step less by (auto simp: best_scan_def)
    then show ?thesis
      using IH less by auto
  qed
qed simp

lemma choose_route_nth:
  "k < length (filter (\<lambda>r. up ! cr_leaf r \<and> cr_available r = best) rs) \<Longrightarrow>
     choose_route up best k rs = Some (filter (\<lambda>r. up ! cr_leaf r \<and> cr_available r = best) rs ! k)"
  by (induction rs arbitrary: k) (auto simp: nth_Cons')

text \<open>
  What a request gets: the leaf with the most available concurrency among the healthy leaves that advertise
  the function, or a healthy leaf by the hash of the function when no healthy leaf does.
\<close>

definition advertised :: "availableCapacityModel \<Rightarrow> u64 \<Rightarrow> nat \<Rightarrow> u64 \<Rightarrow> bool" where
  "advertised m fn k a \<longleftrightarrow>
     k < length (tp_leaves (mb_topology m)) \<and> leaf_healthy m (LeafID (tp_leaves (mb_topology m) ! k)) \<and> cap_table m k fn = Some a"

lemma Pick_capacity:
  assumes inv: "capacity_inv m" and cur: "capacity_current p m" and ne: "healthyLeaves m \<noteq> []"
    and pick: "Pick_availableCapacity req m p = (res, p')"
  shows "capacity_current p' m"
    and "(\<exists>k a. advertised m (FunctionID req) k a \<and> (\<forall>k' a'. advertised m (FunctionID req) k' a' \<longrightarrow> a' \<le> a) \<and>
            res = Inr ((tp_leaves (mb_topology m) ! k)\<lparr>target_reason := ReasonAvailableCapacity\<rparr>)) \<or>
         (\<forall>k a. \<not> advertised m (FunctionID req) k a) \<and>
         (\<exists>t \<in> set (healthyLeaves m). res = Inr (t\<lparr>target_reason := ReasonColdCacheFallback\<rparr>))"
proof -
  let ?fn = "FunctionID req" and ?up = "ap_healthy p" and ?n = "length (tp_leaves (mb_topology m))"
  let ?rs = "cell_routes m ?fn"
  have wf: "capacity_wf {} m" and top: "topology_ok (mb_topology m)" and clean: "am_dirtyCells m = []"
    using inv cur by (auto simp: capacity_inv_def capacity_current_def)
  note ok = cell_routes_ok[OF wf, of ?fn]
  have P: "ap_leaves p = tp_leaves (mb_topology m)" "ap_healthyLeaves p = healthyLeaves m"
    "k < ?n \<Longrightarrow> ?up ! k = leaf_healthy m (LeafID (tp_leaves (mb_topology m) ! k))" for k
    using cur by (auto simp: capacity_current_def)
  have adv: "advertised m ?fn (cr_leaf r) (cr_available r)" if "r \<in> set ?rs" "?up ! cr_leaf r" for r
    using that ok route_map_SomeI[OF ok] P(3)[of "cr_leaf r"] by (auto simp: advertised_def cap_table_def routes_ok_def)
  have adv': "\<exists>r \<in> set ?rs. ?up ! cr_leaf r \<and> cr_leaf r = k \<and> cr_available r = a" if "advertised m ?fn k a" for k a
    using that P(3)[of k] route_map_SomeD[of ?rs k a] by (auto simp: advertised_def cap_table_def)
  have cold: "\<exists>t \<in> set (healthyLeaves m). coldFallback ?fn p = t\<lparr>target_reason := ReasonColdCacheFallback\<rparr>"
    using hash_pick_in[OF length_healthyLeaves[OF top] ne] by (auto simp: coldFallback_def P(2))
  obtain best ties where bt: "foldl (best_scan ?up) (0, 0) ?rs = (best, ties)"
    by fastforce
  note B = best_scan_result[OF bt]
  have res: "(res, p') = (if ties = 0 then (Inr (coldFallback ?fn p), p)
      else case choose_route ?up best (unat (ap_counter p mod of_nat ties)) ?rs of
             Some route \<Rightarrow> (Inr ((ap_leaves p ! cr_leaf route)\<lparr>target_reason := ReasonAvailableCapacity\<rparr>), p\<lparr>ap_counter := ap_counter p + 1\<rparr>)
           | None \<Rightarrow> (Inr (coldFallback ?fn p), p\<lparr>ap_counter := ap_counter p + 1\<rparr>))"
    using pick ne bt by (auto simp: Pick_availableCapacity_def P(2) published_routes_clean[OF wf clean] Let_def split: if_splits)
  show "capacity_current p' m"
    using cur res by (auto simp: capacity_current_def split: if_splits option.splits)
  show "(\<exists>k a. advertised m ?fn k a \<and> (\<forall>k' a'. advertised m ?fn k' a' \<longrightarrow> a' \<le> a) \<and>
            res = Inr ((tp_leaves (mb_topology m) ! k)\<lparr>target_reason := ReasonAvailableCapacity\<rparr>)) \<or>
         (\<forall>k a. \<not> advertised m ?fn k a) \<and>
         (\<exists>t \<in> set (healthyLeaves m). res = Inr (t\<lparr>target_reason := ReasonColdCacheFallback\<rparr>))"
  proof (cases "ties = 0")
    case True
    then have "res = Inr (coldFallback ?fn p)" "\<forall>k a. \<not> advertised m ?fn k a"
      using res B adv' by auto
    then show ?thesis
      using cold by metis
  next
    case False
    let ?F = "filter (\<lambda>r. ?up ! cr_leaf r \<and> cr_available r = best) ?rs" and ?k = "unat (ap_counter p mod of_nat ties)"
    have t: "ties = length ?F" and max: "\<forall>r \<in> set ?rs. ?up ! cr_leaf r \<longrightarrow> cr_available r \<le> best"
      using B False by auto
    have "length ?rs = length (map cr_leaf ?rs)" "distinct (map cr_leaf ?rs)" "set (map cr_leaf ?rs) \<subseteq> {..<?n}"
      using ok by (auto simp: routes_ok_def strict_sorted_iff)
    then have "length ?rs \<le> ?n"
      by (metis card_lessThan card_mono distinct_card finite_lessThan)
    moreover have "length ?F \<le> length ?rs"
      by (rule length_filter_le)
    moreover have "?n < 2 ^ 63"
      using top by (simp add: topology_ok_def)
    ultimately have "ties < 2 ^ 63"
      unfolding t by linarith
    then have "ties < 2 ^ 64"
      by simp
    then have k: "?k < length ?F"
      using unat_mod_less[of ties] False t by simp
    define r where "r = ?F ! ?k"
    have "r \<in> set ?F"
      unfolding r_def using k by (rule nth_mem)
    then have r: "r \<in> set ?rs" "?up ! cr_leaf r" "cr_available r = best"
      by auto
    have "res = Inr ((tp_leaves (mb_topology m) ! cr_leaf r)\<lparr>target_reason := ReasonAvailableCapacity\<rparr>)"
      using res False choose_route_nth[OF k] P(1) by (simp add: r_def)
    moreover have "a' \<le> cr_available r" if "advertised m ?fn k' a'" for k' a'
      using adv'[OF that] max r(3) by auto
    ultimately show ?thesis
      using adv[OF r(1,2)] by blast
  qed
qed

end
