(* ===== verification/Routing_Engine.thy ===== *)
theory Routing_Engine
  imports Routing_Capacity Core_Types
begin

text \<open>
  The routing engine and controller of the ingress, \<^verbatim>\<open>routing.go\<close>, \<^verbatim>\<open>model.go\<close>, \<^verbatim>\<open>needs.go\<close> and \<^verbatim>\<open>controller.go\<close>
  of \<^verbatim>\<open>pkg/ingress/routing\<close>, with \<^verbatim>\<open>ApplyPlatformConfig\<close> of \<^verbatim>\<open>pkg/ingress/bootstrap.go\<close>.

  A model is one of the eight models of policies; the methods of the interface \<^verbatim>\<open>routingModel\<close> select by its
  constructor.  The controller holds the engine, the model and the goroutines that read the streams of the
  leaves.  Each section under the mutex, each request and each step of a goroutine between them is one event.
  Dialling and the transport are not modelled: a stream delivers arbitrary frames and may end at any time.
\<close>

subsection \<open>Policies\<close>

datatype routingPolicy =
    PRandom u64 | PRoundRobin | PConsistentHashing | PBoundedLoads float64 int | PRandomJump float64 int
  | PChrlu chrluPolicy | PLeastLoaded | PAvailableCapacity

definition chrlu_latencies :: "FunctionLatencyEstimate list \<Rightarrow> (u64, latencyEstimate) gomap" where
  "chrlu_latencies es =
     foldl (\<lambda>m e. if le_cold_time_ms e > 0 \<and> le_warm_time_ms e > 0
                  then AList.update (le_function_id e) \<lparr>coldMS = le_cold_time_ms e, warmMS = le_warm_time_ms e\<rparr> m else m) [] es"

fun newRoutingPolicy :: "routing_policy option \<Rightarrow> routingPolicy option" where
  "newRoutingPolicy (Some RandomPolicy) = Some (PRandom 1)"
| "newRoutingPolicy (Some RoundRobinPolicy) = Some PRoundRobin"
| "newRoutingPolicy (Some ConsistentHashingPolicy) = Some PConsistentHashing"
| "newRoutingPolicy (Some (BoundedLoadsRouting p)) = Some (PBoundedLoads (bl_bound p) (bl_max_chain_len p))"
| "newRoutingPolicy (Some (RjCh p)) = Some (PRandomJump (rj_bound p) (rj_max_jumps p))"
| "newRoutingPolicy (Some (ChRlu p)) =
     Some (PChrlu
       \<lparr>cr_bound = ru_bound p, cr_maxBound = ru_max_bound p, cr_coldTimeMS = ru_cold_time_ms p, cr_warmTimeMS = ru_warm_time_ms p,
        cr_popularIATMS = ru_popular_iat_ms p, cr_noiseStddev = ru_noise_stddev p, cr_maxChainLen = ru_max_chain_len p,
        cr_samplePercent = ru_sample_percent p, cr_latencies = chrlu_latencies (ru_latency_estimates p),
        cr_heartbeatSeconds = ru_heartbeat_seconds p\<rparr>)"
| "newRoutingPolicy (Some LeastLoadedPolicy) = Some PLeastLoaded"
| "newRoutingPolicy (Some AvailableCapacityPolicy) = Some PAvailableCapacity"
| "newRoutingPolicy None = None"

text \<open>The stable names of policies and of the branches a picker takes.\<close>

fun RoutingPolicyName :: "routing_policy option \<Rightarrow> string" where
  "RoutingPolicyName (Some RandomPolicy) = ''random''"
| "RoutingPolicyName (Some RoundRobinPolicy) = ''round-robin''"
| "RoutingPolicyName (Some ConsistentHashingPolicy) = ''consistent-hashing''"
| "RoutingPolicyName (Some (BoundedLoadsRouting p)) = ''bounded-loads''"
| "RoutingPolicyName (Some (RjCh p)) = ''rj-ch''"
| "RoutingPolicyName (Some (ChRlu p)) = ''ch-rlu''"
| "RoutingPolicyName (Some LeastLoadedPolicy) = ''least-loaded''"
| "RoutingPolicyName (Some AvailableCapacityPolicy) = ''available-capacity''"
| "RoutingPolicyName None = ''''"

fun Reason_String :: "RouteReason \<Rightarrow> string" where
  "Reason_String ReasonRandom = ''random''"
| "Reason_String ReasonRoundRobin = ''round-robin''"
| "Reason_String ReasonConsistentHashingHome = ''consistent-hashing-home''"
| "Reason_String ReasonBoundedLoadsHome = ''bounded-loads-home''"
| "Reason_String ReasonBoundedLoadsForwarded = ''bounded-loads-forwarded''"
| "Reason_String ReasonBoundedLoadsLeastLoaded = ''bounded-loads-least-loaded''"
| "Reason_String ReasonRJCHHome = ''rj-ch-home''"
| "Reason_String ReasonRJCHJump = ''rj-ch-jump''"
| "Reason_String ReasonRJCHLeastLoaded = ''rj-ch-least-loaded''"
| "Reason_String ReasonCHRLUHome = ''ch-rlu-home''"
| "Reason_String ReasonCHRLUForwarded = ''ch-rlu-forwarded''"
| "Reason_String ReasonCHRLULeastLoaded = ''ch-rlu-least-loaded''"
| "Reason_String ReasonLeastLoadedLeaf = ''least-loaded''"
| "Reason_String ReasonAvailableCapacity = ''available-capacity''"
| "Reason_String ReasonColdCacheFallback = ''cold-cache-fallback''"
| "Reason_String NoReason = ''''"

lemma Reason_String_inject: "Reason_String r = Reason_String q \<Longrightarrow> r = q"
  by (cases r; cases q) simp_all

type_synonym RoutingNeeds = u32

definition NeedLeafLoad :: RoutingNeeds where "NeedLeafLoad = 1"
definition NeedAggregateInFlight :: RoutingNeeds where "NeedAggregateInFlight = 2"
definition NeedFunctionCapacity :: RoutingNeeds where "NeedFunctionCapacity = 4"

definition needs_Has :: "RoutingNeeds \<Rightarrow> RoutingNeeds \<Rightarrow> bool" where
  "needs_Has n x \<longleftrightarrow> n AND x = x"

fun Needs :: "routingPolicy \<Rightarrow> RoutingNeeds" where
  "Needs (PRandom _) = 0"
| "Needs PRoundRobin = 0"
| "Needs PConsistentHashing = 0"
| "Needs (PBoundedLoads _ _) = NeedLeafLoad"
| "Needs (PRandomJump _ _) = NeedLeafLoad"
| "Needs (PChrlu _) = NeedLeafLoad"
| "Needs PLeastLoaded = NeedAggregateInFlight"
| "Needs PAvailableCapacity = NeedFunctionCapacity"

definition routing_NeedsFor :: "routing_policy option \<Rightarrow> RoutingNeeds option" where
  "routing_NeedsFor cfg = map_option Needs (newRoutingPolicy cfg)"

subsection \<open>Models and pickers\<close>

datatype routingModel =
    RandomModel randomModel | RoundRobinModel membership | ConsistentModel consistentModel
  | BoundedLoadsModel boundedLoadsModel | RandomJumpModel boundedLoadsModel | ChrluModel chrluModel
  | LeastLoadedModel leastLoadedModel | AvailableCapacityModel availableCapacityModel

datatype routingPicker =
    RandomPicker randomPicker | RoundRobinPicker roundRobinPicker | ConsistentPicker consistentPicker
  | BoundedLoadsPicker boundedLoadsPicker | RandomJumpPicker boundedLoadsPicker | ChrluPicker boundedLoadsPicker
  | LeastLoadedPicker leastLoadedPicker | AvailableCapacityPicker availableCapacityPicker

text \<open>What the environment supplies: the clock, the conversion of large floating point numbers and the Box-Muller value.\<close>

record routing_env =
  env_conv :: "float64 \<Rightarrow> int"
  env_box :: "float64 \<Rightarrow> float64 \<Rightarrow> float64"

fun NewModel :: "routing_env \<Rightarrow> int \<Rightarrow> Topology \<Rightarrow> routingPolicy \<Rightarrow> routingModel" where
  "NewModel env now t (PRandom seed) = RandomModel (NewModel_random seed t)"
| "NewModel env now t PRoundRobin = RoundRobinModel (newMembership t)"
| "NewModel env now t PConsistentHashing = ConsistentModel (NewModel_consistent t)"
| "NewModel env now t (PBoundedLoads b n) = BoundedLoadsModel (NewModel_boundedLoads b n t)"
| "NewModel env now t (PRandomJump b n) = RandomJumpModel (NewModel_boundedLoads b n t)"
| "NewModel env now t (PChrlu p) = ChrluModel (NewModel_chrlu (env_conv env) now p t)"
| "NewModel env now t PLeastLoaded = LeastLoadedModel (NewModel_leastLoaded t)"
| "NewModel env now t PAvailableCapacity = AvailableCapacityModel (NewModel_availableCapacity t)"

fun ReplaceLeaf :: "u64 list \<Rightarrow> LeafState \<Rightarrow> routingModel \<Rightarrow> UpdateResult \<times> routingModel" where
  "ReplaceLeaf order s (RandomModel m) = apsnd RandomModel (ReplaceLeaf_random s m)"
| "ReplaceLeaf order s (RoundRobinModel m) = apsnd RoundRobinModel (ReplaceLeaf_roundRobin s m)"
| "ReplaceLeaf order s (ConsistentModel m) = apsnd ConsistentModel (ReplaceLeaf_consistent s m)"
| "ReplaceLeaf order s (BoundedLoadsModel m) = apsnd BoundedLoadsModel (ReplaceLeaf_boundedLoads s m)"
| "ReplaceLeaf order s (RandomJumpModel m) = apsnd RandomJumpModel (ReplaceLeaf_boundedLoads s m)"
| "ReplaceLeaf order s (ChrluModel m) = apsnd ChrluModel (ReplaceLeaf_boundedLoads s m)"
| "ReplaceLeaf order s (LeastLoadedModel m) = apsnd LeastLoadedModel (ReplaceLeaf_leastLoaded s m)"
| "ReplaceLeaf order s (AvailableCapacityModel m) = apsnd AvailableCapacityModel (ReplaceLeaf_availableCapacity order s m)"

text \<open>All policies but the one by available capacity treat a delta like a full frame.\<close>

fun Apply :: "u64 list \<Rightarrow> LeafState \<Rightarrow> routingModel \<Rightarrow> UpdateResult \<times> routingModel" where
  "Apply order s (AvailableCapacityModel m) = apsnd AvailableCapacityModel (Apply_availableCapacity s m)"
| "Apply order s m = ReplaceLeaf order s m"

fun LeafDisconnected :: "u64 \<Rightarrow> routingModel \<Rightarrow> UpdateResult \<times> routingModel" where
  "LeafDisconnected i (RandomModel m) = apsnd RandomModel (LeafDisconnected_random i m)"
| "LeafDisconnected i (RoundRobinModel m) = apsnd RoundRobinModel (LeafDisconnected_roundRobin i m)"
| "LeafDisconnected i (ConsistentModel m) = apsnd ConsistentModel (LeafDisconnected_consistent i m)"
| "LeafDisconnected i (BoundedLoadsModel m) = apsnd BoundedLoadsModel (LeafDisconnected_boundedLoads i m)"
| "LeafDisconnected i (RandomJumpModel m) = apsnd RandomJumpModel (LeafDisconnected_boundedLoads i m)"
| "LeafDisconnected i (ChrluModel m) = apsnd ChrluModel (LeafDisconnected_boundedLoads i m)"
| "LeafDisconnected i (LeastLoadedModel m) = apsnd LeastLoadedModel (LeafDisconnected_leastLoaded i m)"
| "LeafDisconnected i (AvailableCapacityModel m) = apsnd AvailableCapacityModel (LeafDisconnected_availableCapacity i m)"

fun Picker :: "routingModel \<Rightarrow> routingPicker \<times> routingModel" where
  "Picker (RandomModel m) = (RandomPicker (Picker_random m), RandomModel m)"
| "Picker (RoundRobinModel m) = (RoundRobinPicker (Picker_roundRobin m), RoundRobinModel m)"
| "Picker (ConsistentModel m) = map_prod ConsistentPicker ConsistentModel (Picker_consistent m)"
| "Picker (BoundedLoadsModel m) = map_prod BoundedLoadsPicker BoundedLoadsModel (Picker_boundedLoads m)"
| "Picker (RandomJumpModel m) = map_prod RandomJumpPicker RandomJumpModel (Picker_boundedLoads m)"
| "Picker (ChrluModel m) = map_prod ChrluPicker ChrluModel (Picker_boundedLoads m)"
| "Picker (LeastLoadedModel m) = (LeastLoadedPicker (Picker_leastLoaded m), LeastLoadedModel m)"
| "Picker (AvailableCapacityModel m) = map_prod AvailableCapacityPicker AvailableCapacityModel (Picker_availableCapacity m)"

text \<open>A picker refers to the slots of the model that built it; a picker of another policy does not occur.\<close>

fun Pick ::
  "routing_env \<Rightarrow> int \<Rightarrow> RouteRequest \<Rightarrow> routingPicker \<Rightarrow> routingModel \<Rightarrow> (route_error + LeafTarget) \<times> routingPicker \<times> routingModel" where
  "Pick env now req (RandomPicker p) m = (case Pick_random p of (res, q) \<Rightarrow> (res, RandomPicker q, m))"
| "Pick env now req (RoundRobinPicker p) m = (case Pick_roundRobin p of (res, q) \<Rightarrow> (res, RoundRobinPicker q, m))"
| "Pick env now req (ConsistentPicker p) m = (Pick_consistent req p, ConsistentPicker p, m)"
| "Pick env now req (BoundedLoadsPicker p) (BoundedLoadsModel m) =
     (Pick_boundedLoads req (bm_loads m) p, BoundedLoadsPicker p, BoundedLoadsModel m)"
| "Pick env now req (RandomJumpPicker p) (RandomJumpModel m) =
     (Pick_randomJump req (bm_loads m) p, RandomJumpPicker p, RandomJumpModel m)"
| "Pick env now req (ChrluPicker p) (ChrluModel m) =
     (case Pick_chrlu (env_box env) now req p m of (res, m1) \<Rightarrow> (res, ChrluPicker p, ChrluModel m1))"
| "Pick env now req (LeastLoadedPicker p) (LeastLoadedModel m) =
     (Pick_leastLoaded (lm_inFlight m) p, LeastLoadedPicker p, LeastLoadedModel m)"
| "Pick env now req (AvailableCapacityPicker p) (AvailableCapacityModel m) =
     (case Pick_availableCapacity req m p of (res, q) \<Rightarrow> (res, AvailableCapacityPicker q, AvailableCapacityModel m))"
| "Pick env now req p m = (Inl ErrRoutingUnavailable, p, m)"

subsection \<open>Engine and controller\<close>

text \<open>
  The engine is the field \<open>rc_active\<close>.  The configured topology is an argument; a stream is known by its number.
\<close>

record RoutingController =
  rc_model :: "routingModel option"
  rc_version :: u64
  rc_serving :: bool
  rc_lastRevision :: "(u64, u64) gomap"
  rc_cancels :: "nat list"
  rc_active :: "(u64 \<times> routingPicker) option"

definition NewRoutingController :: RoutingController where
  "NewRoutingController =
     \<lparr>rc_model = None, rc_version = 0, rc_serving = False, rc_lastRevision = [], rc_cancels = [], rc_active = None\<rparr>"

definition engine_install :: "routingPicker \<Rightarrow> u64 \<Rightarrow> RoutingController \<Rightarrow> RoutingController" where
  "engine_install p v c = c\<lparr>rc_active := Some (v, p)\<rparr>"

definition engine_clear :: "RoutingController \<Rightarrow> RoutingController" where
  "engine_clear c = c\<lparr>rc_active := None\<rparr>"

text \<open>
  The model that the active picker refers to is the one of the controller: the engine is cleared before the
  model is replaced.
\<close>

definition engine_Pick ::
  "routing_env \<Rightarrow> int \<Rightarrow> RouteRequest \<Rightarrow> RoutingController \<Rightarrow> (route_error + LeafTarget) \<times> RoutingController" where
  "engine_Pick env now req c =
     (case rc_active c of
        None \<Rightarrow> (Inl ErrRoutingUnavailable, c)
      | Some (v, p) \<Rightarrow>
          (case rc_model c of
             None \<Rightarrow> (Inl ErrRoutingUnavailable, c)
           | Some m \<Rightarrow>
               (case Pick env now req p m of
                  (res, p', m') \<Rightarrow> (res, c\<lparr>rc_active := Some (v, p'), rc_model := Some m'\<rparr>))))"

definition ConfigVersion :: "RoutingController \<Rightarrow> u64" where
  "ConfigVersion c = (case rc_active c of None \<Rightarrow> 0 | Some (v, _) \<Rightarrow> v)"

text \<open>The streams to cancel, and the controller without them.\<close>

definition stopStreamsLocked :: "RoutingController \<Rightarrow> nat list \<times> RoutingController" where
  "stopStreamsLocked c = (rc_cancels c, c\<lparr>rc_cancels := []\<rparr>)"

text \<open>The first section of \<^verbatim>\<open>ApplyConfig\<close> under the mutex.\<close>

definition apply_reload ::
  "routing_env \<Rightarrow> int \<Rightarrow> Topology \<Rightarrow> routingPolicy \<Rightarrow> u64 \<Rightarrow> RoutingController \<Rightarrow> nat list \<times> RoutingController" where
  "apply_reload env now t policy v c =
     (case stopStreamsLocked (engine_clear c) of
        (stopped, c1) \<Rightarrow>
          (stopped, c1\<lparr>rc_model := Some (NewModel env now t policy), rc_version := v, rc_serving := False, rc_lastRevision := []\<rparr>))"

text \<open>Its last section: the new picker is installed.  A missing model is a nil interface, whose call panics.\<close>

definition apply_publish :: "u64 \<Rightarrow> RoutingController \<Rightarrow> RoutingController option" where
  "apply_publish v c =
     (case rc_model c of
        None \<Rightarrow> None
      | Some m \<Rightarrow> (case Picker m of (p, m') \<Rightarrow> Some (engine_install p v (c\<lparr>rc_serving := True, rc_model := Some m'\<rparr>))))"

definition Stop :: "RoutingController \<Rightarrow> nat list \<times> RoutingController" where
  "Stop c =
     (case stopStreamsLocked ((engine_clear c)\<lparr>rc_serving := False\<rparr>) of (stopped, c1) \<Rightarrow> (stopped, c1\<lparr>rc_model := None\<rparr>))"

text \<open>
  The end of \<^verbatim>\<open>onFrame\<close> and \<^verbatim>\<open>markUnhealthy\<close>: the updated model, and a new picker when the policy asks for one.
\<close>

definition republish :: "UpdateResult \<times> routingModel \<Rightarrow> RoutingController \<Rightarrow> RoutingController" where
  "republish upd c =
     (case upd of (result, m) \<Rightarrow>
        if rc_serving c \<and> result = PublishPicker
        then (case Picker m of (p, m') \<Rightarrow> engine_install p (rc_version c) (c\<lparr>rc_model := Some m'\<rparr>))
        else c\<lparr>rc_model := Some m\<rparr>)"

definition onFrame :: "u64 list \<Rightarrow> LeafState \<Rightarrow> RoutingController \<Rightarrow> bool \<times> RoutingController" where
  "onFrame order s c =
     (case rc_model c of
        None \<Rightarrow> (False, c)
      | Some m \<Rightarrow>
          if ls_ConfigVersion s \<noteq> rc_version c then (False, c)
          else if (case map_of (rc_lastRevision c) (ls_LeafID s) of None \<Rightarrow> False | Some rev' \<Rightarrow> ls_Revision s \<le> rev') then (False, c)
          else (True, republish (if ls_FullSnapshot s then ReplaceLeaf order s m else Apply order s m)
                        (c\<lparr>rc_lastRevision := AList.update (ls_LeafID s) (ls_Revision s) (rc_lastRevision c)\<rparr>)))"

definition markUnhealthy :: "u64 \<Rightarrow> u64 \<Rightarrow> RoutingController \<Rightarrow> RoutingController" where
  "markUnhealthy leafID v c =
     (case rc_model c of
        None \<Rightarrow> c
      | Some m \<Rightarrow> if v \<noteq> rc_version c then c else republish (LeafDisconnected leafID m) c)"

record RoutingStateFrame =
  rf_config_version :: u64
  rf_leaf_id :: u64
  rf_revision :: u64
  rf_full_snapshot :: bool
  rf_healthy_workers :: u32
  rf_leaf_load :: "float64 option"
  rf_aggregate_in_flight :: "u64 option"
  rf_capacities :: "FunctionCapacity list"

definition leafStateFromProto :: "RoutingStateFrame \<Rightarrow> LeafState" where
  "leafStateFromProto f =
     \<lparr>ls_ConfigVersion = rf_config_version f, ls_LeafID = rf_leaf_id f, ls_Revision = rf_revision f,
      ls_FullSnapshot = rf_full_snapshot f, ls_HealthyWorkers = rf_healthy_workers f,
      ls_LeafLoad = (case rf_leaf_load f of None \<Rightarrow> 0 | Some l \<Rightarrow> l), ls_HasLeafLoad = (rf_leaf_load f \<noteq> None),
      ls_AggregateInFlight = (case rf_aggregate_in_flight f of None \<Rightarrow> 0 | Some n \<Rightarrow> n),
      ls_HasAggregateInFlight = (rf_aggregate_in_flight f \<noteq> None), ls_Capacities = rf_capacities f\<rparr>"

subsection \<open>Goroutines\<close>

record RoutingStateProjection =
  pj_leaf_load :: bool
  pj_aggregate_in_flight :: bool
  pj_function_capacity :: bool

definition projection_of :: "RoutingNeeds \<Rightarrow> RoutingStateProjection" where
  "projection_of n =
     \<lparr>pj_leaf_load = needs_Has n NeedLeafLoad, pj_aggregate_in_flight = needs_Has n NeedAggregateInFlight,
      pj_function_capacity = needs_Has n NeedFunctionCapacity\<rparr>"

text \<open>
  A stream is in its loop, dialling, receiving, past the end of a session, about to mark its leaf, waiting for
  the backoff, or gone.  A call of \<^verbatim>\<open>ApplyConfig\<close> has to start its streams, to store their cancel functions, to
  wait for baselines, or has returned; \<open>ac_signals\<close> counts the messages in the channel of baselines.
\<close>

datatype stream_pc = StLoop | StDial | StRecv | StEnded | StMark | StBackoff | StGone

record leaf_stream =
  st_leaf :: u64
  st_version :: u64
  st_projection :: RoutingStateProjection
  st_call :: nat
  st_signaled :: bool
  st_cancelled :: bool
  st_pc :: stream_pc

datatype apply_pc = AcSpawn | AcStore | AcWait | AcReturned | AcFailed

record apply_call =
  ac_version :: u64
  ac_needs :: RoutingNeeds
  ac_streams :: "nat list"
  ac_remaining :: nat
  ac_signals :: nat
  ac_pc :: apply_pc

text \<open>The operations that the mutex puts in an order; \<open>rs_log\<close> records them.\<close>

datatype ctl_op =
    OpReload routingPolicy u64 | OpPublish u64 | OpFrame LeafState | OpMark u64 u64 | OpStop | OpPick RouteRequest

record routing_sys =
  rs_ctl :: RoutingController
  rs_streams :: "leaf_stream list"
  rs_calls :: "apply_call list"
  rs_done :: bool
  rs_log :: "ctl_op list"

definition cancel_streams :: "nat list \<Rightarrow> leaf_stream list \<Rightarrow> leaf_stream list" where
  "cancel_streams ks = update_all (st_cancelled_update (\<lambda>_. True)) ks"

definition set_stream :: "nat \<Rightarrow> (leaf_stream \<Rightarrow> leaf_stream) \<Rightarrow> routing_sys \<Rightarrow> routing_sys" where
  "set_stream k f s = s\<lparr>rs_streams := (rs_streams s)[k := f (rs_streams s ! k)]\<rparr>"

definition set_call :: "nat \<Rightarrow> (apply_call \<Rightarrow> apply_call) \<Rightarrow> routing_sys \<Rightarrow> routing_sys" where
  "set_call k f s = s\<lparr>rs_calls := (rs_calls s)[k := f (rs_calls s ! k)]\<rparr>"

text \<open>
  \<^verbatim>\<open>signal\<close> sends once.  The channel has a place for every leaf and every stream sends once, so the send never
  finds it full.
\<close>

definition signal :: "nat \<Rightarrow> routing_sys \<Rightarrow> routing_sys" where
  "signal k s =
     (let st = rs_streams s ! k in
      if st_signaled st then s
      else set_call (st_call st) (ac_signals_update (\<lambda>n. n + 1)) (set_stream k (st_signaled_update (\<lambda>_. True)) s))"

definition stream_cancelled :: "nat \<Rightarrow> routing_sys \<Rightarrow> bool" where
  "stream_cancelled k s \<longleftrightarrow> rs_done s \<or> st_cancelled (rs_streams s ! k)"

datatype stream_input = Proceed | DialOk | DialFailed | Received "u64 list" RoutingStateFrame | StreamError

definition goto :: "nat \<Rightarrow> stream_pc \<Rightarrow> routing_sys \<Rightarrow> routing_sys" where
  "goto k pc = set_stream k (st_pc_update (\<lambda>_. pc))"

text \<open>\<^verbatim>\<open>streamSession\<close> on a frame.\<close>

definition receive_frame :: "nat \<Rightarrow> u64 list \<Rightarrow> RoutingStateFrame \<Rightarrow> routing_sys \<Rightarrow> routing_sys" where
  "receive_frame k order f s =
     (if rf_leaf_id f \<noteq> st_leaf (rs_streams s ! k) then s
      else case onFrame order (leafStateFromProto f) (rs_ctl s) of
             (accepted, c) \<Rightarrow>
               let s1 = s\<lparr>rs_ctl := c, rs_log := rs_log s @ [OpFrame (leafStateFromProto f)]\<rparr>
               in if accepted \<and> rf_full_snapshot f then signal k s1 else s1)"

text \<open>One step of \<^verbatim>\<open>runLeafStream\<close> and \<^verbatim>\<open>streamSession\<close>; an input that does not fit the place is ignored.\<close>

fun stream_step :: "nat \<Rightarrow> stream_pc \<Rightarrow> stream_input \<Rightarrow> routing_sys \<Rightarrow> routing_sys" where
  "stream_step k StLoop Proceed s = (if stream_cancelled k s then goto k StGone (signal k s) else goto k StDial s)"
| "stream_step k StDial DialOk s = goto k StRecv s"
| "stream_step k StDial DialFailed s = goto k StEnded s"
| "stream_step k StRecv (Received order f) s = receive_frame k order f s"
| "stream_step k StRecv StreamError s = goto k StEnded s"
| "stream_step k StEnded Proceed s =
     (let s1 = signal k s in if stream_cancelled k s then goto k StGone s1 else goto k StMark s1)"
| "stream_step k StMark Proceed s =
     (let st = rs_streams s ! k in
      goto k StBackoff (s\<lparr>rs_ctl := markUnhealthy (st_leaf st) (st_version st) (rs_ctl s),
                          rs_log := rs_log s @ [OpMark (st_leaf st) (st_version st)]\<rparr>))"
| "stream_step k StBackoff Proceed s = (if stream_cancelled k s then goto k StGone s else goto k StLoop s)"
| "stream_step k pc inp s = s"

text \<open>The leaves that get a stream: those with a control address.\<close>

definition dialled_leaves :: "Topology \<Rightarrow> u64 list" where
  "dialled_leaves t = filter (\<lambda>i. ControlAddress t i \<noteq> '''') (Topology_IDs t)"

definition start_stream :: "nat \<Rightarrow> apply_call \<Rightarrow> u64 \<Rightarrow> leaf_stream" where
  "start_stream k ac i =
     \<lparr>st_leaf = i, st_version = ac_version ac, st_projection = projection_of (ac_needs ac), st_call = k,
      st_signaled = False, st_cancelled = False, st_pc = StLoop\<rparr>"

text \<open>
  The entry of \<^verbatim>\<open>ApplyConfig\<close>: without a policy it returns an error and changes nothing.
\<close>

definition call_apply :: "routing_env \<Rightarrow> int \<Rightarrow> Topology \<Rightarrow> routing_policy option \<Rightarrow> u64 \<Rightarrow> routing_sys \<Rightarrow> routing_sys" where
  "call_apply env now t cfg v s =
     (case newRoutingPolicy cfg of
        None \<Rightarrow> s
      | Some policy \<Rightarrow>
          (case apply_reload env now t policy v (rs_ctl s) of
             (stopped, c) \<Rightarrow>
               s\<lparr>rs_ctl := c, rs_streams := cancel_streams stopped (rs_streams s),
                 rs_calls := rs_calls s @ [\<lparr>ac_version = v, ac_needs = Needs policy, ac_streams = [], ac_remaining = 0, ac_signals = 0, ac_pc = AcSpawn\<rparr>],
                 rs_log := rs_log s @ [OpReload policy v]\<rparr>))"

text \<open>
  A step of a call that runs; \<^const>\<open>None\<close> is the panic of the last section.  The wait also ends when the context
  is done, \<open>apply_give_up\<close>; the select takes either when both are possible.
\<close>

definition apply_give_up :: "nat \<Rightarrow> routing_sys \<Rightarrow> routing_sys" where
  "apply_give_up k s =
     (if ac_pc (rs_calls s ! k) = AcWait \<and> ac_remaining (rs_calls s ! k) > 0 \<and> rs_done s
      then set_call k (ac_pc_update (\<lambda>_. AcFailed)) s else s)"

fun apply_step :: "Topology \<Rightarrow> nat \<Rightarrow> apply_pc \<Rightarrow> routing_sys \<Rightarrow> routing_sys option" where
  "apply_step t k AcSpawn s =
     (let n = length (rs_streams s); new = map (start_stream k (rs_calls s ! k)) (dialled_leaves t) in
      Some (set_call k (\<lambda>ac. ac\<lparr>ac_streams := [n..<n + length new], ac_remaining := length new, ac_pc := AcStore\<rparr>)
             (s\<lparr>rs_streams := rs_streams s @ new\<rparr>)))"
| "apply_step t k AcStore s =
     Some (set_call k (ac_pc_update (\<lambda>_. AcWait)) (s\<lparr>rs_ctl := (rs_ctl s)\<lparr>rc_cancels := ac_streams (rs_calls s ! k)\<rparr>\<rparr>))"
| "apply_step t k AcWait s =
     (let ac = rs_calls s ! k in
      if ac_remaining ac > 0 then
        if ac_signals ac > 0
        then Some (set_call k (\<lambda>ac. ac\<lparr>ac_signals := ac_signals ac - 1, ac_remaining := ac_remaining ac - 1\<rparr>) s)
        else Some s
      else case apply_publish (ac_version ac) (rs_ctl s) of
             None \<Rightarrow> None
           | Some c \<Rightarrow> Some (set_call k (ac_pc_update (\<lambda>_. AcReturned)) (s\<lparr>rs_ctl := c, rs_log := rs_log s @ [OpPublish (ac_version ac)]\<rparr>)))"
| "apply_step t k pc s = Some s"

datatype routing_event =
    CallApply int "routing_policy option" u64 | RunApply nat | GiveUpApply nat | RunStream nat stream_input | Request int RouteRequest
  | CallStop | CtxDone

fun routing_exec :: "routing_env \<Rightarrow> Topology \<Rightarrow> routing_event \<Rightarrow> routing_sys \<Rightarrow> routing_sys option" where
  "routing_exec env t (CallApply now cfg v) s = Some (call_apply env now t cfg v s)"
| "routing_exec env t (RunApply k) s = (if k < length (rs_calls s) then apply_step t k (ac_pc (rs_calls s ! k)) s else Some s)"
| "routing_exec env t (GiveUpApply k) s = Some (if k < length (rs_calls s) then apply_give_up k s else s)"
| "routing_exec env t (RunStream k inp) s =
     Some (if k < length (rs_streams s) then stream_step k (st_pc (rs_streams s ! k)) inp s else s)"
| "routing_exec env t (Request now req) s =
     (case engine_Pick env now req (rs_ctl s) of (res, c) \<Rightarrow> Some (s\<lparr>rs_ctl := c, rs_log := rs_log s @ [OpPick req]\<rparr>))"
| "routing_exec env t CallStop s =
     (case Stop (rs_ctl s) of
        (stopped, c) \<Rightarrow> Some (s\<lparr>rs_ctl := c, rs_streams := cancel_streams stopped (rs_streams s), rs_log := rs_log s @ [OpStop]\<rparr>))"
| "routing_exec env t CtxDone s = Some (s\<lparr>rs_done := True\<rparr>)"

fun routing_run :: "routing_env \<Rightarrow> Topology \<Rightarrow> routing_event list \<Rightarrow> routing_sys \<Rightarrow> routing_sys option" where
  "routing_run env t [] s = Some s"
| "routing_run env t (e # es) s = (case routing_exec env t e s of None \<Rightarrow> None | Some s' \<Rightarrow> routing_run env t es s')"

definition routing_init :: routing_sys where
  "routing_init = \<lparr>rs_ctl = NewRoutingController, rs_streams = [], rs_calls = [], rs_done = False, rs_log = []\<rparr>"

text \<open>\<^verbatim>\<open>ApplyPlatformConfig\<close> of the ingress: a document without a routing section is ignored.\<close>

definition ApplyPlatformConfig ::
  "routing_env \<Rightarrow> int \<Rightarrow> Topology \<Rightarrow> PlatformConfig option \<Rightarrow> routing_sys \<Rightarrow> routing_sys" where
  "ApplyPlatformConfig env now t cfg s =
     (case cfg of
        None \<Rightarrow> s
      | Some doc \<Rightarrow>
          (case routing doc of
             None \<Rightarrow> s
           | Some r \<Rightarrow> call_apply env now t (routing_policy r) (version doc) s))"

end
