(* ===== verification/Routing_Contract.thy ===== *)
theory Routing_Contract
  imports Routing_Engine
begin

text \<open>
  What the routing of the ingress promises.  The specification \<open>router_spec\<close> keeps what the leaves reported: health,
  load, requests in flight and advertised capacity.  \<open>answer_ok\<close> says which leaf each policy may choose from it.  The
  locale \<open>routing_interface\<close> is the contract between the controller and a policy; the eight policies
  satisfy it.
\<close>

subsection \<open>Specification\<close>

record router_spec =
  sp_policy :: "routingPolicy option"
  sp_version :: u64
  sp_serving :: bool
  sp_health :: "u64 \<Rightarrow> bool"
  sp_last :: "u64 \<rightharpoonup> u64"
  sp_rows :: "u64 \<Rightarrow> u64 \<rightharpoonup> u64"
  sp_load :: "u64 \<Rightarrow> float64"
  sp_inFlight :: "u64 \<Rightarrow> u64"

definition spec_init :: router_spec where
  "spec_init =
     \<lparr>sp_policy = None, sp_version = 0, sp_serving = False, sp_health = (\<lambda>_. False), sp_last = Map.empty,
      sp_rows = (\<lambda>_. Map.empty), sp_load = (\<lambda>_. 0), sp_inFlight = (\<lambda>_. 0)\<rparr>"

text \<open>What an accepted frame says about its leaf.\<close>

definition spec_state :: "LeafState \<Rightarrow> router_spec \<Rightarrow> router_spec" where
  "spec_state s sp =
     (let i = ls_LeafID s in
      sp\<lparr>sp_health := (sp_health sp)(i := ls_HealthyWorkers s > 0),
         sp_rows := (sp_rows sp)(i := (if ls_FullSnapshot s then replace_view Map.empty (ls_Capacities s)
                                       else apply_view (sp_rows sp i) (ls_Capacities s))),
         sp_load := (if ls_FullSnapshot s \<or> ls_HasLeafLoad s then (sp_load sp)(i := ls_LeafLoad s) else sp_load sp),
         sp_inFlight := (if ls_FullSnapshot s \<or> ls_HasAggregateInFlight s
                         then (sp_inFlight sp)(i := ls_AggregateInFlight s) else sp_inFlight sp)\<rparr>)"

definition spec_down :: "u64 \<Rightarrow> router_spec \<Rightarrow> router_spec" where
  "spec_down i sp = sp\<lparr>sp_health := (sp_health sp)(i := False)\<rparr>"

definition spec_fresh :: "LeafState \<Rightarrow> router_spec \<Rightarrow> bool" where
  "spec_fresh s sp \<longleftrightarrow>
     sp_policy sp \<noteq> None \<and> ls_ConfigVersion s = sp_version sp \<and>
     (case sp_last sp (ls_LeafID s) of None \<Rightarrow> True | Some rev' \<Rightarrow> rev' < ls_Revision s)"

fun spec_step :: "ctl_op \<Rightarrow> router_spec \<Rightarrow> router_spec" where
  "spec_step (OpReload p v) sp = spec_init\<lparr>sp_policy := Some p, sp_version := v\<rparr>"
| "spec_step (OpPublish v) sp = sp\<lparr>sp_serving := True\<rparr>"
| "spec_step (OpFrame s) sp =
     (if spec_fresh s sp then (spec_state s sp)\<lparr>sp_last := (sp_last sp)(ls_LeafID s \<mapsto> ls_Revision s)\<rparr> else sp)"
| "spec_step (OpMark i v) sp = (if sp_policy sp \<noteq> None \<and> v = sp_version sp then spec_down i sp else sp)"
| "spec_step OpStop sp = sp\<lparr>sp_policy := None, sp_serving := False\<rparr>"
| "spec_step (OpPick req) sp = sp"

definition spec_run :: "ctl_op list \<Rightarrow> router_spec" where
  "spec_run ops = foldl (\<lambda>sp op. spec_step op sp) spec_init ops"

definition up_leaves :: "Topology \<Rightarrow> router_spec \<Rightarrow> LeafTarget list" where
  "up_leaves t sp = filter (\<lambda>l. sp_health sp (LeafID l)) (tp_leaves t)"

definition up_ring :: "Topology \<Rightarrow> router_spec \<Rightarrow> Ring" where
  "up_ring t sp = NewRing (filter (sp_health sp) (Topology_IDs t))"

text \<open>The choice \<open>i\<close> with its reason, per policy.\<close>

fun policy_answer :: "Topology \<Rightarrow> router_spec \<Rightarrow> u64 \<Rightarrow> routingPolicy \<Rightarrow> u64 \<Rightarrow> RouteReason \<Rightarrow> bool" where
  "policy_answer t sp fid (PRandom seed) i reason \<longleftrightarrow> reason = ReasonRandom"
| "policy_answer t sp fid PRoundRobin i reason \<longleftrightarrow> reason = ReasonRoundRobin"
| "policy_answer t sp fid PConsistentHashing i reason \<longleftrightarrow> reason = ReasonConsistentHashingHome \<and> i = Home (up_ring t sp) fid"
| "policy_answer t sp fid (PBoundedLoads b n) i reason \<longleftrightarrow>
     (\<exists>r. ForwardBy (Some (up_ring t sp)) \<lparr>Load = sp_load sp, LeastLoadedID = None\<rparr> b n (Home (up_ring t sp) fid) = (i, r) \<and>
        reason = boundedLoadsReason r)"
| "policy_answer t sp fid (PRandomJump b n) i reason \<longleftrightarrow>
     (let home = Home (up_ring t sp) fid; bnd = NormalizeBound b in
      if sp_load sp home < bnd then i = home \<and> reason = ReasonRJCHHome
      else (reason = ReasonRJCHJump \<and> sp_load sp i < bnd) \<or>
           (reason = ReasonRJCHLeastLoaded \<and> i = LeastLoadedBy (ids (up_ring t sp)) (sp_load sp)))"
| "policy_answer t sp fid (PChrlu p) i reason \<longleftrightarrow>
     reason \<in> {ReasonCHRLUHome, ReasonCHRLUForwarded, ReasonCHRLULeastLoaded} \<and>
     (reason = ReasonCHRLUHome \<longrightarrow> i = Home (up_ring t sp) fid) \<and>
     (reason = ReasonCHRLULeastLoaded \<longrightarrow> i = LeastLoadedBy (ids (up_ring t sp)) (sp_load sp))"
| "policy_answer t sp fid PLeastLoaded i reason \<longleftrightarrow>
     reason = ReasonLeastLoadedLeaf \<and>
     (\<forall>l \<in> set (up_leaves t sp). sp_inFlight sp i < sp_inFlight sp (LeafID l) \<or>
        (sp_inFlight sp i = sp_inFlight sp (LeafID l) \<and> i \<le> LeafID l))"
| "policy_answer t sp fid PAvailableCapacity i reason \<longleftrightarrow>
     (reason = ReasonAvailableCapacity \<and>
       (\<exists>a. sp_rows sp i fid = Some a \<and> (\<forall>l \<in> set (up_leaves t sp). \<forall>b. sp_rows sp (LeafID l) fid = Some b \<longrightarrow> b \<le> a))) \<or>
     (reason = ReasonColdCacheFallback \<and> (\<forall>l \<in> set (up_leaves t sp). sp_rows sp (LeafID l) fid = None))"

text \<open>An answer to a request while the policy serves.\<close>

definition served_ok :: "Topology \<Rightarrow> router_spec \<Rightarrow> RouteRequest \<Rightarrow> route_error + LeafTarget \<Rightarrow> bool" where
  "served_ok t sp req res \<longleftrightarrow>
     (if up_leaves t sp = [] then res = Inl NoHealthyLeaves
      else \<exists>l \<in> set (up_leaves t sp). \<exists>reason. res = Inr (l\<lparr>target_reason := reason\<rparr>) \<and>
             (\<exists>p. sp_policy sp = Some p \<and> policy_answer t sp (FunctionID req) p (LeafID l) reason))"

definition answer_ok :: "Topology \<Rightarrow> router_spec \<Rightarrow> RouteRequest \<Rightarrow> route_error + LeafTarget \<Rightarrow> bool" where
  "answer_ok t sp req res \<longleftrightarrow> (if sp_serving sp then served_ok t sp req res else res = Inl ErrRoutingUnavailable)"

subsection \<open>Representation\<close>

definition member_ok :: "Topology \<Rightarrow> router_spec \<Rightarrow> 'a membership_scheme \<Rightarrow> bool" where
  "member_ok t sp m \<longleftrightarrow> mb_topology m = t \<and> leaf_healthy m = sp_health sp"

text \<open>A list of slots holds the values of the leaves in the order of the topology.\<close>

definition slots_ok :: "Topology \<Rightarrow> (u64 \<Rightarrow> 'v) \<Rightarrow> 'v list \<Rightarrow> bool" where
  "slots_ok t f vs \<longleftrightarrow> vs = map (\<lambda>l. f (LeafID l)) (tp_leaves t)"

definition hash_ring_ok :: "Topology \<Rightarrow> router_spec \<Rightarrow> Ring \<Rightarrow> Ring option \<Rightarrow> bool \<Rightarrow> bool" where
  "hash_ring_ok t sp template ring dirty \<longleftrightarrow>
     template = NewRing (Topology_IDs t) \<and> (dirty \<or> ring = None \<or> ring = Some (up_ring t sp))"

definition bounded_ok :: "Topology \<Rightarrow> router_spec \<Rightarrow> float64 \<Rightarrow> int \<Rightarrow> 'a boundedLoadsModel_scheme \<Rightarrow> bool" where
  "bounded_ok t sp b n m \<longleftrightarrow>
     member_ok t sp m \<and> slots_ok t (sp_load sp) (bm_loads m) \<and> hash_ring_ok t sp (bm_template m) (bm_ring m) (bm_dirty m) \<and>
     bm_bound m = NormalizeBound b \<and> bm_maxChainLen m = NormalizeMaxChainLen n"

fun model_ok :: "Topology \<Rightarrow> router_spec \<Rightarrow> routingModel \<Rightarrow> bool" where
  "model_ok t sp (RandomModel m) \<longleftrightarrow> member_ok t sp m \<and> (\<exists>seed. sp_policy sp = Some (PRandom seed))"
| "model_ok t sp (RoundRobinModel m) \<longleftrightarrow> member_ok t sp m \<and> sp_policy sp = Some PRoundRobin"
| "model_ok t sp (ConsistentModel m) \<longleftrightarrow>
     member_ok t sp m \<and> sp_policy sp = Some PConsistentHashing \<and> hash_ring_ok t sp (cm_template m) (cm_ring m) (cm_dirty m)"
| "model_ok t sp (BoundedLoadsModel m) \<longleftrightarrow> (\<exists>b n. sp_policy sp = Some (PBoundedLoads b n) \<and> bounded_ok t sp b n m)"
| "model_ok t sp (RandomJumpModel m) \<longleftrightarrow> (\<exists>b n. sp_policy sp = Some (PRandomJump b n) \<and> bounded_ok t sp b n m)"
| "model_ok t sp (ChrluModel m) \<longleftrightarrow> (\<exists>p. sp_policy sp = Some (PChrlu p) \<and> bounded_ok t sp (cr_bound p) (cr_maxChainLen p) m)"
| "model_ok t sp (LeastLoadedModel m) \<longleftrightarrow>
     member_ok t sp m \<and> sp_policy sp = Some PLeastLoaded \<and> slots_ok t (sp_inFlight sp) (lm_inFlight m)"
| "model_ok t sp (AvailableCapacityModel m) \<longleftrightarrow>
     member_ok t sp m \<and> sp_policy sp = Some PAvailableCapacity \<and> capacity_inv m \<and>
     (\<forall>k < length (tp_leaves t). cap_table m k = sp_rows sp (LeafID (tp_leaves t ! k)))"

fun model_active :: "routingModel \<Rightarrow> bool" where
  "model_active (AvailableCapacityModel m) = am_active m"
| "model_active m = True"

definition bounded_current :: "Topology \<Rightarrow> router_spec \<Rightarrow> float64 \<Rightarrow> int \<Rightarrow> boundedLoadsPicker \<Rightarrow> bool" where
  "bounded_current t sp b n p \<longleftrightarrow>
     p = \<lparr>bp_ring = Some (up_ring t sp), bp_ringIDs = ids (up_ring t sp), bp_ringSlots = map (leaf_slot t) (ids (up_ring t sp)),
          bp_leaves = up_leaves t sp, bp_byID = by_id (up_leaves t sp), bp_index = tp_index t,
          bp_bound = NormalizeBound b, bp_maxChainLen = NormalizeMaxChainLen n\<rparr>"

text \<open>A picker shows the present health; \<open>k\<close> bounds the number of its requests.\<close>

fun picker_current :: "Topology \<Rightarrow> router_spec \<Rightarrow> nat \<Rightarrow> routingPicker \<Rightarrow> bool" where
  "picker_current t sp k (RandomPicker p) \<longleftrightarrow> rp_leaves p = up_leaves t sp \<and> (\<exists>seed. sp_policy sp = Some (PRandom seed))"
| "picker_current t sp k (RoundRobinPicker p) \<longleftrightarrow>
     rr_leaves p = up_leaves t sp \<and> unat (rr_counter p) \<le> k \<and> sp_policy sp = Some PRoundRobin"
| "picker_current t sp k (ConsistentPicker p) \<longleftrightarrow>
     p = \<lparr>cp_ring = Some (up_ring t sp), cp_byID = by_id (up_leaves t sp), cp_order = map LeafID (up_leaves t sp)\<rparr> \<and>
     sp_policy sp = Some PConsistentHashing"
| "picker_current t sp k (BoundedLoadsPicker p) \<longleftrightarrow> (\<exists>b n. sp_policy sp = Some (PBoundedLoads b n) \<and> bounded_current t sp b n p)"
| "picker_current t sp k (RandomJumpPicker p) \<longleftrightarrow> (\<exists>b n. sp_policy sp = Some (PRandomJump b n) \<and> bounded_current t sp b n p)"
| "picker_current t sp k (ChrluPicker p) \<longleftrightarrow>
     (\<exists>q. sp_policy sp = Some (PChrlu q) \<and> bounded_current t sp (cr_bound q) (cr_maxChainLen q) p)"
| "picker_current t sp k (LeastLoadedPicker p) \<longleftrightarrow>
     p = \<lparr>lp_leaves = up_leaves t sp, lp_slots = map (\<lambda>l. leaf_slot t (LeafID l)) (up_leaves t sp)\<rparr> \<and> sp_policy sp = Some PLeastLoaded"
| "picker_current t sp k (AvailableCapacityPicker p) \<longleftrightarrow>
     ap_leaves p = tp_leaves t \<and> ap_healthyLeaves p = up_leaves t sp \<and>
     ap_healthy p = map (\<lambda>l. sp_health sp (LeafID l)) (tp_leaves t) \<and> sp_policy sp = Some PAvailableCapacity"

subsection \<open>Updates\<close>

lemma spec_init_fields [simp]:
  "sp_health spec_init = (\<lambda>_. False)" "sp_rows spec_init = (\<lambda>_. Map.empty)" "sp_load spec_init = (\<lambda>_. 0)"
  "sp_inFlight spec_init = (\<lambda>_. 0)" "sp_last spec_init = Map.empty" "\<not> sp_serving spec_init" "sp_policy spec_init = None"
  "sp_version spec_init = 0"
  by (simp_all add: spec_init_def)

lemma spec_state_fields [simp]:
  "sp_policy (spec_state s sp) = sp_policy sp" "sp_version (spec_state s sp) = sp_version sp"
  "sp_serving (spec_state s sp) = sp_serving sp" "sp_last (spec_state s sp) = sp_last sp"
  "sp_health (spec_state s sp) = (sp_health sp)(ls_LeafID s := ls_HealthyWorkers s > 0)"
  by (simp_all add: spec_state_def Let_def)

lemma spec_down_fields [simp]:
  "sp_policy (spec_down i sp) = sp_policy sp" "sp_version (spec_down i sp) = sp_version sp"
  "sp_serving (spec_down i sp) = sp_serving sp" "sp_last (spec_down i sp) = sp_last sp"
  "sp_health (spec_down i sp) = (sp_health sp)(i := False)" "sp_rows (spec_down i sp) = sp_rows sp"
  "sp_load (spec_down i sp) = sp_load sp" "sp_inFlight (spec_down i sp) = sp_inFlight sp"
  by (simp_all add: spec_down_def)

lemma member_set:
  assumes "setHealthy i h m = (c, m1)" "member_ok t sp m" "sp_health sp' = (sp_health sp)(i := h)"
  shows "member_ok t sp' m1" and "c \<longleftrightarrow> sp_health sp' \<noteq> sp_health sp"
  using setHealthy_fields[OF assms(1)] assms(2,3) by (auto simp: member_ok_def fun_upd_idem_iff)

lemma member_ok_frame [simp]:
  "member_ok t sp (bm\<lparr>bm_dirty := x1\<rparr>) = member_ok t sp bm" "member_ok t sp (bm\<lparr>bm_loads := x2\<rparr>) = member_ok t sp bm"
  "member_ok t sp (bm\<lparr>bm_ring := x3\<rparr>) = member_ok t sp bm"
  "member_ok t sp (cm\<lparr>cm_dirty := x1\<rparr>) = member_ok t sp cm" "member_ok t sp (cm\<lparr>cm_ring := x3\<rparr>) = member_ok t sp cm"
  "member_ok t sp (lm\<lparr>lm_inFlight := x4\<rparr>) = member_ok t sp lm"
  "member_ok t sp (um\<lparr>um_samples := x5\<rparr>) = member_ok t sp um" "member_ok t sp (um\<lparr>um_counter := x6\<rparr>) = member_ok t sp um"
  by (simp_all add: member_ok_def leaf_healthy_def fun_eq_iff)

lemma member_ok_cong:
  "mb_topology m' = mb_topology m \<Longrightarrow> mb_healthy m' = mb_healthy m \<Longrightarrow> member_ok t sp m' = member_ok t sp m"
  by (simp add: member_ok_def leaf_healthy_def fun_eq_iff)

lemma slots_update:
  assumes t: "topology_ok t" and s: "slots_ok t f vs" and k: "map_of (tp_index t) i = Some k"
  shows "slots_ok t (f(i := v)) (vs[k := v])" and "vs ! k = f i" and "k < length vs"
proof -
  have lt: "k < length (tp_leaves t)" and i: "LeafID (tp_leaves t ! k) = i"
    using topology_slot[OF t k] by auto
  show "vs ! k = f i" "k < length vs"
    using s lt i by (auto simp: slots_ok_def)
  have "LeafID (tp_leaves t ! j) \<noteq> i" if "j < length (tp_leaves t)" "j \<noteq> k" for j
  proof
    assume "LeafID (tp_leaves t ! j) = i"
    then have "map_of (tp_index t) i = Some j"
      using t that by (simp add: topology_ok_def)
    then show False
      using k that by simp
  qed
  then show "slots_ok t (f(i := v)) (vs[k := v])"
    using s lt i by (auto simp: slots_ok_def nth_list_update intro!: nth_equalityI)
qed

lemma slots_absent:
  assumes t: "topology_ok t" and k: "map_of (tp_index t) i = None"
  shows "slots_ok t (f(i := v)) vs = slots_ok t f vs"
proof -
  have "LeafID l \<noteq> i" if l: "l \<in> set (tp_leaves t)" for l
  proof
    assume "LeafID l = i"
    moreover obtain j where "j < length (tp_leaves t)" "tp_leaves t ! j = l"
      using l by (auto simp: in_set_conv_nth)
    ultimately have "map_of (tp_index t) i = Some j"
      using t by (simp add: topology_ok_def)
    then show False
      using k by simp
  qed
  then show ?thesis
    by (auto simp: slots_ok_def cong: map_cong)
qed

text \<open>The update of a slot in \<^verbatim>\<open>ReplaceLeaf\<close>, when the frame carries the value.\<close>

lemma slots_step:
  assumes t: "topology_ok t" and s: "slots_ok t f vs"
  shows "slots_ok t (if P then f(i := v) else f)
     (case (if P then map_of (tp_index t) i else None) of None \<Rightarrow> vs | Some k \<Rightarrow> if vs ! k \<noteq> v then vs[k := v] else vs)"
proof (cases "P \<and> map_of (tp_index t) i \<noteq> None")
  case True
  then obtain k where k: "map_of (tp_index t) i = Some k"
    by auto
  note U = slots_update(1)[OF t s k, of v]
  have "slots_ok t (f(i := v)) (if vs ! k \<noteq> v then vs[k := v] else vs)"
    using U list_update_id[of vs k] by (cases "vs ! k = v") auto
  then show ?thesis
    using True k by simp
next
  case False
  then show ?thesis
    using s slots_absent[OF t, of i f v vs] by auto
qed

text \<open>A change of health makes the ring dirty; otherwise the ring of the healthy leaves stays.\<close>

lemma hash_ring_update:
  "hash_ring_ok t sp template ring dirty \<Longrightarrow> (sp_health sp' \<noteq> sp_health sp \<longrightarrow> dirty') \<Longrightarrow> (dirty \<longrightarrow> dirty') \<Longrightarrow>
     hash_ring_ok t sp' template ring dirty'"
  by (auto simp: hash_ring_ok_def up_ring_def)

lemma bounded_replace:
  assumes t: "topology_ok t" and b: "bounded_ok t sp b n m" and r: "ReplaceLeaf_boundedLoads s m = (res, m')"
  shows "bounded_ok t (spec_state s sp) b n m'" "res \<noteq> PublishPicker \<Longrightarrow> sp_health (spec_state s sp) = sp_health sp"
proof -
  let ?i = "ls_LeafID s" and ?sp = "spec_state s sp"
  obtain c m0 where h: "setHealthy ?i (ls_HealthyWorkers s > 0) m = (c, m0)"
    by fastforce
  define m1 where "m1 = (if c then m0\<lparr>bm_dirty := True\<rparr> else m0)"
  define slot where "slot = (if ls_FullSnapshot s \<or> ls_HasLeafLoad s then map_of (tp_index t) ?i else None)"
  have M: "member_ok t ?sp m0" "c \<longleftrightarrow> sp_health ?sp \<noteq> sp_health sp"
    using member_set[OF h, of t sp ?sp] b by (simp_all add: bounded_ok_def)
  have m0: "m0 = m\<lparr>mb_healthy := AList.update ?i (ls_HealthyWorkers s > 0) (mb_healthy m)\<rparr>"
    using h by (simp add: setHealthy_def)
  have top: "mb_topology m1 = t"
    using M(1) by (simp add: m1_def member_ok_def)
  have f: "bm_loads m1 = bm_loads m" "bm_template m1 = bm_template m" "bm_ring m1 = bm_ring m" "bm_dirty m1 = (c \<or> bm_dirty m)"
    "bm_bound m1 = bm_bound m" "bm_maxChainLen m1 = bm_maxChainLen m" "member_ok t ?sp m1"
    using M(1) by (simp_all add: m1_def m0)
  have ring: "hash_ring_ok t ?sp (bm_template m) (bm_ring m) (c \<or> bm_dirty m)"
    by (rule hash_ring_update[where sp = sp and dirty = "bm_dirty m"]) (use b in \<open>simp add: bounded_ok_def\<close>, use M(2) in blast, blast)
  have loads: "slots_ok t (sp_load ?sp) (case slot of None \<Rightarrow> bm_loads m | Some k \<Rightarrow> if bm_loads m ! k \<noteq> ls_LeafLoad s then (bm_loads m)[k := ls_LeafLoad s] else bm_loads m)"
    using b slots_step[OF t, of "sp_load sp" "bm_loads m" "ls_FullSnapshot s \<or> ls_HasLeafLoad s" ?i "ls_LeafLoad s"]
    by (simp only: bounded_ok_def slot_def) (simp add: spec_state_def Let_def)
  have r': "(res, m') = (case slot of None \<Rightarrow> (update_result c False, m1)
      | Some i \<Rightarrow> if bm_loads m1 ! i \<noteq> ls_LeafLoad s
                   then (update_result c True, m1\<lparr>bm_loads := (bm_loads m1)[i := ls_LeafLoad s]\<rparr>)
                   else (update_result c False, m1))"
    using r unfolding ReplaceLeaf_boundedLoads_def h prod.case Let_def m1_def[symmetric] top slot_def[symmetric] by (rule sym)
  have m': "bm_loads m' = (case slot of None \<Rightarrow> bm_loads m | Some k \<Rightarrow> if bm_loads m ! k \<noteq> ls_LeafLoad s then (bm_loads m)[k := ls_LeafLoad s] else bm_loads m)"
    "bm_template m' = bm_template m" "bm_ring m' = bm_ring m" "bm_dirty m' = (c \<or> bm_dirty m)" "bm_bound m' = bm_bound m"
    "bm_maxChainLen m' = bm_maxChainLen m" "member_ok t ?sp m'" "res = PublishPicker \<longleftrightarrow> c"
    using r' f by (auto simp: update_result_def split: option.splits if_splits)
  show "bounded_ok t ?sp b n m'"
    using b loads ring by (simp add: bounded_ok_def m')
  show "res \<noteq> PublishPicker \<Longrightarrow> sp_health ?sp = sp_health sp"
    using m'(8) M(2) by blast
qed

lemma bounded_disconnect:
  assumes b: "bounded_ok t sp b n m" and r: "LeafDisconnected_boundedLoads i m = (res, m')"
  shows "bounded_ok t (spec_down i sp) b n m'" "res \<noteq> PublishPicker \<Longrightarrow> sp_health (spec_down i sp) = sp_health sp"
proof -
  let ?sp = "spec_down i sp"
  obtain c m0 where h: "setHealthy i False m = (c, m0)"
    by fastforce
  have M: "member_ok t ?sp m0" "c \<longleftrightarrow> sp_health ?sp \<noteq> sp_health sp"
    using member_set[OF h, of t sp ?sp] b by (simp_all add: bounded_ok_def)
  have m0: "m0 = m\<lparr>mb_healthy := AList.update i False (mb_healthy m)\<rparr>"
    using h by (simp add: setHealthy_def)
  have m': "(res, m') = (if c then (PublishPicker, m0\<lparr>bm_dirty := True\<rparr>) else (NoChange, m0))"
    using r h by (simp add: LeafDisconnected_boundedLoads_def)
  have f: "bm_loads m' = bm_loads m" "bm_template m' = bm_template m" "bm_ring m' = bm_ring m" "bm_dirty m' = (c \<or> bm_dirty m)"
    "bm_bound m' = bm_bound m" "bm_maxChainLen m' = bm_maxChainLen m" "member_ok t ?sp m'" "res = PublishPicker \<longleftrightarrow> c"
    using m' M(1) by (auto simp: m0 split: if_splits)
  have "hash_ring_ok t ?sp (bm_template m) (bm_ring m) (c \<or> bm_dirty m)"
    by (rule hash_ring_update[where sp = sp and dirty = "bm_dirty m"]) (use b in \<open>simp add: bounded_ok_def\<close>, use M(2) in blast, blast)
  then show "bounded_ok t ?sp b n m'"
    using b by (simp add: bounded_ok_def f)
  show "res \<noteq> PublishPicker \<Longrightarrow> sp_health ?sp = sp_health sp"
    using f(8) M(2) by blast
qed

lemma least_replace:
  assumes t: "topology_ok t" and b: "member_ok t sp m" "slots_ok t (sp_inFlight sp) (lm_inFlight m)"
    and r: "ReplaceLeaf_leastLoaded s m = (res, m')"
  shows "member_ok t (spec_state s sp) m'" "slots_ok t (sp_inFlight (spec_state s sp)) (lm_inFlight m')"
    "res \<noteq> PublishPicker \<Longrightarrow> sp_health (spec_state s sp) = sp_health sp"
proof -
  let ?i = "ls_LeafID s" and ?sp = "spec_state s sp" and ?P = "ls_FullSnapshot s \<or> ls_HasAggregateInFlight s"
  let ?slot = "if ?P then map_of (tp_index t) ?i else None"
  obtain c m1 where h: "setHealthy ?i (ls_HealthyWorkers s > 0) m = (c, m1)"
    by fastforce
  have M: "member_ok t ?sp m1" "c \<longleftrightarrow> sp_health ?sp \<noteq> sp_health sp"
    using member_set[OF h, of t sp ?sp] b by simp_all
  have f: "lm_inFlight m1 = lm_inFlight m" and top: "mb_topology m1 = t"
    using h M(1) by (auto simp: setHealthy_def member_ok_def)
  have r': "(case ?slot of None \<Rightarrow> (update_result c False, m1)
      | Some i \<Rightarrow> if lm_inFlight m1 ! i \<noteq> ls_AggregateInFlight s
                   then (update_result c True, m1\<lparr>lm_inFlight := (lm_inFlight m1)[i := ls_AggregateInFlight s]\<rparr>)
                   else (update_result c False, m1)) = (res, m')"
    using r unfolding ReplaceLeaf_leastLoaded_def h prod.case top .
  have m': "lm_inFlight m' = (case ?slot of None \<Rightarrow> lm_inFlight m | Some k \<Rightarrow>
        if lm_inFlight m ! k \<noteq> ls_AggregateInFlight s then (lm_inFlight m)[k := ls_AggregateInFlight s] else lm_inFlight m)"
    "member_ok t ?sp m'" "res = PublishPicker \<longleftrightarrow> c"
    using r' f M(1) by (auto simp: update_result_def split: option.splits if_splits)
  show "member_ok t ?sp m'"
    by (rule m'(2))
  show "slots_ok t (sp_inFlight ?sp) (lm_inFlight m')"
    using slots_step[OF t b(2), of ?P ?i "ls_AggregateInFlight s"] unfolding m'(1) by (simp add: spec_state_def Let_def)
  show "res \<noteq> PublishPicker \<Longrightarrow> sp_health ?sp = sp_health sp"
    using m'(3) M(2) by blast
qed

lemma plain_update:
  assumes "member_ok t sp m" "setHealthy i h m = (c, m1)" "sp_health sp' = (sp_health sp)(i := h)"
  shows "member_ok t sp' m1 \<and> ((if c then PublishPicker else NoChange) \<noteq> PublishPicker \<longrightarrow> sp_health sp' = sp_health sp)"
  using member_set[OF assms(2,1,3)] by auto

lemma consistent_update:
  assumes m: "member_ok t sp m" "hash_ring_ok t sp (cm_template m) (cm_ring m) (cm_dirty m)"
    and h: "setHealthy i h m = (c, m0)" and sp': "sp_health sp' = (sp_health sp)(i := h)"
    and r: "(if c then (PublishPicker, m0\<lparr>cm_dirty := True\<rparr>) else (NoChange, m0)) = (res, m')"
  shows "member_ok t sp' m' \<and> hash_ring_ok t sp' (cm_template m') (cm_ring m') (cm_dirty m') \<and>
    (res \<noteq> PublishPicker \<longrightarrow> sp_health sp' = sp_health sp)"
proof -
  note M = member_set[OF h m(1) sp']
  have f: "cm_template m' = cm_template m" "cm_ring m' = cm_ring m" "cm_dirty m' = (c \<or> cm_dirty m)" "member_ok t sp' m'"
    "res = PublishPicker \<longleftrightarrow> c"
    using r h M(1) by (auto simp: setHealthy_def split: if_splits)
  have "hash_ring_ok t sp' (cm_template m) (cm_ring m) (c \<or> cm_dirty m)"
    by (rule hash_ring_update[where sp = sp and dirty = "cm_dirty m"]) (rule m(2), use M(2) in blast, blast)
  then show ?thesis
    using f M(2) by auto
qed

lemma capacity_spec_step:
  assumes t: "topology_ok t" and m: "member_ok t sp m" and rows: "\<forall>k < length (tp_leaves t). cap_table m k = sp_rows sp (LeafID (tp_leaves t ! k))"
    and st: "capacity_step i h view m res m'"
    and sp': "sp_health sp' = (sp_health sp)(i := h)" "\<And>j. sp_rows sp' j = (if j = i then view else sp_rows sp j)"
  shows "member_ok t sp' m' \<and> capacity_inv m' \<and> (\<forall>k < length (tp_leaves t). cap_table m' k = sp_rows sp' (LeafID (tp_leaves t ! k))) \<and>
    am_active m' = am_active m \<and> (am_active m \<longrightarrow> res \<noteq> PublishPicker \<longrightarrow> sp_health sp' = sp_health sp)"
proof -
  have "cap_table m' k = sp_rows sp' (LeafID (tp_leaves t ! k))" if k: "k < length (tp_leaves t)" for k
  proof -
    have "map_of (tp_index t) i = Some k \<longleftrightarrow> LeafID (tp_leaves t ! k) = i"
      using t k by (auto simp: topology_ok_def)
    then show ?thesis
      using st rows k m sp'(2) by (auto simp: capacity_step_def member_ok_def)
  qed
  then show ?thesis
    using st m sp'(1) by (auto simp: capacity_step_def member_ok_def fun_upd_idem_iff)
qed

text \<open>What a frame and the end of a stream do, for every policy.\<close>

definition update_leaf :: "u64 list \<Rightarrow> LeafState \<Rightarrow> routingModel \<Rightarrow> UpdateResult \<times> routingModel" where
  "update_leaf order s m = (if ls_FullSnapshot s then ReplaceLeaf order s m else Apply order s m)"

definition update_spec :: "Topology \<Rightarrow> router_spec \<Rightarrow> router_spec \<Rightarrow> routingModel \<Rightarrow> UpdateResult \<Rightarrow> routingModel \<Rightarrow> bool" where
  "update_spec t sp sp' m res m' \<longleftrightarrow>
     model_ok t sp' m' \<and> model_active m' = model_active m \<and>
     (model_active m \<longrightarrow> res \<noteq> PublishPicker \<longrightarrow> sp_health sp' = sp_health sp)"

lemma apsnd_eq:
  "apsnd C x = (r, y) \<longleftrightarrow> (\<exists>m. x = (r, m) \<and> y = C m)" "(r, y) = apsnd C x \<longleftrightarrow> (\<exists>m. x = (r, m) \<and> y = C m)"
  by (cases x; auto)+

lemma update_leaf_plain: "(\<And>c. m \<noteq> AvailableCapacityModel c) \<Longrightarrow> update_leaf order s m = ReplaceLeaf order s m"
  by (cases m) (auto simp: update_leaf_def)

lemma capacity_rows:
  "sp_rows (spec_state s sp) j =
     (if j = ls_LeafID s then if ls_FullSnapshot s then replace_view Map.empty (ls_Capacities s) else apply_view (sp_rows sp j) (ls_Capacities s)
      else sp_rows sp j)"
  by (simp add: spec_state_def Let_def)

lemma capacity_update:
  assumes t: "topology_ok t" and m: "model_ok t sp (AvailableCapacityModel c)"
    and r: "update_leaf order s (AvailableCapacityModel c) = (res, m')"
  shows "update_spec t sp (spec_state s sp) (AvailableCapacityModel c) res m'"
proof -
  let ?i = "ls_LeafID s" and ?h = "ls_HealthyWorkers s > 0"
  let ?view = "if ls_FullSnapshot s then replace_view Map.empty (ls_Capacities s) else apply_view (sp_rows sp ?i) (ls_Capacities s)"
  have inv: "capacity_inv c" "member_ok t sp c" and rows: "\<forall>k < length (tp_leaves t). cap_table c k = sp_rows sp (LeafID (tp_leaves t ! k))"
    and p: "sp_policy sp = Some PAvailableCapacity"
    using m by auto
  obtain c' where c': "m' = AvailableCapacityModel c'"
    "(if ls_FullSnapshot s then ReplaceLeaf_availableCapacity order s c else Apply_availableCapacity s c) = (res, c')"
    using r by (auto simp: update_leaf_def apsnd_eq split: if_splits)
  have "capacity_step ?i ?h ?view c res c'"
  proof (cases "ls_FullSnapshot s")
    case True
    then show ?thesis
      using c'(2) ReplaceLeaf_capacity[OF inv(1)] by simp
  next
    case False
    have "?view = apply_view (cap_table c k) (ls_Capacities s)" if k: "map_of (tp_index (mb_topology c)) ?i = Some k" for k
      using False rows inv(2) topology_slot[OF t, of ?i k] k by (auto simp: member_ok_def)
    then show ?thesis
      using c'(2) False by (intro Apply_capacity[OF inv(1)]) simp_all
  qed
  then have "member_ok t (spec_state s sp) c' \<and> capacity_inv c' \<and>
      (\<forall>k < length (tp_leaves t). cap_table c' k = sp_rows (spec_state s sp) (LeafID (tp_leaves t ! k))) \<and>
      am_active c' = am_active c \<and> (am_active c \<longrightarrow> res \<noteq> PublishPicker \<longrightarrow> sp_health (spec_state s sp) = sp_health sp)"
    by (rule capacity_spec_step[OF t inv(2) rows]) (simp_all add: capacity_rows)
  then show ?thesis
    using p by (auto simp: update_spec_def c'(1))
qed

lemma update_leaf_ok:
  assumes t: "topology_ok t" and m: "model_ok t sp m" and r: "update_leaf order s m = (res, m')"
  shows "update_spec t sp (spec_state s sp) m res m'"
proof (cases m)
  case (AvailableCapacityModel c)
  then show ?thesis
    using capacity_update[OF t] m r by simp
next
  case (RandomModel d)
  then obtain d' where d': "ReplaceLeaf_random s d = (res, d')" "m' = RandomModel d'"
    using r update_leaf_plain[of m order s] by (auto simp: apsnd_eq)
  obtain c d1 where h: "setHealthy (ls_LeafID s) (ls_HealthyWorkers s > 0) d = (c, d1)"
    by fastforce
  have "member_ok t (spec_state s sp) d1 \<and> ((if c then PublishPicker else NoChange) \<noteq> PublishPicker \<longrightarrow> sp_health (spec_state s sp) = sp_health sp)"
    using m RandomModel by (intro plain_update[OF _ h]) auto
  then show ?thesis
    using d' h m RandomModel by (auto simp: update_spec_def ReplaceLeaf_random_def)
next
  case (RoundRobinModel d)
  then obtain d' where d': "ReplaceLeaf_roundRobin s d = (res, d')" "m' = RoundRobinModel d'"
    using r update_leaf_plain[of m order s] by (auto simp: apsnd_eq)
  obtain c d1 where h: "setHealthy (ls_LeafID s) (ls_HealthyWorkers s > 0) d = (c, d1)"
    by fastforce
  have "member_ok t (spec_state s sp) d1 \<and> ((if c then PublishPicker else NoChange) \<noteq> PublishPicker \<longrightarrow> sp_health (spec_state s sp) = sp_health sp)"
    using m RoundRobinModel by (intro plain_update[OF _ h]) auto
  then show ?thesis
    using d' h m RoundRobinModel by (auto simp: update_spec_def ReplaceLeaf_roundRobin_def)
next
  case (ConsistentModel d)
  then obtain d' where d': "ReplaceLeaf_consistent s d = (res, d')" "m' = ConsistentModel d'"
    using r update_leaf_plain[of m order s] by (auto simp: apsnd_eq)
  obtain c d1 where h: "setHealthy (ls_LeafID s) (ls_HealthyWorkers s > 0) d = (c, d1)"
    by fastforce
  have "member_ok t (spec_state s sp) d' \<and> hash_ring_ok t (spec_state s sp) (cm_template d') (cm_ring d') (cm_dirty d') \<and>
      (res \<noteq> PublishPicker \<longrightarrow> sp_health (spec_state s sp) = sp_health sp)"
    using m ConsistentModel d'(1) h by (intro consistent_update[OF _ _ h]) (auto simp: ReplaceLeaf_consistent_def)
  then show ?thesis
    using d' m ConsistentModel by (auto simp: update_spec_def)
next
  case (BoundedLoadsModel d)
  then obtain d' where d': "ReplaceLeaf_boundedLoads s d = (res, d')" "m' = BoundedLoadsModel d'"
    using r update_leaf_plain[of m order s] by (auto simp: apsnd_eq)
  show ?thesis
    using bounded_replace[OF t _ d'(1)] d'(2) m BoundedLoadsModel by (auto simp: update_spec_def)
next
  case (RandomJumpModel d)
  then obtain d' where d': "ReplaceLeaf_boundedLoads s d = (res, d')" "m' = RandomJumpModel d'"
    using r update_leaf_plain[of m order s] by (auto simp: apsnd_eq)
  show ?thesis
    using bounded_replace[OF t _ d'(1)] d'(2) m RandomJumpModel by (auto simp: update_spec_def)
next
  case (ChrluModel d)
  then obtain d' where d': "ReplaceLeaf_boundedLoads s d = (res, d')" "m' = ChrluModel d'"
    using r update_leaf_plain[of m order s] by (auto simp: apsnd_eq)
  show ?thesis
    using bounded_replace[OF t _ d'(1)] d'(2) m ChrluModel by (auto simp: update_spec_def)
next
  case (LeastLoadedModel d)
  then obtain d' where d': "ReplaceLeaf_leastLoaded s d = (res, d')" "m' = LeastLoadedModel d'"
    using r update_leaf_plain[of m order s] by (auto simp: apsnd_eq)
  show ?thesis
    using least_replace[OF t _ _ d'(1)] d'(2) m LeastLoadedModel by (auto simp: update_spec_def)
qed

lemma disconnect_ok:
  assumes t: "topology_ok t" and m: "model_ok t sp m" and r: "LeafDisconnected i m = (res, m')"
  shows "update_spec t sp (spec_down i sp) m res m'"
proof (cases m)
  case (AvailableCapacityModel d)
  then obtain d' where d': "LeafDisconnected_availableCapacity i d = (res, d')" "m' = AvailableCapacityModel d'"
    using r by (auto simp: apsnd_eq)
  have inv: "capacity_inv d"
    using m AvailableCapacityModel by simp
  note D = Disconnected_capacity[OF inv d'(1)]
  show ?thesis
    using D m d'(2) AvailableCapacityModel by (auto simp: update_spec_def member_ok_def fun_upd_idem_iff)
next
  case (RandomModel d)
  obtain c d1 where h: "setHealthy i False d = (c, d1)"
    by fastforce
  have "member_ok t (spec_down i sp) d1 \<and> ((if c then PublishPicker else NoChange) \<noteq> PublishPicker \<longrightarrow> sp_health (spec_down i sp) = sp_health sp)"
    using m RandomModel by (intro plain_update[OF _ h]) auto
  then show ?thesis
    using h m r RandomModel by (auto simp: update_spec_def ReplaceLeaf_random_def LeafDisconnected_random_def leafOnly_def)
next
  case (RoundRobinModel d)
  obtain c d1 where h: "setHealthy i False d = (c, d1)"
    by fastforce
  have "member_ok t (spec_down i sp) d1 \<and> ((if c then PublishPicker else NoChange) \<noteq> PublishPicker \<longrightarrow> sp_health (spec_down i sp) = sp_health sp)"
    using m RoundRobinModel by (intro plain_update[OF _ h]) auto
  then show ?thesis
    using h m r RoundRobinModel by (auto simp: update_spec_def ReplaceLeaf_roundRobin_def LeafDisconnected_roundRobin_def leafOnly_def)
next
  case (ConsistentModel d)
  then obtain d' where d': "LeafDisconnected_consistent i d = (res, d')" "m' = ConsistentModel d'"
    using r by (auto simp: apsnd_eq)
  obtain c d1 where h: "setHealthy i False d = (c, d1)"
    by fastforce
  have "member_ok t (spec_down i sp) d' \<and> hash_ring_ok t (spec_down i sp) (cm_template d') (cm_ring d') (cm_dirty d') \<and>
      (res \<noteq> PublishPicker \<longrightarrow> sp_health (spec_down i sp) = sp_health sp)"
    using m ConsistentModel d'(1) h
    by (intro consistent_update[OF _ _ h]) (auto simp: LeafDisconnected_consistent_def ReplaceLeaf_consistent_def leafOnly_def)
  then show ?thesis
    using d' m ConsistentModel by (auto simp: update_spec_def)
next
  case (LeastLoadedModel d)
  obtain c d1 where h: "setHealthy i False d = (c, d1)"
    by fastforce
  have "member_ok t (spec_down i sp) d1 \<and> ((if c then PublishPicker else NoChange) \<noteq> PublishPicker \<longrightarrow> sp_health (spec_down i sp) = sp_health sp)"
    using m LeastLoadedModel by (intro plain_update[OF _ h]) auto
  moreover have "lm_inFlight d1 = lm_inFlight d"
    using h by (auto simp: setHealthy_def)
  ultimately show ?thesis
    using h m r LeastLoadedModel by (auto simp: update_spec_def LeafDisconnected_leastLoaded_def)
next
  case (BoundedLoadsModel d)
  then obtain d' where d': "LeafDisconnected_boundedLoads i d = (res, d')" "m' = BoundedLoadsModel d'"
    using r by (auto simp: apsnd_eq)
  show ?thesis
    using bounded_disconnect[OF _ d'(1)] d'(2) m BoundedLoadsModel by (auto simp: update_spec_def)
next
  case (RandomJumpModel d)
  then obtain d' where d': "LeafDisconnected_boundedLoads i d = (res, d')" "m' = RandomJumpModel d'"
    using r by (auto simp: apsnd_eq)
  show ?thesis
    using bounded_disconnect[OF _ d'(1)] d'(2) m RandomJumpModel by (auto simp: update_spec_def)
next
  case (ChrluModel d)
  then obtain d' where d': "LeafDisconnected_boundedLoads i d = (res, d')" "m' = ChrluModel d'"
    using r by (auto simp: apsnd_eq)
  show ?thesis
    using bounded_disconnect[OF _ d'(1)] d'(2) m ChrluModel by (auto simp: update_spec_def)
qed

subsection \<open>Pickers\<close>

lemma member_leaves: "member_ok t sp m \<Longrightarrow> healthyLeaves m = up_leaves t sp"
  by (simp add: member_ok_def healthyLeaves_def up_leaves_def)

lemma member_top: "member_ok t sp m \<Longrightarrow> mb_topology m = t"
  by (simp add: member_ok_def)

lemma member_ring: "member_ok t sp m \<Longrightarrow> Subset (NewRing (Topology_IDs t)) (leaf_healthy m) = up_ring t sp"
  by (simp add: member_ok_def up_ring_def Subset_NewRing_aux)

lemma bounded_picker:
  assumes b: "bounded_ok t sp b n m" and p: "Picker_boundedLoads m = (p, m')"
  shows "bounded_ok t sp b n m'" "bounded_current t sp b n p"
proof -
  have M: "member_ok t sp m" and top: "mb_topology m = t"
    using b by (auto simp: bounded_ok_def member_ok_def)
  define ring where "ring = (case bm_ring m of
      Some r \<Rightarrow> if bm_dirty m then Subset (bm_template m) (leaf_healthy m) else r | None \<Rightarrow> Subset (bm_template m) (leaf_healthy m))"
  have ring: "ring = up_ring t sp"
    using b member_ring[OF M] by (auto simp: ring_def bounded_ok_def hash_ring_ok_def split: option.splits)
  have "(p, m') = (\<lparr>bp_ring = Some ring, bp_ringIDs = ids ring, bp_ringSlots = map (leaf_slot t) (ids ring),
         bp_leaves = up_leaves t sp, bp_byID = by_id (up_leaves t sp), bp_index = tp_index t,
         bp_bound = bm_bound m, bp_maxChainLen = bm_maxChainLen m\<rparr>,
       if bm_ring m = None \<or> bm_dirty m then m\<lparr>bm_ring := Some ring, bm_dirty := False\<rparr> else m)"
    using p unfolding Picker_boundedLoads_def Let_def ring_def[symmetric] member_leaves[OF M] top by (rule sym)
  then have p': "bounded_current t sp b n p" and m': "m' = (if bm_ring m = None \<or> bm_dirty m then m\<lparr>bm_ring := Some ring, bm_dirty := False\<rparr> else m)"
    using b by (simp_all add: bounded_current_def ring bounded_ok_def)
  show "bounded_ok t sp b n m'"
    using b by (auto simp: m' bounded_ok_def hash_ring_ok_def ring)
  show "bounded_current t sp b n p"
    by (rule p')
qed

lemma map_prod_eq: "(p, y) = map_prod f g x \<longleftrightarrow> (\<exists>a b. x = (a, b) \<and> p = f a \<and> y = g b)"
  "map_prod f g x = (p, y) \<longleftrightarrow> (\<exists>a b. x = (a, b) \<and> p = f a \<and> y = g b)"
  by (cases x; auto)+

lemma picker_ok:
  assumes m: "model_ok t sp m" and p: "Picker m = (p, m')"
  shows "model_ok t sp m' \<and> model_active m' \<and> picker_current t sp 0 p"
proof (cases m)
  case (ConsistentModel d)
  have M: "member_ok t sp d"
    using m ConsistentModel by simp
  have "cm_template d = NewRing (Topology_IDs t)" "cm_dirty d \<or> cm_ring d = None \<or> cm_ring d = Some (up_ring t sp)"
    using m ConsistentModel by (simp_all add: hash_ring_ok_def)
  then show ?thesis
    using p m ConsistentModel member_ring[OF M]
    by (auto simp: map_prod_eq Picker_consistent_def Let_def member_leaves[OF M] hash_ring_ok_def split: if_splits)
next
  case (BoundedLoadsModel d)
  then obtain q d' where q: "Picker_boundedLoads d = (q, d')" "p = BoundedLoadsPicker q" "m' = BoundedLoadsModel d'"
    using p by (auto simp: map_prod_eq)
  show ?thesis
    using bounded_picker[OF _ q(1)] q(2,3) m BoundedLoadsModel by auto
next
  case (RandomJumpModel d)
  then obtain q d' where q: "Picker_boundedLoads d = (q, d')" "p = RandomJumpPicker q" "m' = RandomJumpModel d'"
    using p by (auto simp: map_prod_eq)
  show ?thesis
    using bounded_picker[OF _ q(1)] q(2,3) m RandomJumpModel by auto
next
  case (ChrluModel d)
  then obtain q d' where q: "Picker_boundedLoads d = (q, d')" "p = ChrluPicker q" "m' = ChrluModel d'"
    using p by (auto simp: map_prod_eq)
  show ?thesis
    using bounded_picker[OF _ q(1)] q(2,3) m ChrluModel by auto
next
  case (AvailableCapacityModel d)
  then obtain q d' where q: "Picker_availableCapacity d = (q, d')" "p = AvailableCapacityPicker q" "m' = AvailableCapacityModel d'"
    using p by (auto simp: map_prod_eq)
  have inv: "capacity_inv d"
    using m AvailableCapacityModel by simp
  note P = Picker_capacity[OF inv q(1)]
  have M: "member_ok t sp d'"
    using m AvailableCapacityModel P(2,3) by (simp add: member_ok_def)
  show ?thesis
    using P m AvailableCapacityModel q(2,3) M member_leaves[OF M] by (auto simp: member_ok_def)
qed (use m p in \<open>auto simp: Picker_random_def Picker_roundRobin_def Picker_leastLoaded_def Let_def member_leaves member_top\<close>)

lemma replicate_slots: "slots_ok t (\<lambda>_. v) (replicate (length (tp_leaves t)) v)"
  by (simp add: slots_ok_def map_replicate_const)

lemma new_member: "leaf_healthy (newMembership t) = (\<lambda>_. False)"
  by (simp add: leaf_healthy_def newMembership_def fun_eq_iff)

lemma new_bounded:
  "bounded_ok t (spec_init\<lparr>sp_policy := p, sp_version := v\<rparr>) b n (NewModel_boundedLoads b n t)"
  by (simp add: bounded_ok_def NewModel_boundedLoads_def member_ok_def membership.extend_def newMembership_def
      leaf_healthy_def fun_eq_iff hash_ring_ok_def replicate_slots)

lemma bounded_ok_extend: "bounded_ok t sp b n (boundedLoadsModel.extend m x) = bounded_ok t sp b n m"
  by (simp add: bounded_ok_def boundedLoadsModel.extend_def member_ok_def leaf_healthy_def fun_eq_iff)

lemma new_capacity: "topology_ok t \<Longrightarrow> capacity_inv (NewModel_availableCapacity t)"
  by (simp add: NewModel_availableCapacity_def membership.extend_def newMembership_def capacity_inv_def capacity_wf_def cells_wf_def
      dirty_wf_def published_wf_def published_table_def by_leaf_ok_def leaf_functions_def cap_table_def cell_routes_def)

lemma new_model_ok:
  assumes "topology_ok t"
  shows "model_ok t (spec_init\<lparr>sp_policy := Some p, sp_version := v\<rparr>) (NewModel env now t p)"
proof (cases p)
  case (PChrlu q)
  then show ?thesis
    by (simp add: NewModel_chrlu_def bounded_ok_extend new_bounded)
next
  case PAvailableCapacity
  then show ?thesis
    using new_capacity[OF assms]
    by (simp add: NewModel_availableCapacity_def membership.extend_def newMembership_def member_ok_def leaf_healthy_def
        fun_eq_iff cap_table_def cell_routes_def)
qed (simp_all add: new_bounded NewModel_random_def NewModel_consistent_def NewModel_leastLoaded_def membership.extend_def
    newMembership_def member_ok_def leaf_healthy_def fun_eq_iff hash_ring_ok_def replicate_slots)

subsection \<open>Requests\<close>

definition router_topology :: "Topology \<Rightarrow> bool" where
  "router_topology t \<longleftrightarrow> topology_ok t \<and> sorted (Topology_IDs t)"

lemma up_ids: "set (ids (up_ring t sp)) = LeafID ` set (up_leaves t sp)"
  by (auto simp: up_ring_def up_leaves_def Topology_IDs_def)

lemma up_ids_Nil: "ids (up_ring t sp) = [] \<longleftrightarrow> up_leaves t sp = []"
  using up_ids[of t sp] by (metis image_is_empty set_empty)

lemma up_ring_wf: "ring_wf (up_ring t sp)"
  by (simp add: up_ring_def ring_wf_NewRing)

lemma up_Home: "up_leaves t sp \<noteq> [] \<Longrightarrow> Home (up_ring t sp) f \<in> set (ids (up_ring t sp))"
  using Home_in[of "filter (sp_health sp) (Topology_IDs t)" f] up_ids_Nil[of t sp] by (auto simp: up_ring_def)

lemma by_id_iff:
  "distinct (map LeafID ls) \<Longrightarrow> map_of (by_id ls) i = Some x \<longleftrightarrow> x \<in> set ls \<and> LeafID x = i"
proof (induction ls rule: rev_induct)
  case (snoc l ls)
  have "map_of (by_id (ls @ [l])) i = (if i = LeafID l then Some l else map_of (by_id ls) i)"
    by (simp add: by_id_def go_map_simps)
  moreover have "LeafID l \<notin> LeafID ` set ls"
    using snoc.prems by simp
  ultimately show ?case
    using snoc by (cases "i = LeafID l") (simp_all, metis image_eqI, metis)
qed (simp add: by_id_def)

lemma up_distinct: "topology_ok t \<Longrightarrow> distinct (map LeafID (up_leaves t sp))"
  by (auto simp: topology_ok_def Topology_IDs_def up_leaves_def intro: distinct_map_filter)

lemma by_id_up:
  "topology_ok t \<Longrightarrow> map_of (by_id (up_leaves t sp)) i = Some l \<longleftrightarrow> l \<in> set (up_leaves t sp) \<and> LeafID l = i"
  by (rule by_id_iff[OF up_distinct])

lemma served_by_id:
  assumes t: "topology_ok t" and i: "i \<in> set (ids (up_ring t sp))" and p: "sp_policy sp = Some p"
    and a: "policy_answer t sp (FunctionID req) p i reason"
  shows "served_ok t sp req (Inr (target_of (by_id (up_leaves t sp)) i reason))"
    and "map_of (by_id (up_leaves t sp)) i \<noteq> None"
proof -
  obtain l where l: "l \<in> set (up_leaves t sp)" "LeafID l = i"
    using i by (auto simp: up_ids)
  then have m: "map_of (by_id (up_leaves t sp)) i = Some l"
    using by_id_up[OF t] by simp
  then show "map_of (by_id (up_leaves t sp)) i \<noteq> None"
    by simp
  have "up_leaves t sp \<noteq> []"
    using l(1) by auto
  then show "served_ok t sp req (Inr (target_of (by_id (up_leaves t sp)) i reason))"
    unfolding served_ok_def target_of_def m using l p a by auto
qed

lemma slot_of_leaf:
  assumes t: "topology_ok t" and s: "slots_ok t f vs" and i: "i \<in> set (Topology_IDs t)"
  shows "vs ! leaf_slot t i = f i"
proof -
  obtain k where k: "k < length (tp_leaves t)" "LeafID (tp_leaves t ! k) = i"
    using i by (auto simp: Topology_IDs_def in_set_conv_nth)
  then have "map_of (tp_index t) i = Some k"
    using t by (simp add: topology_ok_def)
  then show ?thesis
    using slots_update(2)[OF t s] by (simp add: leaf_slot_def)
qed

lemma up_in_topology: "i \<in> set (ids (up_ring t sp)) \<Longrightarrow> i \<in> set (Topology_IDs t)"
  by (auto simp: up_ids up_leaves_def Topology_IDs_def)

lemma bounded_Load:
  assumes "topology_ok t" "bounded_current t sp b n p" "slots_ok t (sp_load sp) loads" "i \<in> set (ids (up_ring t sp))"
  shows "picker_Load loads p i = sp_load sp i"
  using slot_of_leaf[OF assms(1,3) up_in_topology[OF assms(4)]] assms(2)
  by (simp add: picker_Load_def bounded_current_def leaf_slot_def)

text \<open>The scan through precomputed slots is the reference scan of \<^verbatim>\<open>chbl\<close>.\<close>

lemma id_scan_best:
  "\<forall>x \<in> set (u # us). g x = f x \<Longrightarrow> foldl id_scan (u, g u) (map (\<lambda>x. (x, g x)) us) = (let r = scan_best (lighter f) u us in (r, f r))"
proof (induction us arbitrary: u)
  case (Cons x us)
  have "id_scan (u, g u) (x, g x) = (let y = if lighter f x u then x else u in (y, g y))"
    using Cons.prems by (auto simp: id_scan_def lighter_def)
  then show ?case
    using Cons.IH[of "if lighter f x u then x else u"] Cons.prems by (auto simp: scan_best_def Let_def)
qed (simp add: scan_best_def)

lemma bounded_LeastLoadedID:
  assumes t: "topology_ok t" and p: "bounded_current t sp b n p" and s: "slots_ok t (sp_load sp) loads"
  shows "picker_LeastLoadedID loads p = LeastLoadedBy (ids (up_ring t sp)) (sp_load sp)"
proof -
  let ?ids = "ids (up_ring t sp)"
  have "zip ?ids (map (\<lambda>k. loads ! k) (map (leaf_slot t) ?ids)) = map (\<lambda>i. (i, loads ! leaf_slot t i)) ?ids"
    by (simp add: zip_map2 zip_same_conv_map)
  moreover have "loads ! leaf_slot t i = sp_load sp i" if "i \<in> set ?ids" for i
    using slot_of_leaf[OF t s up_in_topology[OF that]] .
  ultimately show ?thesis
    using p id_scan_best[of _ _ "\<lambda>i. loads ! leaf_slot t i" "sp_load sp"]
    by (cases ?ids) (auto simp: picker_LeastLoadedID_def bounded_current_def Let_def)
qed

lemma walk_cong:
  "ring_wf r \<Longrightarrow> uid \<in> set (ids r) \<Longrightarrow> (\<And>u. u \<in> set (ids r) \<Longrightarrow> l u = l' u) \<Longrightarrow>
     walk left r l b step uid = walk left r l' b step uid"
  by (induction left arbitrary: step uid) (auto simp: Next_in)

lemma Normalize_idem [simp]:
  "NormalizeBound (NormalizeBound b) = NormalizeBound b" "NormalizeMaxChainLen (NormalizeMaxChainLen n) = NormalizeMaxChainLen n"
  by (auto simp: NormalizeBound_def NormalizeMaxChainLen_def DefaultBound_def DefaultMaxChainLen_def)

lemma ForwardBy_up:
  assumes ne: "up_leaves t sp \<noteq> []" and h: "home \<in> set (ids (up_ring t sp))"
    and l: "\<forall>i \<in> set (ids (up_ring t sp)). Load r i = sp_load sp i"
    and s: "LeastLoadedID r = Some (LeastLoadedBy (ids (up_ring t sp)) (sp_load sp))"
  shows "ForwardBy (Some (up_ring t sp)) r b n home = ForwardBy (Some (up_ring t sp)) \<lparr>Load = sp_load sp, LeastLoadedID = None\<rparr> b n home"
    and "ForwardBy (Some (up_ring t sp)) r b n home = (i, why) \<Longrightarrow> i \<in> set (ids (up_ring t sp))"
    and "ForwardBy (Some (up_ring t sp)) r b n home = (i, ReasonHome) \<Longrightarrow> i = home"
    and "ForwardBy (Some (up_ring t sp)) r b n home = (i, ReasonLeastLoaded) \<Longrightarrow> i = LeastLoadedBy (ids (up_ring t sp)) (sp_load sp)"
proof -
  let ?w = "walk (nat (NormalizeMaxChainLen n + 1)) (up_ring t sp) (sp_load sp) (NormalizeBound b) 0 home"
  have w: "walk (nat (NormalizeMaxChainLen n + 1)) (up_ring t sp) (Load r) (NormalizeBound b) 0 home = ?w"
    using l by (intro walk_cong[OF up_ring_wf h]) blast
  have nn: "ids (up_ring t sp) \<noteq> []"
    using ne up_ids_Nil by simp
  have F: "ForwardBy (Some (up_ring t sp)) r b n home =
      (case ?w of Some result \<Rightarrow> result | None \<Rightarrow> (LeastLoadedBy (ids (up_ring t sp)) (sp_load sp), ReasonLeastLoaded))"
    using nn by (simp add: ForwardBy_def w s split: option.split)
  show "ForwardBy (Some (up_ring t sp)) r b n home = ForwardBy (Some (up_ring t sp)) \<lparr>Load = sp_load sp, LeastLoadedID = None\<rparr> b n home"
    unfolding F using nn by (simp add: ForwardBy_def split: option.split)
  have Wk: "\<exists>k. target = (Next (up_ring t sp) ^^ k) home \<and> why' = (if k = 0 then ReasonHome else ReasonForwarded)"
    if "?w = Some (target, why')" for target why'
    using walk_Some[OF that] by auto
  show "ForwardBy (Some (up_ring t sp)) r b n home = (i, why) \<Longrightarrow> i \<in> set (ids (up_ring t sp))"
    using Wk Next_iter_in[OF up_ring_wf h] LeastLoadedBy_in[OF nn, of "sp_load sp"] by (auto simp: F split: option.splits)
  show "ForwardBy (Some (up_ring t sp)) r b n home = (i, ReasonHome) \<Longrightarrow> i = home"
    using Wk by (fastforce simp: F split: option.splits if_splits)
  show "ForwardBy (Some (up_ring t sp)) r b n home = (i, ReasonLeastLoaded) \<Longrightarrow> i = LeastLoadedBy (ids (up_ring t sp)) (sp_load sp)"
    using Wk by (fastforce simp: F split: option.splits if_splits)
qed

text \<open>What the contract asks of a request; \<open>k\<close> counts the requests of the picker.\<close>

definition pick_spec ::
  "Topology \<Rightarrow> router_spec \<Rightarrow> nat \<Rightarrow> RouteRequest \<Rightarrow> (route_error + LeafTarget) \<Rightarrow> routingPicker \<Rightarrow> routingModel \<Rightarrow> bool" where
  "pick_spec t sp k req res p' m' \<longleftrightarrow> served_ok t sp req res \<and> picker_current t sp (k + 1) p' \<and> model_ok t sp m' \<and> model_active m'"

lemma served_nth:
  assumes "i < length (up_leaves t sp)" "sp_policy sp = Some p"
    "policy_answer t sp (FunctionID req) p (LeafID (up_leaves t sp ! i)) reason"
  shows "served_ok t sp req (Inr ((up_leaves t sp ! i)\<lparr>target_reason := reason\<rparr>))"
proof -
  have "up_leaves t sp ! i \<in> set (up_leaves t sp)" "up_leaves t sp \<noteq> []"
    using assms(1) by auto
  then show ?thesis
    unfolding served_ok_def using assms(2,3) by auto
qed

lemma up_length: "topology_ok t \<Longrightarrow> length (up_leaves t sp) < 2 ^ 63"
  unfolding up_leaves_def topology_ok_def using length_filter_le le_less_trans by blast

lemma Pick_random_ok:
  assumes t: "topology_ok t" and p: "rp_leaves p = up_leaves t sp" "sp_policy sp = Some (PRandom seed)" and r: "Pick_random p = (res, p')"
  shows "served_ok t sp req res" "rp_leaves p' = up_leaves t sp"
proof -
  have "served_ok t sp req res \<and> rp_leaves p' = up_leaves t sp"
  proof (cases "up_leaves t sp = []")
    case True
    then show ?thesis
      using r p by (simp add: Pick_random_def served_ok_def)
  next
    case False
    then have "unat (hashFunctionID ((rp_counter p + 1) XOR rp_seed p) mod of_nat (length (up_leaves t sp))) < length (up_leaves t sp)"
      using up_length[OF t, of sp] by (intro unat_mod_less) auto
    then show ?thesis
      using r p False served_nth[OF _ p(2)] by (auto simp: Pick_random_def Let_def)
  qed
  then show "served_ok t sp req res" "rp_leaves p' = up_leaves t sp"
    by auto
qed

lemma unat_Suc_le: "unat (c + 1 :: u64) \<le> unat c + 1"
  by (subst unat_word_ariths) simp

lemma sint_small:
  assumes "unat (x :: u64) < 2 ^ 63"
  shows "sint x = int (unat x)"
proof -
  have a: "uint x < 2 ^ 63"
    using assms by (simp only: unat_eq_nat_uint nat_less_iff[OF uint_ge_0]) simp
  have b: "- (2 ^ 63) \<le> uint x"
    by (rule order_trans[OF _ uint_ge_0]) simp
  have "sint x = signed_take_bit 63 (uint x)"
    by (simp add: sint_uint)
  also have "\<dots> = uint x"
    by (rule signed_take_bit_int_eq_self[OF b a])
  finally show ?thesis
    by simp
qed

lemma Pick_roundRobin_ok:
  assumes t: "topology_ok t" and p: "rr_leaves p = up_leaves t sp" "unat (rr_counter p) \<le> k" "sp_policy sp = Some PRoundRobin"
    and k: "k < 2 ^ 63" and r: "Pick_roundRobin p = (res, p')"
  shows "served_ok t sp req res" "rr_leaves p' = up_leaves t sp" "unat (rr_counter p') \<le> k + 1"
proof -
  let ?n = "length (up_leaves t sp)" and ?c = "rr_counter p"
  have c: "unat (?c + 1) \<le> k + 1"
    using p(2) unat_Suc_le[of ?c] by linarith
  have s: "sint ?c = int (unat ?c)"
    using p(2) k by (intro sint_small) simp
  have "served_ok t sp req res \<and> rr_leaves p' = up_leaves t sp \<and> unat (rr_counter p') \<le> k + 1"
  proof (cases "up_leaves t sp = []")
    case True
    then show ?thesis
      using r p by (simp add: Pick_roundRobin_def served_ok_def)
  next
    case False
    have idx: "go_rem (sint (?c + 1 - 1)) (int ?n) = int (unat ?c mod ?n)"
      by (simp add: go_rem_def s zmod_int)
    have "unat ?c mod ?n < ?n"
      using False by simp
    then have "served_ok t sp req (Inr ((up_leaves t sp ! (unat ?c mod ?n))\<lparr>target_reason := ReasonRoundRobin\<rparr>))"
      by (rule served_nth[OF _ p(3)]) simp
    then show ?thesis
      using r p(1) False c idx by (auto simp: Pick_roundRobin_def Let_def)
  qed
  then show "served_ok t sp req res" "rr_leaves p' = up_leaves t sp" "unat (rr_counter p') \<le> k + 1"
    by auto
qed

lemma Pick_consistent_ok:
  assumes t: "topology_ok t" and pol: "sp_policy sp = Some PConsistentHashing"
    and p: "p = \<lparr>cp_ring = Some (up_ring t sp), cp_byID = by_id (up_leaves t sp), cp_order = map LeafID (up_leaves t sp)\<rparr>"
  shows "served_ok t sp req (Pick_consistent req p)"
proof (cases "up_leaves t sp = []")
  case True
  then show ?thesis
    by (simp add: p Pick_consistent_def served_ok_def by_id_def)
next
  case False
  let ?h = "Home (up_ring t sp) (FunctionID req)"
  note S = served_by_id[OF t up_Home[OF False] pol, of req "FunctionID req" ReasonConsistentHashingHome]
  obtain l where l: "map_of (by_id (up_leaves t sp)) ?h = Some l"
    using S(2) by auto
  then have "by_id (up_leaves t sp) \<noteq> []"
    by auto
  then show ?thesis
    using S(1) l by (simp add: p Pick_consistent_def target_of_def)
qed

lemma least_scan_best:
  "let b = foldl (least_scan vs slots) 0 [1..<Suc n] in
     b \<le> n \<and> (\<forall>j \<le> n. vs ! (slots ! b) < vs ! (slots ! j) \<or> (vs ! (slots ! b) = vs ! (slots ! j) \<and> b \<le> j))"
proof (induction n)
  case (Suc n)
  define b where "b = foldl (least_scan vs slots) 0 [1..<Suc n]"
  have IH: "b \<le> n" "\<forall>j \<le> n. vs ! (slots ! b) < vs ! (slots ! j) \<or> (vs ! (slots ! b) = vs ! (slots ! j) \<and> b \<le> j)"
    using Suc by (simp_all add: b_def Let_def)
  have e: "foldl (least_scan vs slots) 0 [1..<Suc (Suc n)] = least_scan vs slots b (Suc n)"
    by (simp add: b_def)
  show ?case
    using IH unfolding e Let_def
    by (cases "vs ! (slots ! Suc n) < vs ! (slots ! b)") (auto simp: least_scan_def le_Suc_eq)
qed simp

lemma Pick_leastLoaded_ok:
  assumes t: "router_topology t" and pol: "sp_policy sp = Some PLeastLoaded" and s: "slots_ok t (sp_inFlight sp) vs"
    and p: "p = \<lparr>lp_leaves = up_leaves t sp, lp_slots = map (\<lambda>l. leaf_slot t (LeafID l)) (up_leaves t sp)\<rparr>"
  shows "served_ok t sp req (Pick_leastLoaded vs p)"
proof (cases "length (up_leaves t sp)")
  case 0
  then show ?thesis
    by (simp add: p Pick_leastLoaded_def served_ok_def)
next
  case (Suc n)
  let ?ls = "up_leaves t sp" and ?slots = "map (\<lambda>l. leaf_slot t (LeafID l)) (up_leaves t sp)"
  define b where "b = foldl (least_scan vs ?slots) 0 [1..<Suc n]"
  have B: "b \<le> n" "\<And>j. j \<le> n \<Longrightarrow> vs ! (?slots ! b) < vs ! (?slots ! j) \<or> (vs ! (?slots ! b) = vs ! (?slots ! j) \<and> b \<le> j)"
    using least_scan_best[of vs ?slots n] by (simp_all add: b_def Let_def)
  have v: "vs ! (?slots ! j) = sp_inFlight sp (LeafID (?ls ! j))" if "j \<le> n" for j
  proof -
    have "?ls ! j \<in> set ?ls"
      using that Suc by simp
    then have "LeafID (?ls ! j) \<in> set (Topology_IDs t)"
      by (auto simp: up_leaves_def Topology_IDs_def)
    then show ?thesis
      using slot_of_leaf[OF _ s] t that Suc by (simp add: router_topology_def)
  qed
  have sorted: "sorted (map LeafID ?ls)"
    using t by (simp add: router_topology_def Topology_IDs_def up_leaves_def sorted_filter)
  have "sp_inFlight sp (LeafID (?ls ! b)) < sp_inFlight sp (LeafID l) \<or>
      (sp_inFlight sp (LeafID (?ls ! b)) = sp_inFlight sp (LeafID l) \<and> LeafID (?ls ! b) \<le> LeafID l)" if l: "l \<in> set ?ls" for l
  proof -
    obtain j where j: "j \<le> n" "?ls ! j = l"
      using l Suc by (auto simp: in_set_conv_nth less_Suc_eq_le)
    have "LeafID (?ls ! b) \<le> LeafID (?ls ! j)" if "b \<le> j"
      using sorted_nth_mono[OF sorted that] that j(1) Suc by simp
    then show ?thesis
      using B(2)[OF j(1)] v[OF j(1)] v[OF B(1)] j(2) by auto
  qed
  then have "served_ok t sp req (Inr ((?ls ! b)\<lparr>target_reason := ReasonLeastLoadedLeaf\<rparr>))"
    using B(1) Suc by (intro served_nth[OF _ pol]) auto
  moreover have "?ls \<noteq> []"
    using Suc by auto
  ultimately show ?thesis
    by (simp add: p Pick_leastLoaded_def Let_def Suc b_def)
qed

lemma bounded_reader:
  assumes "topology_ok t" "bounded_current t sp b n p" "slots_ok t (sp_load sp) loads"
  shows "\<forall>i \<in> set (ids (up_ring t sp)). Load (picker_reader loads p) i = sp_load sp i"
    and "LeastLoadedID (picker_reader loads p) = Some (LeastLoadedBy (ids (up_ring t sp)) (sp_load sp))"
  using bounded_Load[OF assms] bounded_LeastLoadedID[OF assms] by (simp_all add: picker_reader_def)

lemma Pick_boundedLoads_ok:
  assumes t: "topology_ok t" and pol: "sp_policy sp = Some (PBoundedLoads b n)" and p: "bounded_current t sp b n p"
    and s: "slots_ok t (sp_load sp) loads"
  shows "served_ok t sp req (Pick_boundedLoads req loads p)"
proof (cases "up_leaves t sp = []")
  case True
  then show ?thesis
    using p by (simp add: Pick_boundedLoads_def served_ok_def bounded_current_def)
next
  case False
  let ?h = "Home (up_ring t sp) (FunctionID req)"
  have f: "bp_ring p = Some (up_ring t sp)" "bp_leaves p = up_leaves t sp" "bp_byID p = by_id (up_leaves t sp)"
    "bp_bound p = NormalizeBound b" "bp_maxChainLen p = NormalizeMaxChainLen n"
    using p by (simp_all add: bounded_current_def)
  obtain i r where F: "ForwardBy (Some (up_ring t sp)) (picker_reader loads p) b n ?h = (i, r)"
    by fastforce
  have F': "ForwardBy (Some (up_ring t sp)) (picker_reader loads p) (NormalizeBound b) (NormalizeMaxChainLen n) ?h = (i, r)"
    using F unfolding ForwardBy_def Normalize_idem .
  note U = ForwardBy_up[OF False up_Home[OF False] bounded_reader[OF t p s], of b n]
  have i: "i \<in> set (ids (up_ring t sp))"
    by (rule U(2)[OF F])
  have a: "policy_answer t sp (FunctionID req) (PBoundedLoads b n) i (boundedLoadsReason r)"
    using F U(1) by auto
  note S = served_by_id[OF t i pol a]
  then show ?thesis
    using False by (auto simp: Pick_boundedLoads_def f F' target_of_def split: option.splits)
qed

lemma jump_loop_result:
  "jump_loop left loads b fid home a = home \<or>
     (\<exists>j. jump_loop left loads b fid home a = jump_candidate b fid j \<and> picker_Load loads b (jump_candidate b fid j) < bp_bound b)"
  by (induction left arbitrary: a) (auto simp: Let_def)

lemma Pick_randomJump_ok:
  assumes t: "topology_ok t" and pol: "sp_policy sp = Some (PRandomJump b n)" and p: "bounded_current t sp b n p"
    and s: "slots_ok t (sp_load sp) loads"
  shows "served_ok t sp req (Pick_randomJump req loads p)"
proof (cases "up_leaves t sp = []")
  case True
  then show ?thesis
    using p by (simp add: Pick_randomJump_def served_ok_def bounded_current_def)
next
  case False
  let ?fid = "FunctionID req" and ?h = "Home (up_ring t sp) (FunctionID req)" and ?ids = "ids (up_ring t sp)"
  have f: "bp_ring p = Some (up_ring t sp)" "bp_leaves p = up_leaves t sp" "bp_byID p = by_id (up_leaves t sp)" "bp_bound p = NormalizeBound b"
    using p by (simp_all add: bounded_current_def)
  note L = bounded_Load[OF t p s] and least = bounded_LeastLoadedID[OF t p s] and h = up_Home[OF False, of ?fid]
  define i where "i = jump_loop (nat (bp_maxChainLen p)) loads p ?fid ?h 1"
  have res: "Pick_randomJump req loads p =
      (if picker_Load loads p ?h \<ge> NormalizeBound b
       then if i = ?h then Inr (target_of (by_id (up_leaves t sp)) (picker_LeastLoadedID loads p) ReasonRJCHLeastLoaded)
            else Inr (target_of (by_id (up_leaves t sp)) i ReasonRJCHJump)
       else Inr (target_of (by_id (up_leaves t sp)) ?h ReasonRJCHHome))"
    using False by (simp add: Pick_randomJump_def f Let_def i_def)
  have cand: "jump_candidate p ?fid j \<in> set ?ids" for j
    using hash_pick_in[OF up_length[OF t] False] by (auto simp: jump_candidate_def f up_ids)
  have ll: "LeastLoadedBy ?ids (sp_load sp) \<in> set ?ids"
    using LeastLoadedBy_in up_ids_Nil False by metis
  show ?thesis
  proof (cases "sp_load sp ?h < NormalizeBound b")
    case True
    then have "policy_answer t sp ?fid (PRandomJump b n) ?h ReasonRJCHHome"
      by simp
    from served_by_id(1)[OF t h pol this] show ?thesis
      using True L[OF h] by (simp add: res)
  next
    case high: False
    show ?thesis
    proof (cases "i = ?h")
      case True
      have "policy_answer t sp ?fid (PRandomJump b n) (LeastLoadedBy ?ids (sp_load sp)) ReasonRJCHLeastLoaded"
        using high by simp
      from served_by_id(1)[OF t ll pol this] show ?thesis
        using True high L[OF h] by (simp add: res least)
    next
      case jumped: False
      obtain j where j: "i = jump_candidate p ?fid j" "picker_Load loads p i < NormalizeBound b"
        using jump_loop_result[of "nat (bp_maxChainLen p)" loads p ?fid ?h 1] jumped by (auto simp: i_def f)
      have "policy_answer t sp ?fid (PRandomJump b n) i ReasonRJCHJump"
        using high j L[OF cand, of j] by simp
      from served_by_id(1)[OF t _ pol this] show ?thesis
        using jumped high L[OF h] j(1) cand by (simp add: res)
    qed
  qed
qed

text \<open>Requests of the policy with random load updates change samples and a counter only.\<close>

lemma observeIAT_frame:
  assumes "observeIAT fid now m = (x, m1)"
  shows "bounded_ok t sp b n m1 = bounded_ok t sp b n m" "bm_loads m1 = bm_loads m"
proof -
  obtain ss where "m1 = m\<lparr>um_samples := ss\<rparr>"
  proof (cases "m1 = m")
    case True
    then show thesis
      by (intro that[of "um_samples m"]) simp
  next
    case False
    then show thesis
      using assms that by (auto simp: observeIAT_def Let_def split: if_splits option.splits)
  qed
  then show "bounded_ok t sp b n m1 = bounded_ok t sp b n m" "bm_loads m1 = bm_loads m"
    by (simp_all add: bounded_ok_def)
qed

lemma gaussian_frame:
  "gaussian box fid i m = (g, m1) \<Longrightarrow> bounded_ok t sp b n m1 = bounded_ok t sp b n m \<and> bm_loads m1 = bm_loads m"
  by (auto simp: gaussian_def Let_def bounded_ok_def)

lemma noisy_walk_result:
  "noisy_walk left box r b fid mean bnd step i m = (x, m') \<Longrightarrow> ring_wf r \<Longrightarrow> i \<in> set (ids r) \<Longrightarrow>
     (bounded_ok t sp b' n m' = bounded_ok t sp b' n m \<and> bm_loads m' = bm_loads m) \<and>
     (case x of None \<Rightarrow> True
      | Some (j, why) \<Rightarrow> j \<in> set (ids r) \<and> (why = ReasonCHRLUForwarded \<or> why = ReasonCHRLUHome \<and> step = 0 \<and> j = i))"
proof (induction left arbitrary: step i m)
  case (Suc left)
  obtain g m1 where g: "gaussian box fid i m = (g, m1)"
    by fastforce
  note G = gaussian_frame[OF g, of t sp b' n]
  let ?load = "fadd (fadd (picker_Load (bm_loads m) b i) mean) (fmul g (um_noiseStddev m))"
  show ?case
  proof (cases "?load < bnd")
    case True
    then show ?thesis
      using Suc.prems G by (auto simp: g Let_def)
  next
    case False
    have "noisy_walk left box r b fid mean bnd (step + 1) (Next r i) m1 = (x, m')"
      using Suc.prems(1) False by (simp add: g Let_def)
    from Suc.IH[OF this Suc.prems(2) Next_in[OF Suc.prems(2,3)]] show ?thesis
      using G by (auto split: option.splits)
  qed
qed simp

lemma Pick_chrlu_ok:
  assumes t: "topology_ok t" and pol: "sp_policy sp = Some (PChrlu q)" and p: "bounded_current t sp (cr_bound q) (cr_maxChainLen q) p"
    and m: "bounded_ok t sp (cr_bound q) (cr_maxChainLen q) m" and r: "Pick_chrlu box now req p m = (res, m')"
  shows "served_ok t sp req res \<and> bounded_ok t sp (cr_bound q) (cr_maxChainLen q) m'"
proof (cases "up_leaves t sp = []")
  case True
  then show ?thesis
    using p m r by (simp add: Pick_chrlu_def served_ok_def bounded_current_def)
next
  case False
  let ?fid = "FunctionID req" and ?h = "Home (up_ring t sp) (FunctionID req)" and ?ids = "ids (up_ring t sp)"
  have f: "bp_ring p = Some (up_ring t sp)" "bp_leaves p = up_leaves t sp" "bp_byID p = by_id (up_leaves t sp)"
    using p by (simp_all add: bounded_current_def)
  have s: "slots_ok t (sp_load sp) (bm_loads m)"
    using m by (simp add: bounded_ok_def)
  note h = up_Home[OF False, of ?fid]
  have ll: "LeastLoadedBy ?ids (sp_load sp) \<in> set ?ids"
    using LeastLoadedBy_in up_ids_Nil False by metis
  obtain iat popular m1 where o: "observeIAT ?fid now m = ((iat, popular), m1)"
    by (metis surj_pair)
  note O = observeIAT_frame[OF o]
  define bnd where "bnd = boundFor ?fid p m"
  show ?thesis
  proof (cases popular)
    case unpopular: False
    obtain i why where F: "ForwardBy (Some (up_ring t sp)) (picker_reader (bm_loads m) p) bnd (bp_maxChainLen p) ?h = (i, why)"
      by fastforce
    note U = ForwardBy_up[OF False h bounded_reader[OF t p s], of bnd "bp_maxChainLen p"]
    have "policy_answer t sp ?fid (PChrlu q) i (chrluReason why)"
      using U(3,4)[of i] F by (cases why) auto
    from served_by_id(1)[OF t U(2)[OF F] pol this] show ?thesis
      using r unpopular False F m O by (auto simp: Pick_chrlu_def f Let_def o bnd_def)
  next
    case True
    obtain x m2 where w: "noisy_walk (nat (bp_maxChainLen p + 1)) box (up_ring t sp) p ?fid (fdiv (um_heartbeatSeconds m1) (Seconds iat)) bnd 0 ?h m1 = (x, m2)"
      by fastforce
    note W = noisy_walk_result[OF w up_ring_wf h, of t sp "cr_bound q" "cr_maxChainLen q"]

    show ?thesis
    proof (cases x)
      case None
      have "policy_answer t sp ?fid (PChrlu q) (LeastLoadedBy ?ids (sp_load sp)) ReasonCHRLULeastLoaded"
        by simp
      from served_by_id(1)[OF t ll pol this] show ?thesis
        using r True False w None m W O by (auto simp: Pick_chrlu_def f Let_def o bnd_def bounded_LeastLoadedID[OF t p s])
    next
      case (Some jw)
      obtain j why where jw: "jw = (j, why)"
        by fastforce
      have "policy_answer t sp ?fid (PChrlu q) j why" and j: "j \<in> set ?ids"
        using W Some jw by auto
      from served_by_id(1)[OF t j pol this(1)] show ?thesis
        using r True False w Some jw m W O by (auto simp: Pick_chrlu_def f Let_def o bnd_def)
    qed
  qed
qed

lemma Pick_availableCapacity_ok:
  assumes t: "topology_ok t" and m: "model_ok t sp (AvailableCapacityModel c)" "am_active c"
    and p: "picker_current t sp k (AvailableCapacityPicker p)" and r: "Pick_availableCapacity req c p = (res, p')"
  shows "served_ok t sp req res \<and> picker_current t sp (k + 1) (AvailableCapacityPicker p')"
proof -
  let ?fn = "FunctionID req"
  have M: "member_ok t sp c" "capacity_inv c" "sp_policy sp = Some PAvailableCapacity"
    and rows: "\<And>j. j < length (tp_leaves t) \<Longrightarrow> cap_table c j = sp_rows sp (LeafID (tp_leaves t ! j))"
    using m by auto
  have cur: "capacity_current p c"
    using p m(2) M(1) member_leaves[OF M(1)] by (simp add: capacity_current_def member_ok_def)
  have adv: "advertised c ?fn j a \<longleftrightarrow> j < length (tp_leaves t) \<and> tp_leaves t ! j \<in> set (up_leaves t sp) \<and> sp_rows sp (LeafID (tp_leaves t ! j)) ?fn = Some a" for j a
    using M(1) rows[of j] by (auto simp: advertised_def member_ok_def up_leaves_def)
  have up: "\<exists>j < length (tp_leaves t). tp_leaves t ! j = l" if "l \<in> set (up_leaves t sp)" for l
    using that by (auto simp: up_leaves_def in_set_conv_nth)
  show ?thesis
  proof (cases "up_leaves t sp = []")
    case True
    then show ?thesis
      using r p by (auto simp: Pick_availableCapacity_def served_ok_def)
  next
    case False
    then have ne: "healthyLeaves c \<noteq> []"
      using member_leaves[OF M(1)] by simp
    note P = Pick_capacity[OF M(2) cur ne r]
    have "picker_current t sp (k + 1) (AvailableCapacityPicker p')"
      using P(1) M member_leaves[OF M(1)] by (simp add: capacity_current_def member_ok_def)
    moreover have "served_ok t sp req res"
      using P(2)
    proof (elim disjE exE conjE)
      fix j a
      assume a: "advertised c ?fn j a" and max: "\<forall>k' a'. advertised c ?fn k' a' \<longrightarrow> a' \<le> a"
        and res: "res = Inr ((tp_leaves (mb_topology c) ! j)\<lparr>target_reason := ReasonAvailableCapacity\<rparr>)"
      have "b \<le> a" if "l \<in> set (up_leaves t sp)" "sp_rows sp (LeafID l) ?fn = Some b" for l b
        using max adv up[OF that(1)] that by metis
      then have "policy_answer t sp ?fn PAvailableCapacity (LeafID (tp_leaves t ! j)) ReasonAvailableCapacity"
        using a adv by auto
      then show ?thesis
        using a adv False M(3) unfolding served_ok_def res member_top[OF M(1)] by auto
    next
      assume none: "\<forall>k a. \<not> advertised c ?fn k a"
        and ex: "\<exists>t \<in> set (healthyLeaves c). res = Inr (t\<lparr>target_reason := ReasonColdCacheFallback\<rparr>)"
      have "sp_rows sp (LeafID l) ?fn = None" if "l \<in> set (up_leaves t sp)" for l
        using none adv up[OF that] that by (metis option.exhaust)
      then show ?thesis
        using ex False M(3) member_leaves[OF M(1)] unfolding served_ok_def by auto
    qed
    ultimately show ?thesis
      by simp
  qed
qed

lemma pick_ok:
  assumes t: "router_topology t" and m: "model_ok t sp m" "model_active m" and p: "picker_current t sp k p" and k: "k < 2 ^ 63"
    and r: "Pick env now req p m = (res, p', m')"
  shows "pick_spec t sp k req res p' m'"
proof -
  have top: "topology_ok t"
    using t by (simp add: router_topology_def)
  show ?thesis
  proof (cases p)
    case (RandomPicker q)
    then obtain q' where "Pick_random q = (res, q')" "p' = RandomPicker q'" "m' = m"
      using r by (auto split: prod.splits)
    then show ?thesis
      using Pick_random_ok[OF top, of q sp] p m RandomPicker by (auto simp: pick_spec_def)
  next
    case (RoundRobinPicker q)
    then obtain q' where "Pick_roundRobin q = (res, q')" "p' = RoundRobinPicker q'" "m' = m"
      using r by (auto split: prod.splits)
    then show ?thesis
      using Pick_roundRobin_ok[OF top, of q sp k] p m k RoundRobinPicker by (auto simp: pick_spec_def)
  next
    case (ConsistentPicker q)
    then show ?thesis
      using Pick_consistent_ok[OF top] p m r by (auto simp: pick_spec_def)
  next
    case (BoundedLoadsPicker q)
    then obtain d where d: "m = BoundedLoadsModel d"
      using p m by (cases m) auto
    then show ?thesis
      using Pick_boundedLoads_ok[OF top] p m r BoundedLoadsPicker by (auto simp: pick_spec_def bounded_ok_def)
  next
    case (RandomJumpPicker q)
    then obtain d where d: "m = RandomJumpModel d"
      using p m by (cases m) auto
    then show ?thesis
      using Pick_randomJump_ok[OF top] p m r RandomJumpPicker by (auto simp: pick_spec_def bounded_ok_def)
  next
    case (ChrluPicker q)
    then obtain d where d: "m = ChrluModel d"
      using p m by (cases m) auto
    obtain d' where d': "Pick_chrlu (env_box env) now req q d = (res, d')" "p' = ChrluPicker q" "m' = ChrluModel d'"
      using r ChrluPicker d by (auto split: prod.splits)
    show ?thesis
      using Pick_chrlu_ok[OF top _ _ _ d'(1)] p m d d'(2,3) ChrluPicker by (auto simp: pick_spec_def)
  next
    case (LeastLoadedPicker q)
    then obtain d where d: "m = LeastLoadedModel d"
      using p m by (cases m) auto
    then show ?thesis
      using Pick_leastLoaded_ok[OF t] p m r LeastLoadedPicker by (auto simp: pick_spec_def)
  next
    case (AvailableCapacityPicker q)
    then obtain d where d: "m = AvailableCapacityModel d"
      using p m by (cases m) auto
    obtain q' where q': "Pick_availableCapacity req d q = (res, q')" "p' = AvailableCapacityPicker q'" "m' = m"
      using r AvailableCapacityPicker d by (auto split: prod.splits)
    show ?thesis
      using Pick_availableCapacity_ok[OF top _ _ _ q'(1), of sp k] p m d q'(2,3) AvailableCapacityPicker by (auto simp: pick_spec_def)
  qed
qed

subsection \<open>The contract\<close>

text \<open>
  The interface \<^verbatim>\<open>routingModel\<close> as the controller uses it: what a model knows is what the leaves reported, a
  picker stays right until an update returns \<^const>\<open>PublishPicker\<close>, and a current picker answers as the policy says.
\<close>

locale routing_interface =
  fixes ok :: "router_spec \<Rightarrow> 'm \<Rightarrow> bool" and active :: "'m \<Rightarrow> bool" and current :: "router_spec \<Rightarrow> nat \<Rightarrow> 'p \<Rightarrow> bool"
    and update :: "u64 list \<Rightarrow> LeafState \<Rightarrow> 'm \<Rightarrow> UpdateResult \<times> 'm" and disconnect :: "u64 \<Rightarrow> 'm \<Rightarrow> UpdateResult \<times> 'm"
    and picker :: "'m \<Rightarrow> 'p \<times> 'm"
  assumes update_reports: "ok sp m \<Longrightarrow> update order s m = (res, m') \<Longrightarrow> ok (spec_state s sp) m' \<and> active m' = active m"
    and update_announces: "ok sp m \<Longrightarrow> update order s m = (res, m') \<Longrightarrow> active m \<Longrightarrow> res \<noteq> PublishPicker \<Longrightarrow>
      sp_health (spec_state s sp) = sp_health sp"
    and disconnect_reports: "ok sp m \<Longrightarrow> disconnect i m = (res, m') \<Longrightarrow> ok (spec_down i sp) m' \<and> active m' = active m"
    and disconnect_announces: "ok sp m \<Longrightarrow> disconnect i m = (res, m') \<Longrightarrow> active m \<Longrightarrow> res \<noteq> PublishPicker \<Longrightarrow>
      sp_health (spec_down i sp) = sp_health sp"
    and picker_builds: "ok sp m \<Longrightarrow> picker m = (p, m') \<Longrightarrow> ok sp m' \<and> active m' \<and> current sp 0 p"
    and current_health: "current sp k p \<Longrightarrow> sp_health sp' = sp_health sp \<Longrightarrow> sp_policy sp' = sp_policy sp \<Longrightarrow> k \<le> k' \<Longrightarrow> current sp' k' p"
begin

text \<open>The model and the picker after an update whose result may ask for a new picker.\<close>

lemma publish_frame:
  assumes m: "ok sp m" "active m" "current sp k p" and u: "update order s m = (res, m')"
    and q: "(q, m'') = (if res = PublishPicker then picker m' else (p, m'))"
  shows "ok (spec_state s sp) m'' \<and> active m'' \<and> current (spec_state s sp) k q"
proof (cases "res = PublishPicker")
  case True
  then show ?thesis
    using picker_builds[of "spec_state s sp" m' q m''] update_reports[OF m(1) u] q
      current_health[of "spec_state s sp" 0 q "spec_state s sp" k] by auto
next
  case False
  then show ?thesis
    using update_reports[OF m(1) u] update_announces[OF m(1) u m(2)] m(2) q current_health[OF m(3), of "spec_state s sp" k] by auto
qed

lemma publish_down:
  assumes m: "ok sp m" "active m" "current sp k p" and u: "disconnect i m = (res, m')"
    and q: "(q, m'') = (if res = PublishPicker then picker m' else (p, m'))"
  shows "ok (spec_down i sp) m'' \<and> active m'' \<and> current (spec_down i sp) k q"
proof (cases "res = PublishPicker")
  case True
  then show ?thesis
    using picker_builds[of "spec_down i sp" m' q m''] disconnect_reports[OF m(1) u] q
      current_health[of "spec_down i sp" 0 q "spec_down i sp" k] by auto
next
  case False
  then show ?thesis
    using disconnect_reports[OF m(1) u] disconnect_announces[OF m(1) u m(2)] m(2) q current_health[OF m(3), of "spec_down i sp" k] by auto
qed

end

lemma up_health: "sp_health sp' = sp_health sp \<Longrightarrow> up_leaves t sp' = up_leaves t sp \<and> up_ring t sp' = up_ring t sp"
  by (simp add: up_leaves_def up_ring_def)

lemma picker_current_health:
  "picker_current t sp k p \<Longrightarrow> sp_health sp' = sp_health sp \<Longrightarrow> sp_policy sp' = sp_policy sp \<Longrightarrow> k \<le> k' \<Longrightarrow> picker_current t sp' k' p"
  using up_health[of sp' sp t] by (cases p) (auto simp: bounded_current_def)

text \<open>The eight policies of the repository satisfy the contract on a fixed topology.\<close>

definition fixed_ok :: "Topology \<Rightarrow> router_spec \<Rightarrow> routingModel \<Rightarrow> bool" where
  "fixed_ok t sp m \<longleftrightarrow> router_topology t \<and> model_ok t sp m"

interpretation rt: routing_interface "fixed_ok t" model_active "picker_current t" update_leaf LeafDisconnected Picker for t
proof unfold_locales
  show "fixed_ok t (spec_state s sp) m' \<and> model_active m' = model_active m"
    if "fixed_ok t sp m" "update_leaf order s m = (res, m')" for sp m order s res m'
    using update_leaf_ok[of t sp m order s res m'] that by (auto simp: fixed_ok_def router_topology_def update_spec_def)
  show "sp_health (spec_state s sp) = sp_health sp"
    if "fixed_ok t sp m" "update_leaf order s m = (res, m')" "model_active m" "res \<noteq> PublishPicker" for sp m order s res m'
    using update_leaf_ok[of t sp m order s res m'] that by (auto simp: fixed_ok_def router_topology_def update_spec_def)
  show "fixed_ok t (spec_down i sp) m' \<and> model_active m' = model_active m"
    if "fixed_ok t sp m" "LeafDisconnected i m = (res, m')" for sp m i res m'
    using disconnect_ok[of t sp m i res m'] that by (auto simp: fixed_ok_def router_topology_def update_spec_def)
  show "sp_health (spec_down i sp) = sp_health sp"
    if "fixed_ok t sp m" "LeafDisconnected i m = (res, m')" "model_active m" "res \<noteq> PublishPicker" for sp m i res m'
    using disconnect_ok[of t sp m i res m'] that by (auto simp: fixed_ok_def router_topology_def update_spec_def)
  show "fixed_ok t sp m' \<and> model_active m' \<and> picker_current t sp 0 p" if "fixed_ok t sp m" "Picker m = (p, m')" for sp m p m'
    using picker_ok[of t sp m p m'] that by (auto simp: fixed_ok_def)
  show "picker_current t sp' k' p"
    if "picker_current t sp k p" "sp_health sp' = sp_health sp" "sp_policy sp' = sp_policy sp" "k \<le> k'" for sp k p sp' k'
    using picker_current_health that by blast
qed

end
