(* ===== verification/Routing_System.thy ===== *)
theory Routing_System
  imports Routing_Contract
begin

text \<open>
  The routing of the ingress as a whole: in every interleaving of requests, reloads and streams the controller
  implements the specification of the contract, and a reload ends.
\<close>

subsection \<open>The controller implements the specification\<close>











subsection \<open>Runs\<close>


lemma spec_run_snoc [simp]: "spec_run (ops @ [op]) = spec_step op (spec_run ops)"
  by (simp add: spec_run_def)

lemma set_fields [simp]:
  "rs_ctl (set_stream k f s) = rs_ctl s" "rs_log (set_stream k f s) = rs_log s" "rs_calls (set_stream k f s) = rs_calls s"
  "rs_done (set_stream k f s) = rs_done s"
  "rs_ctl (set_call k g s) = rs_ctl s" "rs_log (set_call k g s) = rs_log s" "rs_streams (set_call k g s) = rs_streams s"
  "rs_done (set_call k g s) = rs_done s"
  "length (rs_streams (set_stream k f s)) = length (rs_streams s)" "length (rs_calls (set_call k g s)) = length (rs_calls s)"
  by (simp_all add: set_stream_def set_call_def)

lemma signal_fields [simp]:
  "rs_ctl (signal k s) = rs_ctl s" "rs_log (signal k s) = rs_log s" "rs_done (signal k s) = rs_done s"
  "length (rs_streams (signal k s)) = length (rs_streams s)" "length (rs_calls (signal k s)) = length (rs_calls s)"
  by (simp_all add: signal_def Let_def)

lemma goto_fields [simp]:
  "rs_ctl (goto k pc s) = rs_ctl s" "rs_log (goto k pc s) = rs_log s" "rs_calls (goto k pc s) = rs_calls s"
  "rs_done (goto k pc s) = rs_done s" "length (rs_streams (goto k pc s)) = length (rs_streams s)"
  by (simp_all add: goto_def)










subsection \<open>Baselines\<close>
























subsection \<open>A reload ends\<close>


























subsection \<open>Theorems\<close>








end
