(* ===== verification/Leaf_Reporter.thy ===== *)
theory Leaf_Reporter
  imports Core_State
begin

text \<open>
  The routing state a leaf publishes: \<^verbatim>\<open>pkg/leaf/state/reporter.go\<close>, \<^verbatim>\<open>pkg/leaf/state/routing.go\<close> and the
  stream handler of \<^verbatim>\<open>pkg/leaf/server.go\<close>.  A subscriber gets a full snapshot and then deltas against what it was
  sent last.  The values read from the source during one emission are an argument of the step; a stream
  is a goroutine whose steps interleave with publications.
\<close>

subsection \<open>Frames and subscribers\<close>

record RoutingProjection =
  rp_LeafLoad :: bool
  rp_AggregateInFlight :: bool
  rp_FunctionCapacity :: bool

record RoutingFrame =
  fr_ConfigVersion :: u64
  fr_LeafID :: u64
  fr_Revision :: u64
  fr_FullSnapshot :: bool
  fr_HealthyWorkers :: u32
  fr_LeafLoad :: float64
  fr_HasLeafLoad :: bool
  fr_AggregateInFlight :: u64
  fr_HasAggregateInFlight :: bool
  fr_Capacities :: "FunctionCapacity list"

text \<open>What the source answers while one frame is built.\<close>

record capacitySource =
  src_CapacitySnapshot :: "(u64, FunctionCapacity) gomap"
  src_WorkerHealthy :: bool
  src_LeafLoad :: float64
  src_HealthyWorkers :: u32
  src_AggregateInFlight :: u64

record routingSubscriber =
  sub_projection :: RoutingProjection
  sub_configVersion :: u64
  sub_notify :: bool
  sub_sent :: "(u64, FunctionCapacity) gomap"

text \<open>
  The goroutine of a subscriber: before the first frame, waiting for a notification, at the send of a frame, or
  gone.  \<open>ss_frames\<close> is the channel; \<open>ss_taken\<close> records the frames the handler took to send, \<open>ss_built\<close> all frames with the
  values they were built from.
\<close>

datatype sub_pc = SubFirst | SubWait | SubSend RoutingFrame | SubGone

record routingStream = routingSubscriber +
  ss_id :: u64
  ss_pc :: sub_pc
  ss_frames :: "RoutingFrame list"
  ss_taken :: "RoutingFrame list"
  ss_built :: "(RoutingFrame \<times> capacitySource) list"

record Reporter =
  rep_leafID :: u64
  rep_last :: "(u64, FunctionCapacity) gomap"
  rep_routingSubs :: "(u64, nat) gomap"
  rep_nextRoutingSubID :: u64
  rep_revision :: u64
  rep_streams :: "routingStream list"

definition NewReporter :: "u64 \<Rightarrow> Reporter" where
  "NewReporter leafID =
     \<lparr>rep_leafID = leafID, rep_last = [], rep_routingSubs = [], rep_nextRoutingSubID = 0, rep_revision = 0, rep_streams = []\<rparr>"

definition capacityEqual :: "FunctionCapacity \<Rightarrow> FunctionCapacity \<Rightarrow> bool" where
  "capacityEqual a b \<longleftrightarrow>
     fc_ready_instances a = fc_ready_instances b \<and> fc_available_concurrency a = fc_available_concurrency b \<and>
     fc_in_flight a = fc_in_flight b \<and> fc_deleted a = fc_deleted b \<and> fc_status a = fc_status b"

definition emptyCapacity :: FunctionCapacity where
  "emptyCapacity =
     \<lparr>fc_function_id = 0, fc_ready_instances = 0, fc_available_concurrency = 0, fc_in_flight = 0, fc_queue_depth = 0,
      fc_cold_starts_in_flight = 0, fc_ewm_latency = None, fc_error_rate = 0, fc_status = CAPACITY_STATUS_UNSPECIFIED,
      fc_observed_at = None, fc_deleted = False\<rparr>"

subsection \<open>Publications\<close>

definition notifyRoutingLocked :: "Reporter \<Rightarrow> Reporter" where
  "notifyRoutingLocked r =
     r\<lparr>rep_streams := update_all (sub_notify_update (\<lambda>_. True)) (map snd (rep_routingSubs r)) (rep_streams r)\<rparr>"

definition Publish :: "FunctionCapacity option \<Rightarrow> Reporter \<Rightarrow> Reporter" where
  "Publish cap r =
     (case cap of
        None \<Rightarrow> r
      | Some c \<Rightarrow>
          if (case map_of (rep_last r) (fc_function_id c) of None \<Rightarrow> False | Some prev \<Rightarrow> capacityEqual prev c) then r
          else notifyRoutingLocked (r\<lparr>rep_last := AList.update (fc_function_id c) c (rep_last r)\<rparr>))"

definition PublishHeartbeat :: "Reporter \<Rightarrow> Reporter" where
  "PublishHeartbeat r = notifyRoutingLocked r"

definition PublishDeleted :: "int \<Rightarrow> u64 \<Rightarrow> Reporter \<Rightarrow> Reporter" where
  "PublishDeleted now functionID r =
     notifyRoutingLocked (r\<lparr>rep_last := AList.update functionID
       (emptyCapacity\<lparr>fc_function_id := functionID, fc_deleted := True, fc_status := CAPACITY_STATUS_UNKNOWN, fc_observed_at := Some now\<rparr>)
       (rep_last r)\<rparr>)"

text \<open>The diagnostic snapshot, with the tombstones of deleted functions.\<close>

record CoreLeafState =
  cl_leaf_id :: u64
  cl_healthy :: bool
  cl_functions :: "FunctionCapacity list"
  cl_observed_at :: int
  cl_update_time :: int
  cl_leaf_load :: float64

definition add_tombstone :: "(u64, FunctionCapacity) gomap \<Rightarrow> (u64, FunctionCapacity) gomap \<Rightarrow> u64 \<Rightarrow> (u64, FunctionCapacity) gomap" where
  "add_tombstone lst snap k =
     (case map_of lst k of None \<Rightarrow> snap | Some c \<Rightarrow> if fc_deleted c then AList.update k c snap else snap)"

definition map_values :: "'k list \<Rightarrow> ('k, 'v) gomap \<Rightarrow> 'v list" where
  "map_values order m = map (\<lambda>k. the (map_of m k)) (map_range order m)"

definition CurrentState :: "u64 list \<Rightarrow> capacitySource \<Rightarrow> int \<Rightarrow> Reporter \<Rightarrow> CoreLeafState" where
  "CurrentState order src now r =
     (let snap = foldl (add_tombstone (rep_last r)) (src_CapacitySnapshot src) (map_range order (rep_last r)) in
      \<lparr>cl_leaf_id = rep_leafID r, cl_healthy = src_WorkerHealthy src, cl_functions = map_values order snap,
       cl_observed_at = now, cl_update_time = now, cl_leaf_load = src_LeafLoad src\<rparr>)"

subsection \<open>Emission\<close>

definition changed_entry :: "(u64, FunctionCapacity) gomap \<Rightarrow> (u64, FunctionCapacity) gomap \<Rightarrow> u64 \<Rightarrow> bool" where
  "changed_entry sent cur k \<longleftrightarrow>
     (case (map_of cur k, map_of sent k) of
        (Some c, Some prev) \<Rightarrow> \<not> capacityEqual prev c
      | (Some c, None) \<Rightarrow> True
      | (None, _) \<Rightarrow> False)"

definition vanished_entry :: "(u64, FunctionCapacity) gomap \<Rightarrow> (u64, FunctionCapacity) gomap \<Rightarrow> u64 \<Rightarrow> bool" where
  "vanished_entry sent cur k \<longleftrightarrow>
     map_of cur k = None \<and> (case map_of sent k of None \<Rightarrow> False | Some prev \<Rightarrow> \<not> fc_deleted prev)"

definition diffCapacities ::
  "u64 list \<Rightarrow> (u64, FunctionCapacity) gomap \<Rightarrow> (u64, FunctionCapacity) gomap \<Rightarrow> FunctionCapacity list" where
  "diffCapacities order sent cur =
     map (\<lambda>k. the (map_of cur k)) (filter (changed_entry sent cur) (map_range order cur)) @
     map (\<lambda>k. emptyCapacity\<lparr>fc_function_id := k, fc_deleted := True\<rparr>) (filter (vanished_entry sent cur) (map_range order sent))"

text \<open>\<^verbatim>\<open>emit\<close> up to the send: the frame, and the subscriber with what it will have been sent.\<close>

definition build_frame :: "u64 list \<Rightarrow> capacitySource \<Rightarrow> u64 \<Rightarrow> u64 \<Rightarrow> bool \<Rightarrow> 'a routingSubscriber_scheme \<Rightarrow> RoutingFrame" where
  "build_frame order src leafID rvn full sub =
     (let p = sub_projection sub; cur = src_CapacitySnapshot src in
      \<lparr>fr_ConfigVersion = sub_configVersion sub, fr_LeafID = leafID, fr_Revision = rvn, fr_FullSnapshot = full,
       fr_HealthyWorkers = src_HealthyWorkers src,
       fr_LeafLoad = (if rp_LeafLoad p then src_LeafLoad src else 0), fr_HasLeafLoad = rp_LeafLoad p,
       fr_AggregateInFlight = (if rp_AggregateInFlight p then src_AggregateInFlight src else 0),
       fr_HasAggregateInFlight = rp_AggregateInFlight p,
       fr_Capacities = (if rp_FunctionCapacity p then if full then map_values order cur else diffCapacities order (sub_sent sub) cur else [])\<rparr>)"

definition emit :: "u64 list \<Rightarrow> capacitySource \<Rightarrow> nat \<Rightarrow> bool \<Rightarrow> Reporter \<Rightarrow> Reporter" where
  "emit order src k full r =
     (let rvn = rep_revision r + 1; st = rep_streams r ! k; f = build_frame order src (rep_leafID r) rvn full st in
      r\<lparr>rep_revision := rvn,
        rep_streams := (rep_streams r)[k := st\<lparr>sub_sent := (if rp_FunctionCapacity (sub_projection st) then src_CapacitySnapshot src else sub_sent st),
          ss_pc := SubSend f, ss_built := ss_built st @ [(f, src)]\<rparr>]\<rparr>)"

text \<open>\<^verbatim>\<open>WatchRoutingState\<close> registers the subscriber; its goroutine starts before its first frame.\<close>

definition WatchRoutingState :: "u64 \<Rightarrow> RoutingProjection \<Rightarrow> Reporter \<Rightarrow> Reporter" where
  "WatchRoutingState v projection r =
     (let i = rep_nextRoutingSubID r + 1 in
      r\<lparr>rep_nextRoutingSubID := i, rep_routingSubs := AList.update i (length (rep_streams r)) (rep_routingSubs r),
        rep_streams := rep_streams r @
          [\<lparr>sub_projection = projection, sub_configVersion = v, sub_notify = False, sub_sent = [],
            ss_id = i, ss_pc = SubFirst, ss_frames = [], ss_taken = [], ss_built = []\<rparr>]\<rparr>)"

definition set_sub :: "nat \<Rightarrow> (routingStream \<Rightarrow> routingStream) \<Rightarrow> Reporter \<Rightarrow> Reporter" where
  "set_sub k f r = r\<lparr>rep_streams := (rep_streams r)[k := f (rep_streams r ! k)]\<rparr>"

definition frames_capacity :: nat where "frames_capacity = 16"

text \<open>A step of the goroutine; a full channel blocks the send.\<close>

fun run_sub :: "sub_pc \<Rightarrow> u64 list \<Rightarrow> capacitySource \<Rightarrow> nat \<Rightarrow> Reporter \<Rightarrow> Reporter" where
  "run_sub SubFirst order src k r = emit order src k True r"
| "run_sub SubWait order src k r =
     (if sub_notify (rep_streams r ! k) then emit order src k False (set_sub k (sub_notify_update (\<lambda>_. False)) r) else r)"
| "run_sub (SubSend f) order src k r =
     (if length (ss_frames (rep_streams r ! k)) < frames_capacity
      then set_sub k (\<lambda>st. st\<lparr>ss_frames := ss_frames st @ [f], ss_pc := SubWait\<rparr>) r else r)"
| "run_sub SubGone order src k r = r"

text \<open>The context is done: taken where the goroutine selects on it.\<close>

definition cancel_sub :: "nat \<Rightarrow> Reporter \<Rightarrow> Reporter" where
  "cancel_sub k r =
     (let st = rep_streams r ! k in
      if ss_pc st = SubFirst \<or> ss_pc st = SubGone then r
      else set_sub k (ss_pc_update (\<lambda>_. SubGone)) (r\<lparr>rep_routingSubs := AList.delete (ss_id st) (rep_routingSubs r)\<rparr>))"

text \<open>The stream handler takes a frame from the channel to send it.\<close>

definition take_frame :: "nat \<Rightarrow> Reporter \<Rightarrow> RoutingFrame option \<times> Reporter" where
  "take_frame k r =
     (case ss_frames (rep_streams r ! k) of
        [] \<Rightarrow> (None, r)
      | f # fs \<Rightarrow> (Some f, set_sub k (\<lambda>st. st\<lparr>ss_frames := fs, ss_taken := ss_taken st @ [f]\<rparr>) r))"

datatype reporter_event =
    EvWatch u64 RoutingProjection | EvPublish "FunctionCapacity option" | EvHeartbeat | EvDeleted int u64
  | EvRun nat "u64 list" capacitySource | EvCancel nat | EvTake nat

fun reporter_exec :: "reporter_event \<Rightarrow> Reporter \<Rightarrow> Reporter" where
  "reporter_exec (EvWatch v p) r = WatchRoutingState v p r"
| "reporter_exec (EvPublish c) r = Publish c r"
| "reporter_exec EvHeartbeat r = PublishHeartbeat r"
| "reporter_exec (EvDeleted now i) r = PublishDeleted now i r"
| "reporter_exec (EvRun k order src) r = (if k < length (rep_streams r) then run_sub (ss_pc (rep_streams r ! k)) order src k r else r)"
| "reporter_exec (EvCancel k) r = (if k < length (rep_streams r) then cancel_sub k r else r)"
| "reporter_exec (EvTake k) r = (if k < length (rep_streams r) then snd (take_frame k r) else r)"

definition reporter_run :: "reporter_event list \<Rightarrow> Reporter \<Rightarrow> Reporter" where
  "reporter_run es r = foldl (\<lambda>r e. reporter_exec e r) r es"


subsection \<open>Snapshots\<close>

text \<open>What a source promises of its snapshot: every entry is filed under its own function and is no tombstone.\<close>

definition snapshot_ok :: "(u64, FunctionCapacity) gomap \<Rightarrow> bool" where
  "snapshot_ok m \<longleftrightarrow> gomap_inv m \<and> (\<forall>(k, c) \<in> set m. fc_function_id c = k \<and> \<not> fc_deleted c)"

lemma snapshot_ok_lookup: "snapshot_ok m \<Longrightarrow> map_of m k = Some c \<Longrightarrow> fc_function_id c = k \<and> \<not> fc_deleted c"
  using map_of_SomeD[of m k c] by (fastforce simp: snapshot_ok_def)

definition advertised_view :: "(u64, FunctionCapacity) gomap \<Rightarrow> u64 \<rightharpoonup> u64" where
  "advertised_view m fn = map_option fc_available_concurrency (map_of m fn)"

lemma map_range_lookup: "k \<in> set (map_range order m) \<longleftrightarrow> map_of m k \<noteq> None"
  by (simp add: map_of_eq_None_iff)

lemma map_values_ids: "snapshot_ok m \<Longrightarrow> map fc_function_id (map_values order m) = map_range order m"
proof -
  assume m: "snapshot_ok m"
  have "fc_function_id (the (map_of m k)) = k" if "k \<in> set (map_range order m)" for k
    using that snapshot_ok_lookup[OF m, of k] by (auto simp: map_range_lookup simp del: set_map_range)
  then show ?thesis
    unfolding map_values_def map_map o_def by (intro map_idI) blast
qed

lemma diff_ids:
  assumes sent: "snapshot_ok sent" and cur: "snapshot_ok cur"
  shows "map fc_function_id (diffCapacities order sent cur) =
    filter (changed_entry sent cur) (map_range order cur) @ filter (vanished_entry sent cur) (map_range order sent)"
proof -
  have "fc_function_id (the (map_of cur k)) = k" if "k \<in> set (filter (changed_entry sent cur) (map_range order cur))" for k
    using that snapshot_ok_lookup[OF cur, of k] by (auto simp: map_range_lookup simp del: set_map_range)
  then have "map (\<lambda>k. fc_function_id (the (map_of cur k))) (filter (changed_entry sent cur) (map_range order cur)) =
      filter (changed_entry sent cur) (map_range order cur)"
    by (intro map_idI) blast
  then show ?thesis
    by (simp add: diffCapacities_def o_def)
qed

lemma diff_distinct:
  assumes sent: "snapshot_ok sent" and cur: "snapshot_ok cur"
  shows "distinct (map fc_function_id (diffCapacities order sent cur))"
  unfolding diff_ids[OF sent cur]
  using sent cur by (auto simp: snapshot_ok_def vanished_entry_def changed_entry_def map_range_lookup simp del: set_map_range split: option.splits)


subsection \<open>The frames of a stream\<close>

definition frame_of :: "routingStream \<Rightarrow> u64 \<Rightarrow> bool \<Rightarrow> (u64, FunctionCapacity) gomap \<Rightarrow> RoutingFrame \<times> capacitySource \<Rightarrow> bool" where
  "frame_of st leafID full sent x \<longleftrightarrow>
     (\<exists>order. fst x = build_frame order (snd x) leafID (fr_Revision (fst x)) full
        \<lparr>sub_projection = sub_projection st, sub_configVersion = sub_configVersion st, sub_notify = False, sub_sent = sent\<rparr>)"

text \<open>
  The first frame is a full snapshot; every later one is a delta against the snapshot of the frame before.  The
  revisions ascend and stay below the counter of the leaf.
\<close>

definition channel_ok :: "routingStream \<Rightarrow> bool" where
  "channel_ok st \<longleftrightarrow>
     (\<exists>rest. map fst (ss_built st) = ss_taken st @ ss_frames st @ rest \<and>
        (case ss_pc st of SubSend f \<Rightarrow> rest = [f] | SubGone \<Rightarrow> True | _ \<Rightarrow> rest = []))"

definition stream_ok :: "u64 \<Rightarrow> u64 \<Rightarrow> routingStream \<Rightarrow> bool" where
  "stream_ok leafID rvn st \<longleftrightarrow> channel_ok st \<and>
     (ss_built st = [] \<longleftrightarrow> ss_pc st = SubFirst) \<and>
     (\<forall>i < length (ss_built st). frame_of st leafID (i = 0) (src_CapacitySnapshot (snd (ss_built st ! (i - 1)))) (ss_built st ! i)) \<and>
     (ss_built st \<noteq> [] \<and> rp_FunctionCapacity (sub_projection st) \<longrightarrow> sub_sent st = src_CapacitySnapshot (snd (last (ss_built st)))) \<and>
     sorted_wrt (<) (map (fr_Revision \<circ> fst) (ss_built st)) \<and> (\<forall>x \<in> set (ss_built st). fr_Revision (fst x) \<le> rvn \<and> snapshot_ok (src_CapacitySnapshot (snd x)))"

fun event_ok :: "reporter_event \<Rightarrow> bool" where
  "event_ok (EvRun k order src) \<longleftrightarrow> snapshot_ok (src_CapacitySnapshot src)"
| "event_ok e \<longleftrightarrow> True"

definition reporter_ok :: "Reporter \<Rightarrow> bool" where
  "reporter_ok r \<longleftrightarrow> (\<forall>st \<in> set (rep_streams r). stream_ok (rep_leafID r) (rep_revision r) st)"

lemma stream_ok_frame:
  assumes "stream_ok i rvn st" "channel_ok st'" "ss_built st' = ss_built st" "(ss_pc st' = SubFirst) = (ss_pc st = SubFirst)"
    "sub_projection st' = sub_projection st" "sub_configVersion st' = sub_configVersion st" "sub_sent st' = sub_sent st"
  shows "stream_ok i rvn st'"
  using assms by (simp add: stream_ok_def frame_of_def)

lemma stream_ok_later: "stream_ok i rvn st \<Longrightarrow> rvn \<le> rvn' \<Longrightarrow> stream_ok i rvn' st"
  by (auto simp: stream_ok_def)

lemma reporter_ok_set_sub:
  assumes "reporter_ok r" "k < length (rep_streams r)" "stream_ok (rep_leafID r) (rep_revision r) (f (rep_streams r ! k))"
  shows "reporter_ok (set_sub k f r)"
  using assms set_update_subset_insert[of "rep_streams r" k "f (rep_streams r ! k)"] by (auto simp: reporter_ok_def set_sub_def)

lemma emit_ok:
  assumes r: "reporter_ok r" and k: "k < length (rep_streams r)" and more: "rep_revision r < rep_revision r + 1"
    and full: "full = (ss_built (rep_streams r ! k) = [])" and src: "snapshot_ok (src_CapacitySnapshot src)"
    and idle: "ss_pc (rep_streams r ! k) = SubFirst \<or> ss_pc (rep_streams r ! k) = SubWait"
  shows "reporter_ok (emit order src k full r)"
proof -
  let ?st = "rep_streams r ! k" and ?rvn = "rep_revision r + 1"
  let ?f = "build_frame order src (rep_leafID r) ?rvn full ?st"
  let ?st' = "?st\<lparr>sub_sent := (if rp_FunctionCapacity (sub_projection ?st) then src_CapacitySnapshot src else sub_sent ?st),
    ss_pc := SubSend ?f, ss_built := ss_built ?st @ [(?f, src)]\<rparr>"
  have st: "stream_ok (rep_leafID r) (rep_revision r) ?st"
    using r k by (simp add: reporter_ok_def)
  have rev: "fr_Revision ?f = ?rvn"
    by (simp add: build_frame_def Let_def)
  have sent: "rp_FunctionCapacity (sub_projection ?st) \<and> \<not> full \<longrightarrow> sub_sent ?st = src_CapacitySnapshot (snd (last (ss_built ?st)))"
    using st full by (simp add: stream_ok_def)
  have new: "frame_of ?st' (rep_leafID r) full (src_CapacitySnapshot (snd (last (ss_built ?st)))) (?f, src)"
    unfolding frame_of_def rev fst_conv snd_conv using sent by (intro exI[of _ order]) (simp add: build_frame_def Let_def)
  have "frame_of ?st' (rep_leafID r) (i = 0) (src_CapacitySnapshot (snd ((ss_built ?st @ [(?f, src)]) ! (i - 1)))) ((ss_built ?st @ [(?f, src)]) ! i)"
    if i: "i < length (ss_built ?st @ [(?f, src)])" for i
  proof (cases "i < length (ss_built ?st)")
    case True
    then show ?thesis
      using st by (auto simp: stream_ok_def nth_append frame_of_def)
  next
    case False
    then have e: "i = length (ss_built ?st)"
      using i by simp
    show ?thesis
    proof (cases "ss_built ?st")
      case Nil
      then show ?thesis
        using new full e by (auto simp: frame_of_def build_frame_def Let_def)
    next
      case (Cons x xs)
      then have ne: "ss_built ?st \<noteq> []"
        by simp
      then have "(ss_built ?st @ [(?f, src)]) ! (i - 1) = last (ss_built ?st)" "(ss_built ?st @ [(?f, src)]) ! i = (?f, src)" "(i = 0) = full"
        using e full by (simp_all add: nth_append last_conv_nth)
      then show ?thesis
        using new by simp
    qed
  qed
  moreover have "fr_Revision (fst x) \<le> rep_revision r" if "x \<in> set (ss_built ?st)" for x
    using st that by (simp add: stream_ok_def)
  moreover have "channel_ok ?st'"
    using st idle by (auto simp: stream_ok_def channel_ok_def)
  ultimately have "stream_ok (rep_leafID r) ?rvn ?st'"
    using st more src unfolding stream_ok_def by (auto simp: rev sorted_wrt_append)
  moreover have "\<forall>st \<in> set (rep_streams r). stream_ok (rep_leafID r) ?rvn st"
    using r more stream_ok_later less_imp_le by (auto simp: reporter_ok_def)
  ultimately show ?thesis
    using set_update_subset_insert[of "rep_streams r" k ?st'] by (auto simp: reporter_ok_def emit_def Let_def)
qed


lemma update_all_keeps:
  assumes f: "\<And>x. P x \<Longrightarrow> P (f x)" and xs: "\<forall>x \<in> set xs. P x"
  shows "\<forall>x \<in> set (update_all f ks xs). P x"
  using xs
proof (induction ks arbitrary: xs)
  case (Cons k ks)
  have "\<forall>x \<in> set (xs[k := f (xs ! k)]). P x"
  proof (cases "k < length xs")
    case True
    then have "P (f (xs ! k))"
      using Cons.prems f by simp
    then show ?thesis
      using Cons.prems set_update_subset_insert[of xs k "f (xs ! k)"] by blast
  qed (use Cons.prems in \<open>simp add: list_update_beyond\<close>)
  then show ?case
    using Cons.IH by (simp add: update_all_def)
qed (simp add: update_all_def)

lemma notify_ok: "reporter_ok r \<Longrightarrow> reporter_ok (notifyRoutingLocked r)"
proof -
  assume r: "reporter_ok r"
  have "stream_ok i rvn (sub_notify_update (\<lambda>_. True) st)" if "stream_ok i rvn st" for i rvn st
    by (rule stream_ok_frame[OF that]) (use that in \<open>simp_all add: stream_ok_def channel_ok_def\<close>)
  then show ?thesis
    using r update_all_keeps[of "stream_ok (rep_leafID r) (rep_revision r)" "sub_notify_update (\<lambda>_. True)" "rep_streams r" "map snd (rep_routingSubs r)"]
    by (simp add: reporter_ok_def notifyRoutingLocked_def)
qed

lemma reporter_exec_ok:
  assumes r: "reporter_ok r" and more: "rep_revision r < rep_revision r + 1" and e: "event_ok e"
  shows "reporter_ok (reporter_exec e r)"
proof (cases e)
  case (EvRun k order src)
  show ?thesis
  proof (cases "k < length (rep_streams r)")
    case k: True
    let ?st = "rep_streams r ! k"
    have st: "stream_ok (rep_leafID r) (rep_revision r) ?st"
      using r k by (simp add: reporter_ok_def)
    show ?thesis
    proof (cases "ss_pc ?st")
      case SubFirst
      then show ?thesis
        using emit_ok[OF r k more, of True src order] st k e EvRun by (simp add: stream_ok_def)
    next
      case SubWait
      let ?r = "set_sub k (sub_notify_update (\<lambda>_. False)) r"
      have "reporter_ok ?r"
        by (rule reporter_ok_set_sub[OF r k], rule stream_ok_frame[OF st]) (use st in \<open>simp_all add: stream_ok_def channel_ok_def\<close>)
      moreover have "ss_built ?st \<noteq> []"
        using st SubWait by (simp add: stream_ok_def)
      ultimately have "reporter_ok (emit order src k False ?r)"
        using k more e EvRun SubWait by (intro emit_ok) (simp_all add: set_sub_def)
      then show ?thesis
        using SubWait k EvRun r by simp
    next
      case (SubSend f)
      then have "channel_ok (?st\<lparr>ss_frames := ss_frames ?st @ [f], ss_pc := SubWait\<rparr>)"
        using st by (auto simp: stream_ok_def channel_ok_def)
      then show ?thesis
        using k EvRun SubSend r reporter_ok_set_sub[OF r k] stream_ok_frame[OF st] by simp
    qed (use k EvRun r in simp)
  qed (use EvRun r in simp)
next
  case (EvCancel k)
  show ?thesis
  proof (cases "k < length (rep_streams r)")
    case k: True
    have st: "stream_ok (rep_leafID r) (rep_revision r) (rep_streams r ! k)"
      using r k by (simp add: reporter_ok_def)
    have "reporter_ok (r\<lparr>rep_routingSubs := x\<rparr>)" for x
      using r by (simp add: reporter_ok_def)
    moreover have "channel_ok ((rep_streams r ! k)\<lparr>ss_pc := SubGone\<rparr>)"
      using st by (auto simp: stream_ok_def channel_ok_def)
    ultimately show ?thesis
      using EvCancel k r stream_ok_frame[OF st] by (auto simp: cancel_sub_def Let_def intro!: reporter_ok_set_sub)
  qed (use EvCancel r in simp)
next
  case (EvTake k)
  show ?thesis
  proof (cases "k < length (rep_streams r)")
    case k: True
    have st: "stream_ok (rep_leafID r) (rep_revision r) (rep_streams r ! k)"
      using r k by (simp add: reporter_ok_def)
    have "channel_ok ((rep_streams r ! k)\<lparr>ss_frames := fs, ss_taken := ss_taken (rep_streams r ! k) @ [f]\<rparr>)"
      if "ss_frames (rep_streams r ! k) = f # fs" for f fs
      using st that by (auto simp: stream_ok_def channel_ok_def)
    then show ?thesis
      using EvTake k r stream_ok_frame[OF st] by (auto simp: take_frame_def split: list.split intro!: reporter_ok_set_sub)
  qed (use EvTake r in simp)
next
  case (EvWatch v p)
  then show ?thesis
    using r by (auto simp: WatchRoutingState_def Let_def reporter_ok_def stream_ok_def channel_ok_def)
next
  case (EvPublish c)
  have "reporter_ok (r\<lparr>rep_last := x\<rparr>)" for x
    using r by (simp add: reporter_ok_def)
  then show ?thesis
    using EvPublish r by (auto simp: Publish_def intro: notify_ok split: option.split)
next
  case (EvDeleted now i)
  have "reporter_ok (r\<lparr>rep_last := x\<rparr>)" for x
    using r by (simp add: reporter_ok_def)
  then show ?thesis
    using EvDeleted by (auto simp: PublishDeleted_def intro: notify_ok)
qed (use r notify_ok in \<open>simp add: PublishHeartbeat_def\<close>)

lemma reporter_exec_revision: "unat (rep_revision (reporter_exec e r)) \<le> unat (rep_revision r) + 1"
proof -
  have e: "unat (rep_revision r + 1) \<le> unat (rep_revision r) + 1"
    by (subst unat_word_ariths) simp
  have n: "rep_revision (notifyRoutingLocked r) = rep_revision r" for r
    by (simp add: notifyRoutingLocked_def)
  have s: "rep_revision (set_sub k f r) = rep_revision r" for k f r
    by (simp add: set_sub_def)
  have m: "rep_revision (emit order src k full r) = rep_revision r + 1" for order src k full r
    by (simp add: emit_def Let_def)
  have "unat (rep_revision (run_sub pc order src k r)) \<le> unat (rep_revision r) + 1" for pc order src k
    using e by (cases pc) (auto simp: m s)
  then show ?thesis
    using e by (cases e)
      (auto simp: n s WatchRoutingState_def Let_def Publish_def PublishHeartbeat_def PublishDeleted_def cancel_sub_def take_frame_def
        split: option.split list.split)
qed

lemma word_less_inc: "unat (w :: u64) < 2 ^ 64 - 1 \<Longrightarrow> w < w + 1"
proof -
  assume "unat w < 2 ^ 64 - 1"
  then have "unat (w + 1) = unat w + 1"
    by (subst unat_word_ariths) simp
  then show ?thesis
    by (simp add: word_less_nat_alt)
qed

lemma reporter_run_ok:
  "reporter_ok r \<Longrightarrow> Ball (set es) event_ok \<Longrightarrow> unat (rep_revision r) + length es < 2 ^ 64 \<Longrightarrow> reporter_ok (reporter_run es r)"
  unfolding reporter_run_def
proof (induction es arbitrary: r)
  case (Cons e es)
  have "reporter_ok (reporter_exec e r)"
    using Cons.prems by (intro reporter_exec_ok word_less_inc) simp_all
  moreover have "unat (rep_revision (reporter_exec e r)) + length es < 2 ^ 64"
    using Cons.prems(3) reporter_exec_revision[of e r] by simp
  ultimately show ?case
    using Cons.IH Cons.prems(2) by simp
qed simp

lemma reporter_init_ok: "reporter_ok (NewReporter i)"
  by (simp add: reporter_ok_def NewReporter_def)

lemma reporter_exec_leaf: "rep_leafID (reporter_exec e r) = rep_leafID r"
proof -
  have n: "rep_leafID (notifyRoutingLocked r) = rep_leafID r" for r
    by (simp add: notifyRoutingLocked_def)
  have s: "rep_leafID (set_sub k f r) = rep_leafID r" for k f r
    by (simp add: set_sub_def)
  have m: "rep_leafID (emit order src k full r) = rep_leafID r" for order src k full r
    by (simp add: emit_def Let_def)
  have "rep_leafID (run_sub pc order src k r) = rep_leafID r" for pc order src k
    by (cases pc) (auto simp: m s)
  then show ?thesis
    by (cases e)
      (auto simp: n s WatchRoutingState_def Let_def Publish_def PublishHeartbeat_def PublishDeleted_def cancel_sub_def take_frame_def
        split: option.split list.split)
qed

lemma reporter_run_leaf: "rep_leafID (reporter_run es r) = rep_leafID r"
  unfolding reporter_run_def by (induction es arbitrary: r) (simp_all add: reporter_exec_leaf)

end
