(* ===== verification/Leaf_Routing.thy ===== *)
theory Leaf_Routing
  imports Leaf_Reporter Routing_Contract
begin


text \<open>\<^verbatim>\<open>WatchRoutingState\<close> of the service translates the projection of the request.\<close>

definition projection_from :: "RoutingStateProjection \<Rightarrow> RoutingProjection" where
  "projection_from p =
     \<lparr>rp_LeafLoad = pj_leaf_load p, rp_AggregateInFlight = pj_aggregate_in_flight p, rp_FunctionCapacity = pj_function_capacity p\<rparr>"

subsection \<open>Capacities\<close>









subsection \<open>A delivered stream\<close>










subsection \<open>Theorem\<close>








end
