(* ===== verification/Spec2Isabelle.thy ===== *)
theory Spec2Isabelle
  imports Chbl Pool_System Control_API Scheduler_Contract Placement_Theorems Autoscale_Policy Routing_System Leaf_Routing
begin

text \<open>
  Verification development of HyperFaaS, a platform for serverless functions.

  The program has four tiers.  The control plane (\<^verbatim>\<open>pkg/controlplane\<close>) stores users, functions and one versioned
  configuration document.  An ingress (\<^verbatim>\<open>pkg/ingress\<close>) routes each request to a leaf.  A leaf (\<^verbatim>\<open>pkg/leaf\<close>) queues the
  requests of a function, scales its sandboxes and places them on workers.  A worker (\<^verbatim>\<open>pkg/worker\<close>) runs sandboxes.
  The tiers exchange the messages of \<^verbatim>\<open>proto/core.proto\<close>.

  \<^bold>\<open>Conventions.\<close>  \<open>Prelude\<close>, \<open>Go_Lib\<close> and \<open>Float64\<close> hold what the components share: Go maps as association lists whose
  iteration order is an argument, pointers as indices into a heap, \<^verbatim>\<open>uint64\<close> as a 64 bit word, \<^verbatim>\<open>float64\<close> as a rational with
  an executable rounding, decimal numbers and binary search.  Go integers that count requests, sandboxes or
  workers are \<^typ>\<open>int\<close>.  Errors are values of a sum or an option type, and a panic is a value of its own.  Code that
  runs concurrently is a step function on a state; a step is one section under a mutex or one atomic
  operation, and a run is a list of events, so theorems on runs hold for every interleaving.  Times, random
  numbers, frames received and iteration orders are inputs of the steps.

  \<^bold>\<open>Theories.\<close>

  \<^item> \<open>Core_Types\<close> and \<open>Core_State\<close>: the messages, their validation (\<^verbatim>\<open>pkg/core/validate.go\<close>) and the default document
    (\<^verbatim>\<open>pkg/controlplane/defaults.go\<close>).
  \<^item> \<open>Memory_Store\<close>, \<open>Memory_Refine\<close>, \<open>Memory_Watch\<close>: the in-memory store (\<^verbatim>\<open>store/memory/memory.go\<close>).  It refines finite
    maps for every run; a watcher of functions that lost no event can replay to the present state, and a running
    watch of the configuration never loses the newest document.
  \<^item> \<open>Control_API\<close>: the HTTP and gRPC handlers over the locale \<open>backend_contract\<close>, interpreted on the store
    (\<^verbatim>\<open>http_api.go\<close>, \<^verbatim>\<open>grpc_api.go\<close>, \<^verbatim>\<open>server.go\<close>): round trips, errors that change nothing, and that a stored
    document is valid.
  \<^item> \<open>Chbl\<close>: consistent hashing with bounded loads (\<^verbatim>\<open>pkg/chbl/chbl.go\<close>).  The subset of a ring is the ring of the subset; when
    nodes leave, a function whose home stays keeps it; what the forwarding walk returns.
  \<^item> \<open>Routing_Model\<close>, \<open>Routing_Capacity\<close>: the eight routing policies (\<^verbatim>\<open>pkg/ingress/routing\<close>), each a model fed by frames and a picker
    for requests.  \<open>Routing_Engine\<close>: the controller with the goroutines of its leaf streams and its calls of \<^verbatim>\<open>ApplyConfig\<close>.
    \<open>Routing_Contract\<close>: the specification of a router and the locale \<open>routing_interface\<close>, interpreted on the eight
    policies.  \<open>Routing_System\<close>: every request gets an answer of the specification in every interleaving without a panic, and a reload
    can end although leaves are unreachable, as long as nobody calls \<^verbatim>\<open>Stop\<close>.
  \<^item> \<open>Leaf_Reporter\<close>, \<open>Leaf_Routing\<close>: the routing state that a leaf publishes (\<^verbatim>\<open>pkg/leaf/state\<close>, \<^verbatim>\<open>pkg/leaf/server.go\<close>), and
    that the frames of a stream rebuild it at an ingress that runs the same configuration.
  \<^item> \<open>Sandbox_Pool\<close>, \<open>Sandbox_Pool_Ops\<close>, \<open>Pool_System\<close>: the lease pool of a function (\<^verbatim>\<open>dataplane/pool.go\<close>) with its clients: no panic,
    leases accounted for, work conservation, order of the queue, limits, and that a drained sandbox is idle.  One
    theorem shows that the high-water mark counts a dispatched request twice.
  \<^item> \<open>Autoscale_Policy\<close>: the scale decision (\<^verbatim>\<open>autoscaling/policy.go\<close>): demand is covered up to the limits of instances and growth,
    scaling to zero only when idle, and the ring of samples is a moving average.
  \<^item> \<open>Scheduler\<close>, \<open>Scheduler_Contract\<close>: the placement policies (\<^verbatim>\<open>leaf/scheduler\<close>) over the locales \<open>placement_scheduler\<close> and
    \<open>scanning_policy\<close>: each places on an eligible worker, and the requested signals suffice.
  \<^item> \<open>Placement_State\<close>, \<open>Placement_Invariants\<close>, \<open>Placement_Theorems\<close>: the lock-free placement coordinator
    (\<^verbatim>\<open>leaf/runtime/placement.go\<close>), one step per atomic operation: start tokens are respected and accounted for,
    a reservation is settled at most once, and a call that runs undisturbed returns.  One theorem exhibits a
    race by which a worker exceeds its instance limit.

  \<^bold>\<open>Bounds.\<close>  Theorems that depend on a counter of the program not wrapping around have the bound as a hypothesis:
  runs of fewer than \<open>2 ^ 64\<close> steps, or \<open>2 ^ 63\<close> for the routing of the ingress (for the placement state, the number of slots included), and demands below
  \<open>2 ^ 53\<close> where \<^verbatim>\<open>float64\<close> has to represent them.  Loops are recursions with a termination proof and no fuel is
  used.  The one loop that may run forever, the draw of two different random numbers of the reservation policy, is
  a partial function; it returns when the random source does not repeat one outcome forever, which is a hypothesis.

  \<^bold>\<open>Idealisations.\<close>  Counters of type \<^verbatim>\<open>int\<close> do not wrap around.  A \<^verbatim>\<open>float64\<close> has no infinities, NaN, negative zero or
  subnormal numbers.  A request at the ingress reads the slots of its picker at one moment.  Texts of error messages and
  logging are left out.  The conversion of a float outside the range of an integer type, which Go leaves to the
  implementation, and the logarithm and cosine of the noise of CH-RLU are parameters, as is the JSON decoder.

  \<^bold>\<open>Not modelled.\<close>  Two parts with logic of their own are missing: the actuator that starts and stops sandboxes
  (\<^verbatim>\<open>autoscaling/actuator.go\<close>, with the registry \<^verbatim>\<open>dataplane/store.go\<close>), and the wiring of the leaf with the reload of its
  placement policy (\<^verbatim>\<open>leaf/runtime\<close> apart from \<^verbatim>\<open>placement.go\<close>).  So nothing is proved on how the decisions of the
  autoscaling policy become starts and stops, and the pool, the policy and the placement state are verified each for
  itself, against arbitrary clients.  The other missing parts are mostly I/O: the etcd store, whose behaviour is that of etcd transactions
  and watches; reconnecting clients; reverse proxies and listeners; YAML configuration files; the worker process
  with its container runtimes, virtual machines, networking and snapshots.
\<close>

end
